(* ===== verification/VR_Prelude.thy ===== *)
theory VR_Prelude
  imports Main "HOL-Library.Word"
begin

unbundle bit_operations_syntax

text \<open>
  Shared vocabulary of the vrouter development: the machine integers of the C code, its
  error numbers, the outcome of code that may dereference an invalid address, the
  simplification collections of the development and the generic lemmas on lists and words
  that several components use.
\<close>

section \<open>Types\<close>

type_synonym u8 = "8 word"
type_synonym u16 = "16 word"
type_synonym u32 = "32 word"
type_synonym u64 = "64 word"

text \<open>The error numbers the modelled functions return (as negative values) and success.\<close>

datatype errno = EINVAL | ENOENT | ENOMEM | EEXIST | EAGAIN | ENODEV

text \<open>The address families the code distinguishes.\<close>

datatype family = AF_UNSPEC | AF_INET | AF_INET6 | AF_BRIDGE

datatype vr_ret = RetOk | RetErr errno

text \<open>
  The outcome of a C function: \<open>Fault\<close> is an access through a null or an out of range
  pointer, \<open>Done x\<close> a normal return. A definition whose code cannot fault returns a plain
  value.
\<close>

datatype 'a exec = Fault | Done 'a

primrec exec_bind :: "'a exec \<Rightarrow> ('a \<Rightarrow> 'b exec) \<Rightarrow> 'b exec" where
  "exec_bind Fault f = Fault"
| "exec_bind (Done x) f = f x"

text \<open>
  \<open>vr_zalloc\<close> may return NULL. An operation that allocates takes an allocation schedule:
  \<open>ok n\<close> tells whether its \<open>n\<close>-th request succeeds.
\<close>

type_synonym alloc_sched = "nat \<Rightarrow> bool"

section \<open>Collections\<close>

named_theorems vr_inv \<open>unfolding rules for the invariants of the components\<close>
named_theorems vr_frame \<open>what an operation leaves unchanged\<close>

section \<open>Lists\<close>

lemma exec_bind_Done_iff [simp]:
  "exec_bind m f = Done y \<longleftrightarrow> (\<exists>x. m = Done x \<and> f x = Done y)"
  by (cases m) auto

lemma nth_list_update_if:
  "i < length xs \<Longrightarrow> (xs[i := v]) ! j = (if i = j then v else xs ! j)"
  by (cases "i = j") auto

section \<open>Words\<close>

text \<open>The C expression \<open>1 << n\<close> on 32 bits.\<close>

definition shl1 :: "nat \<Rightarrow> u32" where
  "shl1 n = push_bit n 1"

lemma bit_shl1_iff [simp]: "bit (shl1 n) m \<longleftrightarrow> m = n \<and> n < 32"
  by (auto simp: shl1_def bit_exp_iff dest: bit_imp_le_length)

lemma unat_u32_less [simp]: "unat (w :: u32) < 4294967296"
  using unsigned_less [of w] by simp

lemma unat_of_nat_u32 [simp]: "n < 4294967296 \<Longrightarrow> unat (of_nat n :: u32) = n"
  by (simp add: unat_of_nat)

lemma shl1_minus_1: "w < 32 \<Longrightarrow> shl1 w - 1 = mask w"
  by (simp add: shl1_def mask_eq_decr_exp)

lemma unat_shl1: "w < 32 \<Longrightarrow> unat (shl1 w) = 2 ^ w"
  using power_strict_increasing [of w 32 "2 :: nat"]
  unfolding shl1_def unsigned_push_bit_eq by (simp add: take_bit_eq_mod)

lemma unat_drop_bit_u32: "unat (drop_bit k (x :: u32)) = unat x div 2 ^ k"
  unfolding unsigned_drop_bit_eq by (simp add: drop_bit_eq_div take_bit_nat_eq_self)

lemma unat_and_mask_u32: "unat ((x :: u32) AND mask k) = unat x mod 2 ^ k"
proof -
  have "x AND mask k = take_bit k x" by (simp add: take_bit_eq_mask)
  then show ?thesis unfolding unsigned_take_bit_eq [of k x, symmetric] take_bit_eq_mod [symmetric]
    by (simp only: unsigned_take_bit_eq)
qed

lemma unat_mult_u32: "unat (a :: u32) * unat b < 2 ^ 32 \<Longrightarrow> unat (a * b) = unat a * unat b"
  by (simp add: unat_word_ariths)

lemma unat_add_u32: "unat (a :: u32) + unat b < 2 ^ 32 \<Longrightarrow> unat (a + b) = unat a + unat b"
  by (simp add: unat_word_ariths)

lemma unat_ucast_u16_u32 [simp]: "unat (ucast (x :: u16) :: u32) = unat x"
proof -
  have "unat x < 2 ^ LENGTH(16)" by (rule unsigned_less)
  then show ?thesis by (simp add: unsigned_ucast_eq take_bit_nat_eq_self)
qed

lemma unat_ucast_u16_u64 [simp]: "unat (ucast (x :: u16) :: u64) = unat x"
proof -
  have "unat x < 2 ^ LENGTH(16)" by (rule unsigned_less)
  then show ?thesis by (simp add: unsigned_ucast_eq take_bit_nat_eq_self)
qed

end
