(* ===== verification/VR_Bitmap.thy ===== *)
theory VR_Bitmap
  imports VR_Prelude
begin

text \<open>
  \<^verbatim>\<open>dp-core/vr_bitmap.c\<close>: an allocator of bit numbers over an array of 32 bit strides.
  \<open>vr_bitmap_create\<close>, \<open>vr_bitmap_alloc_bit\<close> and \<open>vr_bitmap_clear_bit\<close> are modelled as
  they run without contention (a compare-and-swap succeeds).
\<close>

definition VR_BITMAP_STRIDE_LEN :: nat where
  "VR_BITMAP_STRIDE_LEN = 32"

record vr_bitmap =
  bmap_bits :: u32
  bmap_size :: u32
  bmap_last_free_stride :: u32
  bmap_used_bits :: u32
  bmap_data :: "u32 list"

text \<open>\<open>__builtin_ffs\<close>: one plus the index of the least significant set bit, 0 when none is.\<close>

definition vr_ffs_32 :: "u32 \<Rightarrow> nat" where
  "vr_ffs_32 w = (case find (bit w) [0..<32] of None \<Rightarrow> 0 | Some i \<Rightarrow> Suc i)"

definition vr_bitmap_used_bits :: "vr_bitmap option \<Rightarrow> u32" where
  "vr_bitmap_used_bits b = (case b of Some bmap \<Rightarrow> bmap_used_bits bmap | None \<Rightarrow> 0)"

definition vr_bitmap_create :: "bool \<Rightarrow> u32 \<Rightarrow> vr_bitmap option" where
  "vr_bitmap_create zalloc_ok nbits =
     (let bytes = ((nbits + 64) AND NOT 64) div 8
      in if \<not> zalloc_ok then None
         else Some \<lparr>bmap_bits = nbits, bmap_size = bytes div 4, bmap_last_free_stride = 0,
                    bmap_used_bits = 0, bmap_data = replicate (unat (bytes div 4)) 0\<rparr>)"

text \<open>
  The scan of \<open>vr_bitmap_alloc_bit\<close>: \<open>n\<close> strides are left to look at, \<open>s\<close> is the next
  stride number, which wraps to 0 at the end of the array.
\<close>

fun bitmap_scan :: "nat \<Rightarrow> nat \<Rightarrow> vr_bitmap \<Rightarrow> int \<times> vr_bitmap" where
  "bitmap_scan 0 s bmap = (-1, bmap)"
| "bitmap_scan (Suc n) s bmap =
     (let s = (if unat (bmap_size bmap) \<le> s then 0 else s);
          data = bmap_data bmap ! s
      in if data \<noteq> 0xFFFFFFFF \<and> vr_ffs_32 (NOT data) \<noteq> 0 then
           let free_bit = vr_ffs_32 (NOT data) - 1
           in (int (s * VR_BITMAP_STRIDE_LEN + free_bit),
               bmap\<lparr>bmap_data := (bmap_data bmap)[s := data OR shl1 free_bit],
                    bmap_last_free_stride := of_nat s,
                    bmap_used_bits := bmap_used_bits bmap + 1\<rparr>)
         else bitmap_scan n (Suc s) bmap)"

definition vr_bitmap_alloc_bit :: "vr_bitmap option \<Rightarrow> int \<times> vr_bitmap option" where
  "vr_bitmap_alloc_bit b =
     (case b of None \<Rightarrow> (-1, None)
      | Some bmap \<Rightarrow>
          if bmap_bits bmap - bmap_used_bits bmap = 0 then (-1, Some bmap)
          else apsnd Some (bitmap_scan (unat (bmap_size bmap))
                             (unat (bmap_last_free_stride bmap)) bmap))"

definition vr_bitmap_clear_bit :: "vr_bitmap option \<Rightarrow> u32 \<Rightarrow> (bool \<times> vr_bitmap option) exec" where
  "vr_bitmap_clear_bit b bt =
     (case b of None \<Rightarrow> Done (False, None)
      | Some bmap \<Rightarrow>
          if bmap_bits bmap \<le> bt then Done (False, Some bmap)
          else let i = unat bt div VR_BITMAP_STRIDE_LEN; m = unat bt mod VR_BITMAP_STRIDE_LEN
               in if length (bmap_data bmap) \<le> i then Fault
                  else Done (True, Some (bmap\<lparr>
                         bmap_data := (bmap_data bmap)[i := bmap_data bmap ! i AND NOT (shl1 m)],
                         bmap_used_bits := bmap_used_bits bmap - 1\<rparr>)))"

section \<open>Invariant and correctness\<close>

definition bitmap_wf :: "vr_bitmap \<Rightarrow> bool" where
  [vr_inv]: "bitmap_wf bmap \<longleftrightarrow>
     length (bmap_data bmap) = unat (bmap_size bmap) \<and> unat (bmap_size bmap) < 2 ^ 27"

text \<open>Bit \<open>k\<close> of the bitmap is taken.\<close>

definition bitmap_taken :: "vr_bitmap \<Rightarrow> nat \<Rightarrow> bool" where
  "bitmap_taken bmap k \<longleftrightarrow>
     k div 32 < length (bmap_data bmap) \<and> bit (bmap_data bmap ! (k div 32)) (k mod 32)"

lemma vr_ffs_32_bit: "vr_ffs_32 w = Suc i \<Longrightarrow> bit w i \<and> i < 32"
  by (auto simp: vr_ffs_32_def find_Some_iff split: option.splits)

lemma vr_ffs_32_not_full: "w \<noteq> 0xFFFFFFFF \<Longrightarrow> vr_ffs_32 (NOT w) \<noteq> 0"
proof (rule ccontr)
  assume w: "w \<noteq> 0xFFFFFFFF" and "\<not> vr_ffs_32 (NOT w) \<noteq> 0"
  then have "\<forall>i<32. \<not> bit (NOT w) i"
    by (auto simp: vr_ffs_32_def find_None_iff split: option.splits)
  then have "w = - 1"
    by (intro bit_word_eqI) (auto simp: bit_not_iff)
  with w show False by simp
qed

lemma bitmap_taken_update:
  assumes "s < length (bmap_data b)" "f < 32"
  shows "bitmap_taken (b\<lparr>bmap_data := (bmap_data b)[s := bmap_data b ! s OR shl1 f],
             bmap_last_free_stride := l, bmap_used_bits := u\<rparr>) k \<longleftrightarrow>
         k = s * 32 + f \<or> bitmap_taken b k"
  using assms
  by (simp add: bitmap_taken_def nth_list_update_if bit_or_iff) (metis div_mod_decomp mod_mult_self3
      mod_less div_mult_self3 div_less add_0_right zero_neq_numeral mult.commute)

text \<open>One call takes a free bit of the array and nothing else, or changes nothing.\<close>

definition bitmap_takes :: "vr_bitmap \<Rightarrow> nat \<Rightarrow> vr_bitmap \<Rightarrow> bool" where
  "bitmap_takes b k b' \<longleftrightarrow>
     k < 32 * unat (bmap_size b) \<and> \<not> bitmap_taken b k \<and>
     (\<forall>j. bitmap_taken b' j \<longleftrightarrow> j = k \<or> bitmap_taken b j) \<and>
     bmap_used_bits b' = bmap_used_bits b + 1 \<and> bmap_bits b' = bmap_bits b \<and>
     bmap_size b' = bmap_size b \<and> bitmap_wf b'"

definition bitmap_mark :: "vr_bitmap \<Rightarrow> nat \<Rightarrow> nat \<Rightarrow> vr_bitmap" where
  "bitmap_mark b s f = b\<lparr>bmap_data := (bmap_data b)[s := bmap_data b ! s OR shl1 f],
     bmap_last_free_stride := of_nat s, bmap_used_bits := bmap_used_bits b + 1\<rparr>"

definition bitmap_pos :: "vr_bitmap \<Rightarrow> nat \<Rightarrow> nat" where
  "bitmap_pos b s = (if unat (bmap_size b) \<le> s then 0 else s)"

lemma bitmap_scan_step:
  obtains (full) "bmap_data b ! (bitmap_pos b s) = 0xFFFFFFFF" "bitmap_scan (Suc n) s b = bitmap_scan n (Suc (bitmap_pos b s)) b"
  | (found) f where "f < 32" "\<not> bit (bmap_data b ! (bitmap_pos b s)) f"
      "bitmap_scan (Suc n) s b = (int (bitmap_pos b s * 32 + f), bitmap_mark b (bitmap_pos b s) f)"
proof (cases "bmap_data b ! (bitmap_pos b s) = 0xFFFFFFFF")
  case True
  then show ?thesis using full by (simp add: bitmap_pos_def Let_def)
next
  case False
  then obtain f where f: "vr_ffs_32 (NOT (bmap_data b ! (bitmap_pos b s))) = Suc f"
    using vr_ffs_32_not_full by (metis not0_implies_Suc)
  from vr_ffs_32_bit [OF f] f False show ?thesis
    by (intro found [of f])
       (simp_all add: bitmap_pos_def Let_def bitmap_mark_def VR_BITMAP_STRIDE_LEN_def bit_not_iff)
qed

lemma bitmap_mark_takes:
  assumes "bitmap_wf b" "s < unat (bmap_size b)" "f < 32" "\<not> bit (bmap_data b ! s) f"
  shows "bitmap_takes b (s * 32 + f) (bitmap_mark b s f)"
  using assms
  by (auto simp: bitmap_takes_def bitmap_mark_def bitmap_taken_update vr_inv)
     (auto simp: bitmap_taken_def)

lemma bitmap_scan_takes:
  assumes "bitmap_wf b" "0 < unat (bmap_size b)"
  shows "bitmap_scan n s b = (r, b') \<Longrightarrow> r = -1 \<and> b' = b \<or> (\<exists>k. r = int k \<and> bitmap_takes b k b')"
proof (induction n arbitrary: s)
  case (Suc n)
  show ?case
  proof (cases rule: bitmap_scan_step [of b s n])
    case full
    with Suc.prems have "bitmap_scan n (Suc (bitmap_pos b s)) b = (r, b')" by simp
    then show ?thesis by (rule Suc.IH)
  next
    case (found f)
    have "bitmap_takes b (bitmap_pos b s * 32 + f) (bitmap_mark b (bitmap_pos b s) f)"
      using assms found by (intro bitmap_mark_takes) (auto simp: bitmap_pos_def)
    with found(3) Suc.prems show ?thesis by (intro disjI2 exI) auto
  qed
qed simp

lemma bitmap_scan_fails_full:
  assumes "0 < unat (bmap_size b)"
  shows "bitmap_scan n s b = (-1, b') \<Longrightarrow> s \<le> unat (bmap_size b) \<Longrightarrow> i < n \<Longrightarrow>
         bmap_data b ! ((s + i) mod unat (bmap_size b)) = 0xFFFFFFFF"
proof (induction n arbitrary: s i)
  case (Suc n)
  have m: "(s + i) mod unat (bmap_size b) = (bitmap_pos b s + i) mod unat (bmap_size b)" and
    s': "bitmap_pos b s < unat (bmap_size b)"
    using Suc.prems(2) assms by (auto simp: bitmap_pos_def)
  show ?case
  proof (cases rule: bitmap_scan_step [of b s n])
    case full
    then show ?thesis
      using Suc.IH [of "Suc (bitmap_pos b s)" "i - 1"] Suc.prems(1,3) s' m by (cases i) auto
  next
    case (found f)
    with Suc.prems(1) show ?thesis by (simp del: bitmap_scan.simps)
  qed
qed simp

lemma vr_bitmap_alloc_bit_scan:
  "vr_bitmap_alloc_bit (Some b) = (r, Some b') \<Longrightarrow>
   r = -1 \<and> b' = b \<or>
   bitmap_scan (unat (bmap_size b)) (unat (bmap_last_free_stride b)) b = (r, b')"
  by (cases "bitmap_scan (unat (bmap_size b)) (unat (bmap_last_free_stride b)) b")
     (simp add: vr_bitmap_alloc_bit_def split: if_splits)

lemma vr_bitmap_alloc_bit_takes:
  assumes "bitmap_wf b" "vr_bitmap_alloc_bit (Some b) = (r, Some b')"
  shows "r = -1 \<and> b' = b \<or> (\<exists>k. r = int k \<and> bitmap_takes b k b')"
proof (cases "bmap_size b = 0")
  case True
  with vr_bitmap_alloc_bit_scan [OF assms(2)] show ?thesis by auto
next
  case False
  then have "0 < unat (bmap_size b)" by (simp add: unat_gt_0)
  with vr_bitmap_alloc_bit_scan [OF assms(2)] bitmap_scan_takes [OF assms(1)] show ?thesis
    by blast
qed

text \<open>
  \<open>vr_bitmap_create\<close> is meant to round the number of bits up to a multiple of 64, but masks bit
  6 away instead of the six low bits. A bitmap of 63 bits gets one stride, and releasing bit 40
  of it writes beyond the array.
\<close>

lemma bitmap_create_short:
  "vr_bitmap_clear_bit (vr_bitmap_create True 63) 40 = Fault"
  by (simp add: vr_bitmap_clear_bit_def vr_bitmap_create_def Let_def VR_BITMAP_STRIDE_LEN_def)

end
