(* ===== verification/VR_Btable.thy ===== *)
theory VR_Btable
  imports VR_Prelude
begin

text \<open>
  \<^verbatim>\<open>dp-core/vr_btable.c\<close> and \<^verbatim>\<open>include/vr_btable.h\<close>: big tables. An array of entries that may be
  larger than the largest contiguous allocation (4 MB) is kept in several chunks of memory
  (partitions). \<open>vr_btable_get\<close> turns an entry number into an address. An address is a chunk
  and an offset in it.
\<close>

section \<open>Data\<close>

type_synonym chunk = nat
type_synonym addr = "chunk \<times> nat"

definition VR_SINGLE_ALLOC_LIMIT :: u32 where
  "VR_SINGLE_ALLOC_LIMIT = 4 * 1024 * 1024"

definition VB_FLAG_MEMORY_ATTACHED :: u32 where
  "VB_FLAG_MEMORY_ATTACHED = 1"

record vr_btable_partition =
  vb_offset :: u32
  vb_mem_size :: u32

record vr_btable =
  vb_entries :: u32
  vb_esize :: u16
  vb_partitions :: u16
  vb_flags :: u32
  vb_alloc_limit :: u32
  vb_alloc_limit_log :: u16
  vb_alloc_limit_mask :: u32
  vb_mem :: "chunk list"
  vb_table_info :: "vr_btable_partition list"

record iovec =
  iov_base :: chunk
  iov_len :: u64

section \<open>Operations\<close>

definition vr_btable_get_partition :: "vr_btable \<Rightarrow> u32 \<Rightarrow> vr_btable_partition option" where
  "vr_btable_get_partition table part =
     (if ucast (vb_partitions table) \<le> part then None else Some (vb_table_info table ! unat part))"

text \<open>\<open>vr_btable_get_address\<close>: the partitions are searched from \<open>i\<close> on, \<open>n\<close> are left.\<close>

fun btable_find_address :: "vr_btable \<Rightarrow> u32 \<Rightarrow> nat \<Rightarrow> nat \<Rightarrow> addr option" where
  "btable_find_address table offset 0 i = None"
| "btable_find_address table offset (Suc n) i =
     (case vr_btable_get_partition table (of_nat i) of
        None \<Rightarrow> None
      | Some p \<Rightarrow>
          if vb_offset p \<le> offset \<and> offset < vb_offset p + vb_mem_size p
          then Some (vb_mem table ! i, unat (offset - vb_offset p))
          else btable_find_address table offset n (Suc i))"

definition vr_btable_get_address :: "vr_btable \<Rightarrow> u32 \<Rightarrow> addr option" where
  "vr_btable_get_address table offset =
     btable_find_address table offset (unat (vb_partitions table)) 0"

text \<open>The chunks \<open>vr_btable_free\<close> gives back; none when the memory was attached by the caller.\<close>

definition vr_btable_free :: "vr_btable option \<Rightarrow> chunk list" where
  "vr_btable_free tb =
     (case tb of None \<Rightarrow> []
      | Some table \<Rightarrow>
          if vb_flags table AND VB_FLAG_MEMORY_ATTACHED = 0
          then take (unat (vb_partitions table)) (vb_mem table) else [])"

text \<open>The loop \<open>while (number >>= 1) log++\<close>.\<close>

fun btable_log :: "nat \<Rightarrow> nat" where
  "btable_log n = (if n div 2 = 0 then 0 else Suc (btable_log (n div 2)))"

declare btable_log.simps [simp del]

definition vr_btable_fill_pow2_fields :: "vr_btable \<Rightarrow> vr_btable" where
  "vr_btable_fill_pow2_fields table =
     (if vb_alloc_limit table AND (vb_alloc_limit table - 1) = 0 then
        table\<lparr>vb_alloc_limit_log := vb_alloc_limit_log table + of_nat (btable_log (unat (vb_alloc_limit table))),
              vb_alloc_limit_mask := vb_alloc_limit table - 1\<rparr>
      else table\<lparr>vb_alloc_limit_log := 0, vb_alloc_limit_mask := 0\<rparr>)"

text \<open>
  The allocation loops of \<open>vr_btable_alloc\<close>: one \<open>vr_page_alloc\<close> per partition; \<open>page i\<close> is
  what the \<open>i\<close>-th one returns. A failure makes the whole table fail.
\<close>

fun btable_alloc_parts :: "(nat \<Rightarrow> chunk option) \<Rightarrow> nat \<Rightarrow> u32 \<Rightarrow> u32 list \<Rightarrow>
    (chunk list \<times> vr_btable_partition list) option" where
  "btable_alloc_parts page i offset [] = Some ([], [])"
| "btable_alloc_parts page i offset (sz # szs) =
     (case page i of
        None \<Rightarrow> None
      | Some c \<Rightarrow>
          (case btable_alloc_parts page (Suc i) (offset + sz) szs of
             None \<Rightarrow> None
           | Some (mem, info) \<Rightarrow>
               Some (c # mem, \<lparr>vb_offset = offset, vb_mem_size = sz\<rparr> # info)))"

definition vr_btable_alloc :: "bool \<Rightarrow> (nat \<Rightarrow> chunk option) \<Rightarrow> u32 \<Rightarrow> u32 \<Rightarrow> vr_btable option" where
  "vr_btable_alloc zalloc_ok page num_entries entry_size =
     (let total_mem = num_entries * entry_size;
          num_parts = unat total_mem div unat VR_SINGLE_ALLOC_LIMIT;
          remainder = total_mem mod VR_SINGLE_ALLOC_LIMIT;
          sizes = replicate num_parts VR_SINGLE_ALLOC_LIMIT @ (if remainder = 0 then [] else [remainder])
      in if num_parts \<noteq> 0 \<and> VR_SINGLE_ALLOC_LIMIT mod entry_size \<noteq> 0 then None
         else if sizes = [] then None
         else if \<not> zalloc_ok then None
         else case btable_alloc_parts page 0 0 sizes of
                None \<Rightarrow> None
              | Some (mem, info) \<Rightarrow>
                  Some (vr_btable_fill_pow2_fields
                    \<lparr>vb_entries = num_entries, vb_esize = ucast entry_size,
                     vb_partitions = of_nat (length sizes), vb_flags = 0,
                     vb_alloc_limit = VR_SINGLE_ALLOC_LIMIT, vb_alloc_limit_log = 0,
                     vb_alloc_limit_mask = 0, vb_mem = mem, vb_table_info = info\<rparr>))"

text \<open>
  The loop of \<open>vr_btable_attach\<close> over the caller's chunks: every chunk but the last has the
  size of the first.
\<close>

fun btable_attach_parts :: "u32 \<Rightarrow> u32 \<Rightarrow> iovec list \<Rightarrow> (vr_btable_partition list \<times> u32) option" where
  "btable_attach_parts limit offset [] = Some ([], 0)"
| "btable_attach_parts limit offset (v # vs) =
     (if iov_len v \<noteq> ucast limit \<and> vs \<noteq> [] then None
      else case btable_attach_parts limit (offset + ucast (iov_len v)) vs of
             None \<Rightarrow> None
           | Some (info, tot) \<Rightarrow>
               Some (\<lparr>vb_offset = offset, vb_mem_size = ucast (iov_len v)\<rparr> # info,
                     ucast (iov_len v) + tot))"

text \<open>The chunks the loop has stored in the table when it ends, a chunk of a wrong size included.\<close>

fun btable_attach_mem :: "u32 \<Rightarrow> iovec list \<Rightarrow> chunk list" where
  "btable_attach_mem limit [] = []"
| "btable_attach_mem limit (v # vs) =
     iov_base v # (if iov_len v \<noteq> ucast limit \<and> vs \<noteq> [] then [] else btable_attach_mem limit vs)"

text \<open>
  \<open>vr_btable_attach\<close>: the table, and the chunks that were given back to the page allocator. The
  error path frees the table before the flag is set that says that the memory belongs to the caller.
\<close>

definition vr_btable_attach :: "bool \<Rightarrow> iovec list \<Rightarrow> u16 \<Rightarrow> (vr_btable option \<times> chunk list) exec" where
  "vr_btable_attach zalloc_ok iov esize =
     (case iov of
        [] \<Rightarrow> Done (None, [])
      | v # _ \<Rightarrow>
          if esize = 0 then Fault
          else if iov_len v mod ucast esize \<noteq> 0 then Done (None, [])
          else if \<not> zalloc_ok then Done (None, [])
          else let table = \<lparr>vb_entries = 0, vb_esize = esize,
                           vb_partitions = of_nat (length iov), vb_flags = 0,
                           vb_alloc_limit = ucast (iov_len v), vb_alloc_limit_log = 0,
                           vb_alloc_limit_mask = 0, vb_mem = btable_attach_mem (ucast (iov_len v)) iov,
                           vb_table_info = []\<rparr>
               in case btable_attach_parts (ucast (iov_len v)) 0 iov of
                    None \<Rightarrow> Done (None, vr_btable_free (Some table))
                  | Some (info, total_size) \<Rightarrow>
                      if total_size mod ucast esize \<noteq> 0 then Done (None, vr_btable_free (Some table))
                      else Done (Some (vr_btable_fill_pow2_fields
                             (table\<lparr>vb_entries := total_size div ucast esize, vb_flags := VB_FLAG_MEMORY_ATTACHED,
                                vb_table_info := info\<rparr>)), []))"

definition vr_btable_entries :: "vr_btable \<Rightarrow> u32" where
  "vr_btable_entries table = vb_entries table"

definition vr_btable_size :: "vr_btable \<Rightarrow> u32" where
  "vr_btable_size table = vb_entries table * ucast (vb_esize table)"

definition vr_btable_get :: "vr_btable \<Rightarrow> u32 \<Rightarrow> addr option" where
  "vr_btable_get table entry =
     (if vb_entries table \<le> entry then None
      else let entry_cont = entry * ucast (vb_esize table);
               t_index = (if vb_alloc_limit_mask table \<noteq> 0
                          then drop_bit (unat (vb_alloc_limit_log table)) entry_cont
                          else entry_cont div vb_alloc_limit table);
               t_offset = (if vb_alloc_limit_mask table \<noteq> 0
                           then entry_cont AND vb_alloc_limit_mask table
                           else entry_cont mod vb_alloc_limit table)
           in if ucast (vb_partitions table) \<le> t_index then None
              else Some (vb_mem table ! unat t_index, unat t_offset))"

section \<open>Layout\<close>

abbreviation btable_limit :: "vr_btable \<Rightarrow> nat" where
  "btable_limit t \<equiv> unat (vb_alloc_limit t)"

abbreviation btable_bytes :: "vr_btable \<Rightarrow> nat" where
  "btable_bytes t \<equiv> unat (vb_entries t) * unat (vb_esize t)"

text \<open>
  The layout \<open>vr_btable_get\<close> relies on: partition \<open>i\<close> starts at byte \<open>i\<close> times the limit and
  ends at the next one or at the end of the table, an entry never crosses a partition, and
  the shift and the mask, when used, are those of the limit.
\<close>

definition btable_wf :: "vr_btable \<Rightarrow> bool" where
  [vr_inv]: "btable_wf t \<longleftrightarrow>
     0 < unat (vb_esize t) \<and> 0 < unat (vb_entries t) \<and> btable_bytes t < 2 ^ 32 \<and>
     (\<exists>P. unat (vb_partitions t) = Suc P \<and> P * btable_limit t < btable_bytes t \<and>
          btable_bytes t \<le> Suc P * btable_limit t \<and> (P \<noteq> 0 \<longrightarrow> unat (vb_esize t) dvd btable_limit t)) \<and>
     length (vb_mem t) = unat (vb_partitions t) \<and> length (vb_table_info t) = unat (vb_partitions t) \<and>
     (\<forall>i<unat (vb_partitions t).
        unat (vb_offset (vb_table_info t ! i)) = i * btable_limit t \<and>
        unat (vb_mem_size (vb_table_info t ! i)) = min (btable_limit t) (btable_bytes t - i * btable_limit t)) \<and>
     (vb_alloc_limit_mask t \<noteq> 0 \<longrightarrow>
        (\<exists>k<32. vb_alloc_limit t = shl1 k \<and> unat (vb_alloc_limit_log t) = k \<and>
                vb_alloc_limit_mask t = mask k))"

text \<open>The address of an entry, whichever of the two computations the table uses.\<close>

lemma btable_cont:
  assumes "btable_wf t" "entry < vb_entries t"
  shows "unat (entry * ucast (vb_esize t)) = unat entry * unat (vb_esize t)"
    "unat entry * unat (vb_esize t) + unat (vb_esize t) \<le> btable_bytes t"
proof -
  have "Suc (unat entry) \<le> unat (vb_entries t)"
    using assms(2) by (simp add: word_less_nat_alt)
  then have le: "Suc (unat entry) * unat (vb_esize t) \<le> btable_bytes t"
    by (intro mult_le_mono1)
  then show "unat entry * unat (vb_esize t) + unat (vb_esize t) \<le> btable_bytes t" by simp
  with assms(1) show "unat (entry * ucast (vb_esize t)) = unat entry * unat (vb_esize t)"
    by (subst unat_mult_u32) (auto simp: btable_wf_def)
qed

lemma btable_index_offset:
  assumes "btable_wf t"
  shows "unat (if vb_alloc_limit_mask t \<noteq> 0 then drop_bit (unat (vb_alloc_limit_log t)) x
               else x div vb_alloc_limit t) = unat x div btable_limit t"
    and "unat (if vb_alloc_limit_mask t \<noteq> 0 then x AND vb_alloc_limit_mask t
               else x mod vb_alloc_limit t) = unat x mod btable_limit t"
  using assms
  by (auto simp: btable_wf_def unat_drop_bit_u32 unat_and_mask_u32 unat_shl1 unat_div unat_mod)

lemma mod_dvd_le:
  fixes c e L :: nat
  assumes "e dvd c" "e dvd L" "0 < L"
  shows "c mod L + e \<le> L"
proof -
  from assms have "e dvd c mod L" by (simp add: dvd_mod)
  then obtain r where r: "c mod L = e * r" by (elim dvdE)
  from assms(2) obtain q where q: "L = e * q" by (elim dvdE)
  have "e * r < e * q" using r q assms(3) by (metis mod_less_divisor)
  then have "Suc r \<le> q" by simp
  then have "e * Suc r \<le> e * q" by (rule mult_le_mono2)
  then show ?thesis using r q by simp
qed

lemma vr_btable_get_eq:
  assumes wf: "btable_wf t" and lt: "entry < vb_entries t"
  defines "c \<equiv> unat entry * unat (vb_esize t)"
  shows "vr_btable_get t entry = Some (vb_mem t ! (c div btable_limit t), c mod btable_limit t)"
    and "c div btable_limit t < length (vb_mem t)"
    and "c mod btable_limit t + unat (vb_esize t) \<le> unat (vb_mem_size (vb_table_info t ! (c div btable_limit t)))"
proof -
  let ?L = "btable_limit t" and ?e = "unat (vb_esize t)"
  obtain P where P: "unat (vb_partitions t) = Suc P" "P * ?L < btable_bytes t"
    "btable_bytes t \<le> Suc P * ?L" "P \<noteq> 0 \<longrightarrow> ?e dvd ?L"
    using wf by (auto simp: btable_wf_def)
  note cont = btable_cont [OF wf lt, folded c_def]
  have e: "0 < ?e" and len: "length (vb_mem t) = Suc P"
    using wf P(1) by (auto simp: btable_wf_def)
  then have "c < Suc P * ?L" using cont(2) P(3) by linarith
  then have div: "c div ?L < Suc P" by (rule less_mult_imp_div_less)
  then show "c div ?L < length (vb_mem t)" by (simp add: len)
  have L: "0 < ?L" using P(2,3) by (cases "?L = 0") auto
  have "\<not> ucast (vb_partitions t) \<le> (if vb_alloc_limit_mask t \<noteq> 0
      then drop_bit (unat (vb_alloc_limit_log t)) (entry * ucast (vb_esize t))
      else entry * ucast (vb_esize t) div vb_alloc_limit t)"
    using div P(1) by (simp only: word_le_nat_alt btable_index_offset [OF wf] cont(1)) simp
  with lt show "vr_btable_get t entry = Some (vb_mem t ! (c div ?L), c mod ?L)"
    by (simp only: vr_btable_get_def Let_def btable_index_offset [OF wf] cont(1)) (simp add: not_le)
  have "c mod ?L + ?e \<le> ?L"
  proof (cases "P = 0")
    case True
    then have "c + ?e \<le> ?L" using cont(2) P(3) by simp
    with e show ?thesis by simp
  next
    case False
    with P(4) L show ?thesis by (intro mod_dvd_le) (auto simp: c_def)
  qed
  moreover have "c mod ?L + ?e \<le> btable_bytes t - c div ?L * ?L"
    using cont(2) div_mult_mod_eq [of c ?L] by linarith
  ultimately show "c mod ?L + ?e \<le> unat (vb_mem_size (vb_table_info t ! (c div ?L)))"
    using wf div P(1) by (auto simp: btable_wf_def)
qed

lemma vr_btable_get_None: "vb_entries t \<le> entry \<Longrightarrow> vr_btable_get t entry = None"
  by (simp add: vr_btable_get_def)

text \<open>Two entries of a table never share a byte.\<close>

lemma btable_disjoint_offsets:
  fixes a b e L :: nat
  assumes "a \<noteq> b" "a * e div L = b * e div L" "0 < e"
  shows "a * e mod L + e \<le> b * e mod L \<or> b * e mod L + e \<le> a * e mod L"
proof -
  have *: "x * e mod L + e \<le> y * e mod L" if "x < y" "x * e div L = y * e div L" for x y
  proof -
    have "Suc x * e \<le> y * e" using that(1) by (intro mult_le_mono1) simp
    then have "x * e + e \<le> y * e" by simp
    then have "(x * e div L * L + x * e mod L) + e \<le> y * e div L * L + y * e mod L"
      by (simp only: div_mult_mod_eq)
    then show ?thesis by (simp only: that(2) add.assoc add_le_cancel_left)
  qed
  from assms(1) consider "a < b" | "b < a" by linarith
  then show ?thesis by cases (use * assms(2) in auto)
qed

lemma vr_btable_get_disjoint:
  assumes wf: "btable_wf t" and d: "distinct (vb_mem t)" and ne: "x \<noteq> y"
    and x: "vr_btable_get t x = Some (c, ox)" and y: "vr_btable_get t y = Some (c, oy)"
  shows "ox + unat (vb_esize t) \<le> oy \<or> oy + unat (vb_esize t) \<le> ox"
proof -
  have lt: "x < vb_entries t" "y < vb_entries t"
    using x y vr_btable_get_None by (metis not_le option.distinct(1))+
  note gx = vr_btable_get_eq [OF wf lt(1)] and gy = vr_btable_get_eq [OF wf lt(2)]
  have "unat x * unat (vb_esize t) div btable_limit t = unat y * unat (vb_esize t) div btable_limit t"
    using gx(1,2) gy(1,2) x y d by (simp add: nth_eq_iff_index_eq)
  moreover have "unat x \<noteq> unat y" using ne by (simp add: word_unat_eq_iff)
  moreover have "0 < unat (vb_esize t)" using wf by (simp add: btable_wf_def)
  ultimately show ?thesis using btable_disjoint_offsets gx(1) gy(1) x y by simp
qed

text \<open>The search by byte offset finds the same address as the computation by entry number.\<close>

lemma btable_find_address_skip:
  assumes wf: "btable_wf t" and q: "q < unat (vb_partitions t)"
    and c: "q * btable_limit t \<le> unat off" "unat off < q * btable_limit t + btable_limit t"
    "unat off < btable_bytes t"
  shows "n = unat (vb_partitions t) - i \<Longrightarrow> i \<le> q \<Longrightarrow>
     btable_find_address t off n i = Some (vb_mem t ! q, unat off - q * btable_limit t)"
proof (induction n arbitrary: i)
  case 0
  with q show ?case by simp
next
  case (Suc n)
  let ?L = "btable_limit t" and ?p = "vb_table_info t ! i"
  have i: "i < unat (vb_partitions t)" "i < 65536"
    using Suc.prems(2) q unsigned_less [where 'b=16 and 'a=nat, of "vb_partitions t"] by auto
  have part: "vr_btable_get_partition t (of_nat i) = Some ?p"
    using i by (simp add: vr_btable_get_partition_def word_le_nat_alt)
  have p: "unat (vb_offset ?p) = i * ?L" "unat (vb_mem_size ?p) = min ?L (btable_bytes t - i * ?L)"
    and b: "btable_bytes t < 2 ^ 32"
    using wf i(1) by (auto simp: btable_wf_def)
  have iq: "i * ?L \<le> q * ?L" using Suc.prems(2) by (rule mult_le_mono1)
  then have end_lt: "unat (vb_offset ?p) + unat (vb_mem_size ?p) < 2 ^ 32"
    using p b c(1,3) by linarith
  then have stop: "unat (vb_offset ?p + vb_mem_size ?p) = i * ?L + min ?L (btable_bytes t - i * ?L)"
    using p by (simp add: unat_add_u32)
  show ?case
  proof (cases "i = q")
    case True
    have "vb_offset ?p \<le> off" using p(1) c(1) True by (simp add: word_le_nat_alt)
    moreover have "off < vb_offset ?p + vb_mem_size ?p"
      using stop c True by (simp add: word_less_nat_alt)
    ultimately show ?thesis
      using part True p(1) by (simp add: unat_sub)
  next
    case False
    then have "Suc i * ?L \<le> q * ?L" using Suc.prems(2) by (intro mult_le_mono1) simp
    then have "\<not> off < vb_offset ?p + vb_mem_size ?p"
      using stop c(1) by (simp add: word_less_nat_alt)
    moreover have "btable_find_address t off n (Suc i) = Some (vb_mem t ! q, unat off - q * ?L)"
      using Suc.prems False by (intro Suc.IH) auto
    ultimately show ?thesis using part by simp
  qed
qed

lemma vr_btable_get_address_eq:
  assumes wf: "btable_wf t" and lt: "entry < vb_entries t"
  shows "vr_btable_get_address t (entry * ucast (vb_esize t)) = vr_btable_get t entry"
proof -
  let ?L = "btable_limit t" and ?c = "unat entry * unat (vb_esize t)"
  note cont = btable_cont [OF wf lt] and g = vr_btable_get_eq [OF wf lt]
  have e: "0 < unat (vb_esize t)" "0 < ?L" "length (vb_mem t) = unat (vb_partitions t)"
    using wf by (auto simp: btable_wf_def intro: gr0I)
  have "?c div ?L * ?L \<le> ?c" "?c < ?c div ?L * ?L + ?L"
    using div_mult_mod_eq [of ?c ?L] mod_less_divisor [OF e(2), of ?c] by linarith+
  moreover have "?c < btable_bytes t" using cont(2) e(1) by linarith
  ultimately have "vr_btable_get_address t (entry * ucast (vb_esize t)) =
      Some (vb_mem t ! (?c div ?L), ?c - ?c div ?L * ?L)"
    using btable_find_address_skip [OF wf, of "?c div ?L" "entry * ucast (vb_esize t)" _ 0] g(2) e(3)
    by (simp add: vr_btable_get_address_def cont(1))
  then show ?thesis using g(1) by (simp add: minus_div_mult_eq_mod)
qed

section \<open>Tables of the allocator and of the caller have the layout\<close>

lemma btable_alloc_parts_nth:
  "btable_alloc_parts page i off szs = Some (mem, info) \<Longrightarrow>
     length mem = length szs \<and> length info = length szs \<and>
     (\<forall>j<length szs. page (i + j) = Some (mem ! j) \<and> vb_offset (info ! j) = off + sum_list (take j szs) \<and>
        vb_mem_size (info ! j) = szs ! j)"
proof (induction szs arbitrary: i off mem info)
  case (Cons sz szs)
  then obtain c mem' info' where
    *: "page i = Some c" "btable_alloc_parts page (Suc i) (off + sz) szs = Some (mem', info')"
      "mem = c # mem'" "info = \<lparr>vb_offset = off, vb_mem_size = sz\<rparr> # info'"
    by (auto split: option.splits)
  have "page (i + j) = Some (mem ! j) \<and> vb_offset (info ! j) = off + sum_list (take j (sz # szs)) \<and>
      vb_mem_size (info ! j) = (sz # szs) ! j" if "j < Suc (length szs)" for j
    using Cons.IH [OF *(2)] * that by (cases j) (auto simp: add.assoc)
  with Cons.IH [OF *(2)] * show ?case by simp
qed simp

lemma btable_log_bounds:
  "0 < n \<Longrightarrow> 2 ^ btable_log n \<le> n \<and> n < 2 ^ Suc (btable_log n)"
proof (induction n rule: btable_log.induct)
  case (1 n)
  show ?case
  proof (cases "n div 2 = 0")
    case True
    with 1(2) have "n = 1" by simp
    then show ?thesis by (simp add: btable_log.simps)
  next
    case False
    with 1(1) have "2 ^ btable_log (n div 2) \<le> n div 2 \<and> n div 2 < 2 ^ Suc (btable_log (n div 2))" by simp
    moreover have "btable_log n = Suc (btable_log (n div 2))" using False by (subst btable_log.simps) simp
    ultimately show ?thesis by auto
  qed
qed

lemma and_pred_eq_0_pow2:
  fixes n :: nat
  assumes "0 < n" "n AND (n - 1) = 0"
  shows "n = 2 ^ btable_log n"
proof (rule ccontr)
  let ?k = "btable_log n"
  assume ne: "n \<noteq> 2 ^ ?k"
  have b: "2 ^ ?k \<le> n" "n < 2 ^ Suc ?k" using btable_log_bounds [OF assms(1)] by auto
  have "bit m ?k" if "2 ^ ?k \<le> m" "m < 2 ^ Suc ?k" for m :: nat
  proof -
    have "m div 2 ^ ?k = 1" using that by (simp add: div_nat_eqI)
    then show ?thesis by (simp add: bit_iff_odd)
  qed
  from this [of n] this [of "n - 1"] have "bit (n AND (n - 1)) ?k"
    using b ne by (simp add: bit_and_iff)
  with assms(2) show False by simp
qed

lemma fill_pow2_fields_wf:
  assumes "vb_alloc_limit t \<noteq> 0" "vb_alloc_limit_log t = 0"
    "t' = vr_btable_fill_pow2_fields t" "vb_alloc_limit_mask t' \<noteq> 0"
  shows "\<exists>k<32. vb_alloc_limit t' = shl1 k \<and> unat (vb_alloc_limit_log t') = k \<and>
     vb_alloc_limit_mask t' = mask k"
proof -
  let ?n = "btable_limit t" and ?k = "btable_log (btable_limit t)"
  have c: "vb_alloc_limit t AND (vb_alloc_limit t - 1) = 0"
    using assms(3,4) by (auto simp: vr_btable_fill_pow2_fields_def split: if_splits)
  have n0: "0 < ?n" using assms(1) by (simp add: unat_gt_0)
  have "unat (vb_alloc_limit t - 1) = ?n - 1" using assms(1) by (rule unat_minus_one)
  then have "?n AND (?n - 1) = 0" using c by (metis unsigned_and_eq unsigned_0)
  from and_pred_eq_0_pow2 [OF n0 this] have n: "?n = 2 ^ ?k" .
  have "(2::nat) ^ ?k < 2 ^ 32" using n unsigned_less [where 'b=32 and 'a=nat, of "vb_alloc_limit t"] by simp
  then have k: "?k < 32" by (simp only: power_strict_increasing_iff)
  have lim: "vb_alloc_limit t = shl1 ?k" using n k by (simp add: word_unat_eq_iff unat_shl1)
  have "unat (of_nat ?k :: u16) = ?k" using k by (simp add: unat_of_nat take_bit_eq_mod)
  moreover have "vb_alloc_limit t - 1 = mask ?k" using shl1_minus_1 [OF k] lim by simp
  ultimately show ?thesis using k lim c assms(2,3)
    by (intro exI [of _ ?k]) (simp add: vr_btable_fill_pow2_fields_def)
qed

lemma fill_pow2_fields_frame [simp]:
  "vb_entries (vr_btable_fill_pow2_fields t) = vb_entries t"
  "vb_esize (vr_btable_fill_pow2_fields t) = vb_esize t"
  "vb_partitions (vr_btable_fill_pow2_fields t) = vb_partitions t"
  "vb_flags (vr_btable_fill_pow2_fields t) = vb_flags t"
  "vb_alloc_limit (vr_btable_fill_pow2_fields t) = vb_alloc_limit t"
  "vb_mem (vr_btable_fill_pow2_fields t) = vb_mem t"
  "vb_table_info (vr_btable_fill_pow2_fields t) = vb_table_info t"
  by (simp_all add: vr_btable_fill_pow2_fields_def)

lemma unat_alloc_limit: "unat VR_SINGLE_ALLOC_LIMIT = 4194304"
  by (simp add: VR_SINGLE_ALLOC_LIMIT_def)

lemma unat_sum_replicate_u32:
  "j * unat (L :: u32) < 2 ^ 32 \<Longrightarrow> unat (sum_list (replicate j L)) = j * unat L"
  by (induction j) (auto simp: unat_add_u32)

text \<open>A table whose chunks all have the size of the first, the last one possibly less.\<close>

lemma btable_layout_wf:
  assumes t: "t = vr_btable_fill_pow2_fields t0" "vb_alloc_limit_log t0 = 0"
    and n: "length szs = Suc P" "Suc P < 65536" "vb_partitions t0 = of_nat (Suc P)"
    and first: "\<And>j. j < P \<Longrightarrow> szs ! j = vb_alloc_limit t0"
    and last: "0 < unat (szs ! P)" "unat (szs ! P) \<le> btable_limit t0"
    and bytes: "btable_bytes t0 = P * btable_limit t0 + unat (szs ! P)" "btable_bytes t0 < 2 ^ 32"
    and dvd: "P \<noteq> 0 \<longrightarrow> unat (vb_esize t0) dvd btable_limit t0"
    and mem: "length (vb_mem t0) = Suc P" "length (vb_table_info t0) = Suc P"
    and info: "\<And>j. j < Suc P \<Longrightarrow> vb_offset (vb_table_info t0 ! j) = sum_list (take j szs) \<and>
                  vb_mem_size (vb_table_info t0 ! j) = szs ! j"
  shows "btable_wf t"
proof -
  let ?L = "btable_limit t0"
  have le: "j * ?L + ?L \<le> P * ?L" if "j < P" for j
    using that mult_le_mono1 [of "Suc j" P ?L] by simp
  have parts: "unat (vb_partitions t0) = Suc P"
    unfolding n(3) using n(2) by (simp add: unat_of_nat take_bit_eq_mod del: of_nat_Suc)
  have off: "unat (vb_offset (vb_table_info t0 ! j)) = j * ?L" if j: "j < Suc P" for j
  proof -
    have "take j szs = replicate j (vb_alloc_limit t0)"
      using first j n(1) by (intro nth_equalityI) auto
    moreover have "j * ?L < 2 ^ 32" using le [of j] bytes j by (cases "j = P") auto
    ultimately show ?thesis using info [OF j] unat_sum_replicate_u32 by simp
  qed
  have size: "unat (vb_mem_size (vb_table_info t0 ! j)) = min ?L (btable_bytes t0 - j * ?L)"
    if j: "j < Suc P" for j
  proof (cases "j = P")
    case True
    then show ?thesis using info [OF j] last bytes(1) by simp
  next
    case False
    then have "j < P" using j by simp
    then show ?thesis using info [OF j] first [of j] le [of j] bytes(1) by simp
  qed
  have "vb_alloc_limit t0 \<noteq> 0" using last by auto
  note pow2 = fill_pow2_fields_wf [OF this t(2,1)]
  have "btable_bytes t0 \<noteq> 0" using bytes(1) last(1) by simp
  then have "0 < unat (vb_esize t0)" "0 < unat (vb_entries t0)" by (auto intro: gr0I)
  then show ?thesis
    unfolding btable_wf_def using pow2 parts off size mem dvd bytes last by (simp add: t(1))
qed

lemma vr_btable_alloc_wf:
  assumes a: "vr_btable_alloc z page n es = Some t"
    and tot: "unat n * unat es < 2 ^ 32" and es: "unat es < 65536"
  shows "btable_wf t"
proof -
  let ?L = "unat VR_SINGLE_ALLOC_LIMIT" and ?B = "unat n * unat es"
  define r where "r = n * es mod VR_SINGLE_ALLOC_LIMIT"
  define szs where "szs = replicate (?B div ?L) VR_SINGLE_ALLOC_LIMIT @ (if r = 0 then [] else [r])"
  have B: "unat (n * es) = ?B" using tot by (rule unat_mult_u32)
  have r: "unat r = ?B mod ?L" by (simp add: r_def unat_mod B)
  from a obtain mem info where
    guard: "\<not> (?B div ?L \<noteq> 0 \<and> VR_SINGLE_ALLOC_LIMIT mod es \<noteq> 0)" "szs \<noteq> []"
    and parts: "btable_alloc_parts page 0 0 szs = Some (mem, info)"
    and t: "t = vr_btable_fill_pow2_fields
          \<lparr>vb_entries = n, vb_esize = ucast es, vb_partitions = of_nat (length szs), vb_flags = 0,
           vb_alloc_limit = VR_SINGLE_ALLOC_LIMIT, vb_alloc_limit_log = 0,
           vb_alloc_limit_mask = 0, vb_mem = mem, vb_table_info = info\<rparr>"
    unfolding vr_btable_alloc_def Let_def B r_def [symmetric] szs_def [symmetric]
    by (auto split: if_splits option.splits)
  note nth = btable_alloc_parts_nth [OF parts]
  have B_eq: "?B = ?B div ?L * ?L + ?B mod ?L" by simp
  have L: "?L = 4194304" by (rule unat_alloc_limit)
  have r0: "r = 0 \<longleftrightarrow> ?B mod ?L = 0" by (simp add: word_unat_eq_iff r)
  obtain P where P: "length szs = Suc P" using guard(2) by (cases szs) auto
  have len: "Suc P = ?B div ?L + (if r = 0 then 0 else 1)"
    using P by (auto simp: szs_def split: if_splits)
  have P_le: "P \<le> ?B div ?L" using len by (simp split: if_splits)
  have "?B div ?L < 1024" using tot L by (simp add: div_less_iff_less_mult)
  then have P_lt: "Suc P < 65536" using P_le by simp
  have first: "szs ! j = VR_SINGLE_ALLOC_LIMIT" if "j < P" for j
    using that P_le by (simp add: szs_def nth_append)
  have lst: "0 < unat (szs ! P) \<and> unat (szs ! P) \<le> ?L \<and> ?B = P * ?L + unat (szs ! P)"
  proof (cases "r = 0")
    case True
    then have "szs ! P = VR_SINGLE_ALLOC_LIMIT" using len by (simp add: szs_def)
    moreover have "?B = Suc P * ?L" using True len B_eq r0 by simp
    ultimately show ?thesis using L by simp
  next
    case False
    then have "szs ! P = r" "P = ?B div ?L" using len by (auto simp: szs_def nth_append)
    then show ?thesis using False r0 r B_eq L by simp
  qed
  have esz: "unat (ucast es :: u16) = unat es"
    using es by (simp add: unsigned_ucast_eq take_bit_nat_eq_self)
  have dvd: "P \<noteq> 0 \<longrightarrow> unat es dvd ?L"
  proof
    assume "P \<noteq> 0"
    then have "?B div ?L \<noteq> 0" using P_le by simp
    then have "unat (VR_SINGLE_ALLOC_LIMIT mod es) = 0" using guard(1) by simp
    then show "unat es dvd ?L" by (simp add: unat_mod dvd_eq_mod_eq_0)
  qed
  show ?thesis
    using P P_lt first lst tot dvd nth
    by (intro btable_layout_wf [OF t]) (auto simp: esz)
qed

lemma vr_btable_alloc_fields:
  assumes "vr_btable_alloc z page n es = Some t" "unat es < 65536"
  shows "vb_entries t = n \<and> unat (vb_esize t) = unat es \<and> vb_esize t = ucast es \<and>
     vb_alloc_limit t = VR_SINGLE_ALLOC_LIMIT"
  using assms
  by (auto simp: vr_btable_alloc_def Let_def unsigned_ucast_eq take_bit_nat_eq_self
      split: if_splits option.splits)

lemma vr_btable_alloc_distinct:
  assumes "vr_btable_alloc z page n es = Some t"
    and "\<And>i j. page i = page j \<Longrightarrow> page i \<noteq> None \<Longrightarrow> i = j"
  shows "distinct (vb_mem t)"
proof -
  from assms(1) obtain szs mem info where
    "btable_alloc_parts page 0 0 szs = Some (mem, info)" and t: "vb_mem t = mem"
    unfolding vr_btable_alloc_def Let_def
    by (auto split: if_splits option.splits simp del: btable_alloc_parts.simps)
  from btable_alloc_parts_nth [OF this(1)] have
    "i = j" if "i < length mem" "j < length mem" "mem ! i = mem ! j" for i j
    using that assms(2) [of i j] by simp
  then show ?thesis by (auto simp: t distinct_conv_nth)
qed

lemma vr_btable_get_fits:
  assumes wf: "btable_wf t" and x: "x < vb_entries t" and g: "vr_btable_get t x = Some (c, ox)"
  shows "ox + unat (vb_esize t) \<le> btable_limit t"
proof -
  let ?q = "unat x * unat (vb_esize t) div btable_limit t"
  note e = vr_btable_get_eq [OF wf x]
  have "unat (vb_mem_size (vb_table_info t ! ?q)) \<le> btable_limit t"
    using wf e(2) by (auto simp: btable_wf_def)
  then show ?thesis using e(1,3) g by simp
qed

lemma btable_attach_parts_nth:
  "btable_attach_parts L off vs = Some (info, tot) \<Longrightarrow>
     length info = length vs \<and> tot = sum_list (map (\<lambda>v. ucast (iov_len v)) vs) \<and>
     (\<forall>j. Suc j < length vs \<longrightarrow> iov_len (vs ! j) = ucast L) \<and>
     (\<forall>j<length vs. vb_offset (info ! j) = off + sum_list (take j (map (\<lambda>v. ucast (iov_len v)) vs)) \<and>
        vb_mem_size (info ! j) = ucast (iov_len (vs ! j)))"
proof (induction vs arbitrary: off info tot)
  case (Cons v vs)
  then obtain info' tot' where
    *: "iov_len v = ucast L \<or> vs = []" "btable_attach_parts L (off + ucast (iov_len v)) vs = Some (info', tot')"
      "info = \<lparr>vb_offset = off, vb_mem_size = ucast (iov_len v)\<rparr> # info'" "tot = ucast (iov_len v) + tot'"
    by (auto split: option.splits if_splits)
  have "vb_offset (info ! j) = off + sum_list (take j (map (\<lambda>v. ucast (iov_len v)) (v # vs))) \<and>
        vb_mem_size (info ! j) = ucast (iov_len ((v # vs) ! j))" if "j < Suc (length vs)" for j
    using Cons.IH [OF *(2)] * that by (cases j) (auto simp: add.assoc)
  moreover have "iov_len ((v # vs) ! j) = ucast L" if "Suc j < Suc (length vs)" for j
    using Cons.IH [OF *(2)] * that by (cases j) auto
  ultimately show ?case using Cons.IH [OF *(2)] * by simp
qed simp

lemma btable_attach_mem_all: "btable_attach_parts L off vs = Some r \<Longrightarrow> btable_attach_mem L vs = map iov_base vs"
  by (induction vs arbitrary: off r) (auto split: option.splits if_splits)

lemma vr_btable_attach_wf:
  assumes a: "vr_btable_attach z iov es = Done (Some t, freed)"
    and len: "length iov < 65536"
    and pos: "0 < iov_len (last iov)" and le: "iov_len (last iov) \<le> iov_len (hd iov)"
    and tot: "(length iov - 1) * unat (iov_len (hd iov)) + unat (iov_len (last iov)) < 2 ^ 32"
  shows "btable_wf t"
proof -
  define szs :: "u32 list" where "szs = map (\<lambda>v. ucast (iov_len v)) iov"
  define L :: u32 where "L = ucast (iov_len (hd iov))"
  from a obtain P where P: "length iov = Suc P" and es0: "es \<noteq> 0"
    and dv: "iov_len (hd iov) mod ucast es = 0"
    by (cases iov) (auto simp: vr_btable_attach_def split: if_splits)
  obtain v vs where v: "iov = v # vs" using P by (cases iov) auto
  have Lv: "ucast (iov_len v) = L" by (simp add: L_def v)
  have run: "vr_btable_attach z iov es = Done (Some t, freed) \<longleftrightarrow> z \<and> (\<exists>info tot. btable_attach_parts L 0 iov = Some (info, tot) \<and>
      tot mod ucast es = 0 \<and> freed = [] \<and> t = vr_btable_fill_pow2_fields
              \<lparr>vb_entries = tot div ucast es, vb_esize = es,
               vb_partitions = of_nat (Suc P), vb_flags = VB_FLAG_MEMORY_ATTACHED,
               vb_alloc_limit = L, vb_alloc_limit_log = 0,
               vb_alloc_limit_mask = 0, vb_mem = btable_attach_mem L iov, vb_table_info = info\<rparr>)"
    using es0 dv unfolding vr_btable_attach_def P Let_def
    by (simp only: v list.case Lv) (auto simp: v Lv split: option.splits simp del: btable_attach_parts.simps btable_attach_mem.simps of_nat_Suc)
  from a [unfolded run] obtain info tot where *: "btable_attach_parts L 0 iov = Some (info, tot)" "tot mod ucast es = 0"
    "t = vr_btable_fill_pow2_fields
              \<lparr>vb_entries = tot div ucast es, vb_esize = es,
               vb_partitions = of_nat (Suc P), vb_flags = VB_FLAG_MEMORY_ATTACHED,
               vb_alloc_limit = L, vb_alloc_limit_log = 0,
               vb_alloc_limit_mask = 0, vb_mem = btable_attach_mem L iov, vb_table_info = info\<rparr>" by (elim conjE exE)
  have tot_eq: "tot = sum_list szs" using btable_attach_parts_nth [OF *(1)] by (simp add: szs_def)
  note parts = *(1) [unfolded tot_eq] and dvt = *(2) [unfolded tot_eq]
    and t = *(3) [unfolded tot_eq btable_attach_mem_all [OF *(1)]]
  note nth = btable_attach_parts_nth [OF parts]
  have iov: "iov \<noteq> []" "last iov = iov ! P" using P by (auto simp: last_conv_nth list_eq_iff_nth_eq [of iov "[]"])
  have small: "unat (iov_len (hd iov)) < 2 ^ 32"
    using tot pos le P by (cases P) (auto simp: word_less_nat_alt word_le_nat_alt hd_conv_nth last_conv_nth iov)
  have uc: "unat (ucast w :: u32) = unat w" if "w \<le> iov_len (hd iov)" for w :: u64
    using that small by (simp add: unsigned_ucast_eq take_bit_nat_eq_self word_le_nat_alt)
  have uL: "unat L = unat (iov_len (hd iov))" by (simp add: L_def uc)
  have first: "szs ! j = L" if "j < P" for j
  proof -
    have "szs ! j = ucast (ucast L :: u64)" using nth that P by (simp add: szs_def)
    then show ?thesis by (simp add: word_unat_eq_iff unsigned_ucast_eq take_bit_word_eq_self)
  qed
  have lst: "unat (szs ! P) = unat (iov_len (last iov))"
    using P iov uc [OF le] by (simp add: szs_def)
  have szs: "szs = replicate P L @ [szs ! P]"
    using first P by (intro nth_equalityI) (auto simp: szs_def nth_append less_Suc_eq)
  have bound: "P * unat L + unat (szs ! P) < 2 ^ 32" using tot P uL lst by simp
  have "unat (sum_list szs) = unat (sum_list (replicate P L) + szs ! P)"
    by (subst szs) simp
  also have "\<dots> = P * unat L + unat (szs ! P)"
    using bound by (subst unat_add_u32) (simp_all add: unat_sum_replicate_u32)
  finally have sum: "unat (sum_list szs) = P * unat L + unat (szs ! P)" .
  have "unat (sum_list szs) mod unat es = 0" "unat L mod unat es = 0"
    using arg_cong [OF dvt, of unat] arg_cong [OF dv, of unat]
    by (simp_all add: unat_mod uL unat_ucast_u16_u64)
  then have bytes: "unat (sum_list szs div ucast es) * unat es = unat (sum_list szs)" "unat es dvd unat L"
    by (auto simp: unat_div dvd_div_mult_self dvd_eq_mod_eq_0)
  show ?thesis
    using P len first lst pos le uL bytes sum bound nth
    by (intro btable_layout_wf [OF t, of szs P]) (auto simp: szs_def word_less_nat_alt word_le_nat_alt)
qed

text \<open>A caller whose chunks do not fit loses them: those seen so far go to the page allocator.\<close>

lemma vr_btable_attach_frees:
  "vr_btable_attach True [\<lparr>iov_base = 7, iov_len = 64\<rparr>, \<lparr>iov_base = 8, iov_len = 32\<rparr>, \<lparr>iov_base = 9, iov_len = 64\<rparr>] 32 =
   Done (None, [7, 8])"
  by (simp add: vr_btable_attach_def Let_def vr_btable_free_def)

text \<open>
  The byte count of \<open>vr_btable_alloc\<close> is a 32-bit product: a table of more than 4 GB is
  allocated short.
\<close>

lemma vr_btable_alloc_overflow:
  "vr_btable_alloc True (\<lambda>i. Some i) 131073 32768 =
     Some \<lparr>vb_entries = 131073, vb_esize = 32768, vb_partitions = 1, vb_flags = 0,
           vb_alloc_limit = 4194304, vb_alloc_limit_log = 22, vb_alloc_limit_mask = 4194303,
           vb_mem = [0], vb_table_info = [\<lparr>vb_offset = 0, vb_mem_size = 32768\<rparr>]\<rparr>"
  by (simp add: vr_btable_alloc_def VR_SINGLE_ALLOC_LIMIT_def vr_btable_fill_pow2_fields_def btable_log.simps)

section \<open>Properties\<close>

text \<open>
  C30: in a table that \<open>vr_btable_alloc\<close> returned, every entry number below the number of
  entries has an address, the entry ends within the size that was allocated for its chunk (the
  last chunk has only the rest; none is larger than 4 MB), and two different entries share no byte,
  provided the byte count fits in 32 bits, the entry size in 16 bits, and the page allocator never
  returns the same memory twice.
\<close>

theorem vr_btable_alloc_entries:
  assumes "vr_btable_alloc z page n es = Some t"
    and "unat n * unat es < 2 ^ 32" "unat es < 65536"
    and "\<And>i j. page i = page j \<Longrightarrow> page i \<noteq> None \<Longrightarrow> i = j"
    and "x < n" "y < n" "x \<noteq> y"
  shows "\<exists>c d ox oy p. vr_btable_get t x = Some (c, ox) \<and> vr_btable_get t y = Some (d, oy) \<and>
     p < length (vb_mem t) \<and> c = vb_mem t ! p \<and> ox + unat es \<le> unat (vb_mem_size (vb_table_info t ! p)) \<and>
     ox + unat es \<le> unat VR_SINGLE_ALLOC_LIMIT \<and>
     (c \<noteq> d \<or> ox + unat es \<le> oy \<or> oy + unat es \<le> ox)"
proof -
  note wf = vr_btable_alloc_wf [OF assms(1-3)] and f = vr_btable_alloc_fields [OF assms(1,3)]
  have d: "distinct (vb_mem t)" using vr_btable_alloc_distinct [OF assms(1,4)] .
  have x: "x < vb_entries t" and y: "y < vb_entries t" using assms(5,6) f by simp_all
  obtain c ox d oy where g: "vr_btable_get t x = Some (c, ox)" "vr_btable_get t y = Some (d, oy)"
    using vr_btable_get_eq(1) [OF wf x] vr_btable_get_eq(1) [OF wf y] by blast
  have "\<exists>p<length (vb_mem t). c = vb_mem t ! p \<and> ox + unat (vb_esize t) \<le> unat (vb_mem_size (vb_table_info t ! p))"
    using vr_btable_get_eq [OF wf x] g(1) by auto
  moreover have "ox + unat es \<le> unat VR_SINGLE_ALLOC_LIMIT"
    using vr_btable_get_fits [OF wf x g(1)] f by metis
  moreover have "c \<noteq> d \<or> ox + unat es \<le> oy \<or> oy + unat es \<le> ox"
    using vr_btable_get_disjoint [OF wf d assms(7)] x y g f by auto
  moreover have "unat (vb_esize t) = unat es" using f by metis
  ultimately show ?thesis using g by metis
qed

lemma vr_btable_alloc_ex: "vr_btable_alloc True Some 300000 32 \<noteq> None"
proof -
  have "replicate 2 x = [x, x]" for x :: u32 by (simp add: numeral_2_eq_2)
  then show ?thesis by (simp add: vr_btable_alloc_def VR_SINGLE_ALLOC_LIMIT_def)
qed

lemma vr_btable_alloc_entries_witness:
  "\<exists>t c d ox oy p. vr_btable_alloc True Some 300000 32 = Some t \<and>
     vr_btable_get t 131071 = Some (c, ox) \<and> vr_btable_get t 131072 = Some (d, oy) \<and>
     c = vb_mem t ! p \<and> ox + 32 \<le> unat (vb_mem_size (vb_table_info t ! p)) \<and> (c \<noteq> d \<or> ox + 32 \<le> oy \<or> oy + 32 \<le> ox)"
proof -
  obtain t where t: "vr_btable_alloc True Some 300000 32 = Some t"
    using vr_btable_alloc_ex by blast
  from vr_btable_alloc_entries [OF t, of 131071 131072] show ?thesis using t by auto
qed

text \<open>
  C31: looking an entry up by its byte offset (\<open>vr_btable_get_address\<close>, which searches the
  partitions) gives the address \<open>vr_btable_get\<close> computes with shifts and masks or with
  divisions, for every entry of a table with the layout of the allocator.
\<close>

theorem vr_btable_get_address_get:
  assumes "btable_wf t" "entry < vb_entries t"
  shows "vr_btable_get_address t (entry * ucast (vb_esize t)) = vr_btable_get t entry"
  using vr_btable_get_address_eq [OF assms] .

lemma vr_btable_get_address_get_witness:
  "\<exists>t. vr_btable_alloc True Some 300000 32 = Some t \<and>
     vr_btable_get_address t (131072 * 32) = vr_btable_get t 131072"
proof -
  obtain t where t: "vr_btable_alloc True Some 300000 32 = Some t"
    using vr_btable_alloc_ex by blast
  have wf: "btable_wf t" using vr_btable_alloc_wf [OF t] by simp
  have f: "vb_entries t = 300000" "vb_esize t = 32" using vr_btable_alloc_fields [OF t] by auto
  show ?thesis using vr_btable_get_address_get [OF wf, of 131072] t f by simp
qed

end
