(* ===== verification/VR_Nexthop.thy ===== *)
theory VR_Nexthop
  imports VR_Btable
begin

text \<open>
  The nexthop table of \<^verbatim>\<open>dp-core/vr_nexthop.c\<close>: nexthops are heap objects with a reference
  count. They are referenced from the table (a big table of pointers indexed by nexthop id),
  from other nexthops (the components of a composite nexthop, the direct nexthop of an
  indirect one), and from the route, label and bridge tables. A pointer is an index into the heap; 0 is NULL.
  Released memory keeps its contents in the model; \<open>nh_freed\<close> lists what was released and
  \<open>nh_defer\<close> what is scheduled to be.
\<close>

section \<open>Data\<close>

type_synonym nh_ptr = nat
type_synonym vif_ptr = nat

datatype nexthop_type = NH_DEAD | NH_RCV | NH_ENCAP | NH_TUNNEL | NH_RESOLVE | NH_DISCARD
  | NH_COMPOSITE | NH_VRF_TRANSLATE | NH_L2_RCV

definition NH_DISCARD_ID :: u32 where "NH_DISCARD_ID = 0"
definition NH_FLAG_VALID :: u32 where "NH_FLAG_VALID = 0x1"
definition NH_FLAG_TUNNEL_GRE :: u32 where "NH_FLAG_TUNNEL_GRE = 0x8"
definition NH_FLAG_TUNNEL_UDP :: u32 where "NH_FLAG_TUNNEL_UDP = 0x10"
definition NH_FLAG_MCAST :: u32 where "NH_FLAG_MCAST = 0x20"
definition NH_FLAG_TUNNEL_UDP_MPLS :: u32 where "NH_FLAG_TUNNEL_UDP_MPLS = 0x40"
definition NH_FLAG_TUNNEL_VXLAN :: u32 where "NH_FLAG_TUNNEL_VXLAN = 0x80"
definition NH_FLAG_COMPOSITE_FABRIC :: u32 where "NH_FLAG_COMPOSITE_FABRIC = 0x200"
definition NH_FLAG_COMPOSITE_ECMP :: u32 where "NH_FLAG_COMPOSITE_ECMP = 0x400"
definition NH_FLAG_COMPOSITE_EVPN :: u32 where "NH_FLAG_COMPOSITE_EVPN = 0x1000"
definition NH_FLAG_COMPOSITE_ENCAP :: u32 where "NH_FLAG_COMPOSITE_ENCAP = 0x2000"
definition NH_FLAG_COMPOSITE_TOR :: u32 where "NH_FLAG_COMPOSITE_TOR = 0x4000"
definition NH_FLAG_TUNNEL_PBB :: u32 where "NH_FLAG_TUNNEL_PBB = 0x80000"
definition NH_FLAG_INDIRECT :: u32 where "NH_FLAG_INDIRECT = 0x400000"
definition NH_FLAG_L3_VXLAN :: u32 where "NH_FLAG_L3_VXLAN = 0x02000000"
definition NH_FLAG_TUNNEL_MPLS_O_MPLS :: u32 where "NH_FLAG_TUNNEL_MPLS_O_MPLS = 0x04000000"
definition NH_FLAG_TUNNEL_UNDERLAY_ECMP :: u32 where "NH_FLAG_TUNNEL_UNDERLAY_ECMP = 0x10000000"
definition VR_MAX_PHY_INF :: nat where "VR_MAX_PHY_INF = 3"

record vr_component_nh =
  cnh_label :: int
  cnh_ecmp_index :: int
  cnh :: nh_ptr

text \<open>The functions \<open>nh_reach_nh\<close> and \<open>nh_validate_src\<close> may point to.\<close>

datatype reach_nh = RNull | Rdiscard | Rresolve | Rl2_rcv | Rl3_rcv | Rvrf_translate
  | Rcomposite_mcast | Rcomposite_ecmp | Rcomposite_fabric | Rcomposite_evpn | Rcomposite_encap
  | Rcomposite_tor | Rgre_tunnel | Rudp_tunnel | Rmpls_udp_tunnel | Rvxlan_tunnel | Rpbb_tunnel
  | Rencap_l2 | Rencap_l3 | Rencap_l3_mcast

datatype validate_src = VNull | Vcomposite_mcast | Vcomposite_ecmp | Vencap | Vgre_tunnel
  | Vmpls_udp_tunnel | Vvxlan_tunnel | Vpbb_tunnel

text \<open>
  The members of the union \<open>nh_u\<close> are fields of the record; \<open>nh_layout\<close> tells which member was
  written, and an access through another member is a fault.
\<close>

datatype nh_layout = LNone | LEncap | LGre | LUdp | LUdp6 | LVxlan | LPbb | LComposite

record vr_nexthop =
  nh_type :: nexthop_type
  nh_family :: family
  nh_data_size :: u16
  nh_flags :: u32
  nh_vrf :: int
  nh_id :: u32
  nh_rid :: u32
  nh_users :: u32
  nh_encap_family :: u16
  nh_encap_len :: u16
  nh_component_nh :: "vr_component_nh list"
  nh_component_ecmp :: "vr_component_nh list"
  nh_component_ecmp_cnt :: u16
  nh_ecmp_config_hash :: u16
  nh_direct_nh :: nh_ptr
  nh_validate_src :: validate_src
  nh_reach_nh :: reach_nh
  nh_dev_arr :: "vif_ptr list"
  nh_crypt_dev :: vif_ptr
  nh_encap_valid :: "u8 list"
  nh_valid_underlay_dev :: "vif_ptr list"
  nh_valid_underlay_dev_count :: nat
  nh_layout :: nh_layout
  nh_tun_sip :: u32
  nh_tun_dip :: u32
  nh_tun_sport :: u16
  nh_tun_dport :: u16
  nh_tun_encap_len :: u16
  nh_tun_label :: u32
  nh_tun_l3_mac :: "u8 list"
  nh_tun_sip6 :: "u8 list"
  nh_tun_dip6 :: "u8 list"
  nh_pbb_label :: int
  nh_pbb_mac :: "u8 list"
  nh_data :: "u8 list"

record nh_state =
  vr_max_nexthops :: u32
  vr_nexthops :: "vr_btable option"
  nh_cells :: "addr \<Rightarrow> nh_ptr"
  nh_heap :: "vr_nexthop list"
  nh_defer :: "nh_ptr list"
  nh_freed :: "nh_ptr list"
  nh_fault :: bool
  vr_not_ready :: bool
  vr_sched :: alloc_sched
  vr_interfaces :: "vif_ptr list"
  vif_users :: "vif_ptr \<Rightarrow> u32"
  vif_freed :: "vif_ptr list"
  ip4_default_nh :: nh_ptr

definition nh_upd :: "nh_ptr \<Rightarrow> (vr_nexthop \<Rightarrow> vr_nexthop) \<Rightarrow> nh_state \<Rightarrow> nh_state" where
  "nh_upd p f s = s\<lparr>nh_heap := (nh_heap s)[p := f (nh_heap s ! p)]\<rparr>"

text \<open>The outcome of the next allocation.\<close>

definition next_alloc :: "nh_state \<Rightarrow> bool \<times> nh_state" where
  "next_alloc s = (vr_sched s 0, s\<lparr>vr_sched := \<lambda>n. vr_sched s (Suc n)\<rparr>)"

section \<open>Interfaces\<close>

text \<open>\<open>vrouter_get_interface\<close> and \<open>vrouter_put_interface\<close> of \<^verbatim>\<open>dp-core/vr_interface.c\<close>.\<close>

definition vrouter_get_interface :: "u32 \<Rightarrow> nh_state \<Rightarrow> vif_ptr \<times> nh_state" where
  "vrouter_get_interface idx s =
     (if length (vr_interfaces s) \<le> unat idx then (0, s)
      else let vif = vr_interfaces s ! unat idx
           in if vif = 0 then (0, s)
              else (vif, s\<lparr>vif_users := (vif_users s)(vif := vif_users s vif + 1)\<rparr>))"

definition vrouter_put_interface :: "vif_ptr \<Rightarrow> nh_state \<Rightarrow> nh_state" where
  "vrouter_put_interface vif s =
     (let n = vif_users s vif - 1;
          s' = s\<lparr>vif_users := (vif_users s)(vif := n)\<rparr>
      in if n = 0 then s'\<lparr>vif_freed := vif_freed s' @ [vif]\<rparr> else s')"

primrec put_interfaces :: "vif_ptr list \<Rightarrow> nh_state \<Rightarrow> nh_state" where
  "put_interfaces [] s = s"
| "put_interfaces (d # ds) s = put_interfaces ds (if d = 0 then s else vrouter_put_interface d s)"

section \<open>The table and the reference counts\<close>

definition nh_slot :: "nh_state \<Rightarrow> u32 \<Rightarrow> addr option" where
  "nh_slot s index = (case vr_nexthops s of None \<Rightarrow> None | Some t \<Rightarrow> vr_btable_get t index)"

text \<open>
  \<open>__vrouter_get_nexthop\<close>: the address \<open>vr_btable_get\<close> returns is dereferenced without a check.
\<close>

definition get_nexthop_raw :: "u32 \<Rightarrow> nh_state \<Rightarrow> nh_ptr \<times> nh_state" where
  "get_nexthop_raw index s =
     (if vr_max_nexthops s \<le> index then (0, s)
      else case nh_slot s index of
             None \<Rightarrow> (0, s\<lparr>nh_fault := True\<rparr>)
           | Some a \<Rightarrow> (nh_cells s a, s))"

definition vrouter_get_nexthop :: "u32 \<Rightarrow> nh_state \<Rightarrow> nh_ptr \<times> nh_state" where
  "vrouter_get_nexthop index s =
     (case get_nexthop_raw index s of (nh, s) \<Rightarrow>
        if nh = 0 then (nh, s)
        else (nh, nh_upd nh (nh_users_update (\<lambda>u. u + 1)) s))"

definition set_nexthop_raw :: "u32 \<Rightarrow> nh_ptr \<Rightarrow> nh_state \<Rightarrow> vr_ret \<times> nh_state" where
  "set_nexthop_raw index nh s =
     (case nh_slot s index of
        None \<Rightarrow> (RetErr EINVAL, s)
      | Some a \<Rightarrow> (RetOk, s\<lparr>nh_cells := (nh_cells s)(a := nh)\<rparr>))"

text \<open>\<open>vrouter_free_nexthop\<close>: the references to the devices are dropped with the memory.\<close>

definition vrouter_free_nexthop :: "nh_ptr \<Rightarrow> nh_state \<Rightarrow> nh_state" where
  "vrouter_free_nexthop nh s =
     (let s1 = nh_upd nh (\<lambda>n. if nh_type n = NH_COMPOSITE
                              then n\<lparr>nh_component_nh := [], nh_component_ecmp := [],
                       nh_component_ecmp_cnt := (if nh_component_ecmp n = [] then nh_component_ecmp_cnt n else 0)\<rparr>
                              else if nh_type n = NH_TUNNEL \<and> nh_flags n AND NH_FLAG_TUNNEL_UDP \<noteq> 0 \<and>
                                      nh_family n = AF_INET6
                              then n\<lparr>nh_tun_sip6 := [], nh_tun_dip6 := []\<rparr> else n) s;
          s2 = put_interfaces (nh_dev_arr (nh_heap s ! nh)) s1
      in s2\<lparr>nh_freed := nh_freed s2 @ [nh]\<rparr>)"

text \<open>\<open>vrouter_free_nexthop_defer\<close>, and the callback that runs later.\<close>

definition vrouter_free_nexthop_defer :: "nh_ptr \<Rightarrow> nh_state \<Rightarrow> bool \<times> nh_state" where
  "vrouter_free_nexthop_defer nh s =
     (case next_alloc s of (ok, s) \<Rightarrow>
        if ok then (True, s\<lparr>nh_defer := nh_defer s @ [nh]\<rparr>) else (False, s))"

definition vrouter_free_nexthop_cb :: "nh_state \<Rightarrow> nh_state" where
  "vrouter_free_nexthop_cb s =
     (case nh_defer s of
        [] \<Rightarrow> s
      | nh # ds \<Rightarrow> vrouter_free_nexthop nh (s\<lparr>nh_defer := ds\<rparr>))"

definition nh_release :: "nh_ptr \<Rightarrow> nh_state \<Rightarrow> nh_state" where
  "nh_release nh s =
     (if vr_not_ready s then vrouter_free_nexthop nh s
      else case vrouter_free_nexthop_defer nh s of (ok, s) \<Rightarrow>
             if ok then s else vrouter_free_nexthop nh s)"

text \<open>
  \<open>vrouter_put_nexthop\<close> is recursive: when the last reference goes, it drops the
  references to the direct nexthop and to the components, in this order, and then releases
  the nexthop itself. The pending calls are kept on a stack. Both the direct pointer and
  the component count are cleared before the calls they lead to.
\<close>

datatype nh_work = NhPut nh_ptr | NhFree nh_ptr

definition nh_children :: "vr_nexthop \<Rightarrow> nh_ptr list" where
  "nh_children nh =
     (if nh_flags nh AND NH_FLAG_INDIRECT \<noteq> 0 \<and> nh_direct_nh nh \<noteq> 0 then [nh_direct_nh nh] else []) @
     (if nh_type nh = NH_COMPOSITE then filter (\<lambda>p. p \<noteq> 0) (map cnh (nh_component_nh nh)) else [])"

definition nh_unlink :: "vr_nexthop \<Rightarrow> vr_nexthop" where
  "nh_unlink nh =
     nh\<lparr>nh_direct_nh := (if nh_flags nh AND NH_FLAG_INDIRECT \<noteq> 0 then 0 else nh_direct_nh nh),
        nh_component_nh := (if nh_type nh = NH_COMPOSITE then [] else nh_component_nh nh)\<rparr>"

definition nh_put1 :: "nh_ptr \<Rightarrow> nh_state \<Rightarrow> nh_work list \<times> nh_state" where
  "nh_put1 p s =
     (let s1 = nh_upd p (nh_users_update (\<lambda>u. if u = 0 then 0 else u - 1)) s
      in if nh_users (nh_heap s1 ! p) \<noteq> 0 then ([], s1)
         else (map NhPut (nh_children (nh_heap s1 ! p)) @ [NhFree p], nh_upd p nh_unlink s1))"

text \<open>All pointers to other nexthops a nexthop holds.\<close>

definition nh_out :: "vr_nexthop \<Rightarrow> nh_ptr list" where
  "nh_out nh = filter (\<lambda>p. p \<noteq> 0) (nh_direct_nh nh # map cnh (nh_component_nh nh))"

definition nh_weight :: "nh_work list \<Rightarrow> nat" where
  "nh_weight w = sum_list (map (\<lambda>x. case x of NhPut _ \<Rightarrow> 2 | NhFree _ \<Rightarrow> 1) w)"

definition heap_weight :: "vr_nexthop list \<Rightarrow> nat" where
  "heap_weight h = sum_list (map (\<lambda>nh. length (nh_out nh)) h)"

lemma nh_weight_simps [simp]:
  "nh_weight [] = 0" "nh_weight (NhPut p # w) = 2 + nh_weight w"
  "nh_weight (NhFree p # w) = 1 + nh_weight w" "nh_weight (v @ w) = nh_weight v + nh_weight w"
  "nh_weight (map NhPut ps) = 2 * length ps"
  by (auto simp: nh_weight_def) (induction ps, auto)

lemma sum_list_map_update:
  fixes f :: "'a \<Rightarrow> nat"
  assumes "i < length xs"
  shows "sum_list (map f (xs[i := x])) + f (xs ! i) = sum_list (map f xs) + f x"
proof -
  have "f (xs ! i) \<le> sum_list (map f xs)" using assms by (auto intro: member_le_sum_list)
  then show ?thesis using assms by (simp add: map_update sum_list_update)
qed

lemma nh_out_unlink: "length (nh_out (nh_unlink nh)) + length (nh_children nh) \<le> length (nh_out nh)"
  by (auto simp: nh_out_def nh_unlink_def nh_children_def)

lemma nh_out_users [simp]: "nh_out (nh_users_update f nh) = nh_out nh"
  by (simp add: nh_out_def)

lemma nh_put1_weight:
  assumes "nh_put1 p s = (w, s')" "p < length (nh_heap s)"
  shows "2 * heap_weight (nh_heap s') + nh_weight w \<le> 2 * heap_weight (nh_heap s) + 1"
proof -
  define h where "h = (nh_heap s)[p := nh_users_update (\<lambda>u. if u = 0 then 0 else u - 1) (nh_heap s ! p)]"
  have h: "heap_weight h = heap_weight (nh_heap s)" and p: "p < length h"
    using sum_list_map_update [OF assms(2), of "\<lambda>nh. length (nh_out nh)"
        "nh_users_update (\<lambda>u. if u = 0 then 0 else u - 1) (nh_heap s ! p)"] assms(2)
    by (simp_all add: heap_weight_def h_def)
  have "heap_weight (h[p := nh_unlink (h ! p)]) + length (nh_children (h ! p)) \<le> heap_weight h"
    using sum_list_map_update [OF p, of "\<lambda>nh. length (nh_out nh)" "nh_unlink (h ! p)"]
      nh_out_unlink [of "h ! p"] by (simp add: heap_weight_def)
  then show ?thesis using assms(1) h
    by (auto simp: nh_put1_def Let_def nh_upd_def h_def [symmetric] split: if_splits)
qed

lemma put_interface_frame [simp]:
  "nh_heap (vrouter_put_interface d s) = nh_heap s"
  "nh_defer (vrouter_put_interface d s) = nh_defer s"
  "nh_freed (vrouter_put_interface d s) = nh_freed s"
  "nh_cells (vrouter_put_interface d s) = nh_cells s"
  "vr_nexthops (vrouter_put_interface d s) = vr_nexthops s"
  "vr_max_nexthops (vrouter_put_interface d s) = vr_max_nexthops s"
  "nh_fault (vrouter_put_interface d s) = nh_fault s"
  "vr_not_ready (vrouter_put_interface d s) = vr_not_ready s"
  "vr_sched (vrouter_put_interface d s) = vr_sched s"
  "ip4_default_nh (vrouter_put_interface d s) = ip4_default_nh s"
  by (simp_all add: vrouter_put_interface_def Let_def)

lemma put_interfaces_frame [simp]:
  "nh_heap (put_interfaces ds s) = nh_heap s"
  "nh_defer (put_interfaces ds s) = nh_defer s"
  "nh_freed (put_interfaces ds s) = nh_freed s"
  "nh_cells (put_interfaces ds s) = nh_cells s"
  "vr_nexthops (put_interfaces ds s) = vr_nexthops s"
  "vr_max_nexthops (put_interfaces ds s) = vr_max_nexthops s"
  "nh_fault (put_interfaces ds s) = nh_fault s"
  "vr_not_ready (put_interfaces ds s) = vr_not_ready s"
  "vr_sched (put_interfaces ds s) = vr_sched s"
  "ip4_default_nh (put_interfaces ds s) = ip4_default_nh s"
  by (induction ds arbitrary: s) simp_all

text \<open>What the release of a nexthop does to the heap.\<close>

definition nh_clear :: "vr_nexthop \<Rightarrow> vr_nexthop" where
  "nh_clear n = (if nh_type n = NH_COMPOSITE
                 then n\<lparr>nh_component_nh := [], nh_component_ecmp := [],
                       nh_component_ecmp_cnt := (if nh_component_ecmp n = [] then nh_component_ecmp_cnt n else 0)\<rparr>
                 else if nh_type n = NH_TUNNEL \<and> nh_flags n AND NH_FLAG_TUNNEL_UDP \<noteq> 0 \<and> nh_family n = AF_INET6
                 then n\<lparr>nh_tun_sip6 := [], nh_tun_dip6 := []\<rparr> else n)"

lemma nh_release_frame:
  "nh_heap (nh_release p s) = nh_heap s \<or>
   nh_heap (nh_release p s) = (nh_heap s)[p := nh_clear (nh_heap s ! p)]"
  "nh_cells (nh_release p s) = nh_cells s"
  "vr_nexthops (nh_release p s) = vr_nexthops s"
  "vr_max_nexthops (nh_release p s) = vr_max_nexthops s"
  "nh_fault (nh_release p s) = nh_fault s"
  "ip4_default_nh (nh_release p s) = ip4_default_nh s"
  "nh_defer (nh_release p s) = nh_defer s \<and> nh_freed (nh_release p s) = nh_freed s @ [p] \<or>
   nh_defer (nh_release p s) = nh_defer s @ [p] \<and> nh_freed (nh_release p s) = nh_freed s"
  by (auto simp: nh_release_def vrouter_free_nexthop_def vrouter_free_nexthop_defer_def
      next_alloc_def Let_def nh_upd_def nh_clear_def)

lemma nh_out_clear: "length (nh_out (nh_clear n)) \<le> length (nh_out n)"
  by (simp add: nh_out_def nh_clear_def)

lemma heap_weight_release: "heap_weight (nh_heap (nh_release p s)) \<le> heap_weight (nh_heap s)"
proof (cases "p < length (nh_heap s)")
  case True
  from sum_list_map_update [OF this, of "\<lambda>nh. length (nh_out nh)" "nh_clear (nh_heap s ! p)"]
    nh_out_clear [of "nh_heap s ! p"]
  have "heap_weight ((nh_heap s)[p := nh_clear (nh_heap s ! p)]) \<le> heap_weight (nh_heap s)"
    by (simp add: heap_weight_def)
  then show ?thesis using nh_release_frame(1) [of p s] by auto
next
  case False
  then show ?thesis using nh_release_frame(1) [of p s] by (auto simp: list_update_beyond)
qed

function nh_run :: "nh_work list \<Rightarrow> nh_state \<Rightarrow> nh_state" where
  "nh_run [] s = s"
| "nh_run (NhPut p # w) s =
     (if p = 0 then nh_run w s
      else if length (nh_heap s) \<le> p then nh_run w (s\<lparr>nh_fault := True\<rparr>)
      else case nh_put1 p s of (w', s') \<Rightarrow> nh_run (w' @ w) s')"
| "nh_run (NhFree p # w) s = nh_run w (nh_release p s)"
  by pat_completeness auto

termination
proof (relation "measure (\<lambda>(w, s). 2 * heap_weight (nh_heap s) + nh_weight w)", goal_cases)
  case (4 p w s w' s')
  then show ?case using nh_put1_weight [of p s w' s'] by simp
next
  case (5 p w s)
  then show ?case using heap_weight_release [of p s] by simp
qed simp_all

declare nh_run.simps(2,3) [simp del]

definition vrouter_put_nexthop :: "nh_ptr \<Rightarrow> nh_state \<Rightarrow> nh_state" where
  "vrouter_put_nexthop nh s = nh_run [NhPut nh] s"

section \<open>What getting and putting leave unchanged\<close>

definition nh_tbl :: "nh_state \<Rightarrow> u32 \<Rightarrow> nh_ptr" where
  "nh_tbl s i = fst (get_nexthop_raw i s)"

text \<open>The part of the state that taking and dropping references does not change.\<close>

definition nh_static where
  "nh_static s = (vr_max_nexthops s, vr_nexthops s, nh_cells s, ip4_default_nh s,
     map (\<lambda>n. (nh_id n, nh_rid n, nh_type n)) (nh_heap s))"

lemma nh_static_tbl: "nh_static s = nh_static s' \<Longrightarrow> nh_tbl s = nh_tbl s'"
  by (auto simp: nh_static_def nh_tbl_def get_nexthop_raw_def nh_slot_def fun_eq_iff split: option.splits)

lemma nh_static_length: "nh_static s = nh_static s' \<Longrightarrow> length (nh_heap s) = length (nh_heap s')"
  by (auto simp: nh_static_def dest: map_eq_imp_length_eq)

lemma nh_static_fields:
  assumes "nh_static s = nh_static s'" "p < length (nh_heap s)"
  shows "nh_id (nh_heap s ! p) = nh_id (nh_heap s' ! p)" "nh_type (nh_heap s ! p) = nh_type (nh_heap s' ! p)"
proof -
  have "map (\<lambda>n. (nh_id n, nh_rid n, nh_type n)) (nh_heap s) ! p =
        map (\<lambda>n. (nh_id n, nh_rid n, nh_type n)) (nh_heap s') ! p"
    using assms(1) by (simp add: nh_static_def)
  then show "nh_id (nh_heap s ! p) = nh_id (nh_heap s' ! p)" "nh_type (nh_heap s ! p) = nh_type (nh_heap s' ! p)"
    using assms nh_static_length [OF assms(1)] by simp_all
qed

lemma map_list_update_same: "(p < length xs \<Longrightarrow> f v = f (xs ! p)) \<Longrightarrow> map f (xs[p := v]) = map f xs"
  by (cases "p < length xs") (auto simp: map_update list_update_same_conv list_update_beyond)

lemma nh_static_upd:
  assumes "\<And>n. nh_id (f n) = nh_id n \<and> nh_rid (f n) = nh_rid n \<and> nh_type (f n) = nh_type n"
  shows "nh_static (nh_upd p f s) = nh_static s"
  using assms by (simp add: nh_static_def nh_upd_def map_list_update_same)

lemma nh_static_get [vr_frame]: "nh_static (snd (vrouter_get_nexthop i s)) = nh_static s"
proof -
  have "nh_static (snd (get_nexthop_raw i s)) = nh_static s"
    by (auto simp: get_nexthop_raw_def nh_static_def split: option.splits)
  then show ?thesis
    by (auto simp: vrouter_get_nexthop_def nh_static_upd split: prod.splits)
qed

lemma nh_static_put1: "nh_put1 p s = (w, s') \<Longrightarrow> nh_static s' = nh_static s"
  by (auto simp: nh_put1_def Let_def nh_static_upd nh_unlink_def split: if_splits)

lemma nh_static_release: "nh_static (nh_release p s) = nh_static s"
proof -
  have "map (\<lambda>n. (nh_id n, nh_rid n, nh_type n)) (nh_heap (nh_release p s)) =
        map (\<lambda>n. (nh_id n, nh_rid n, nh_type n)) (nh_heap s)"
    using nh_release_frame(1) [of p s] by (auto simp: map_list_update_same nh_clear_def)
  then show ?thesis by (simp add: nh_static_def nh_release_frame)
qed

lemma nh_static_run: "nh_static (nh_run w s) = nh_static s"
proof (induction w s rule: nh_run.induct)
  case (2 p w s)
  have "nh_static (s\<lparr>nh_fault := True\<rparr>) = nh_static s" by (simp add: nh_static_def)
  with 2 show ?case by (auto simp: nh_run.simps nh_static_put1 split: prod.splits)
next
  case (3 p w s)
  then show ?case by (simp add: nh_run.simps nh_static_release)
qed simp

lemma nh_static_put [vr_frame]: "nh_static (vrouter_put_nexthop p s) = nh_static s"
  by (simp add: vrouter_put_nexthop_def nh_static_run)

section \<open>References\<close>

definition nh_links :: "vr_nexthop list \<Rightarrow> nh_ptr \<Rightarrow> nat" where
  "nh_links h p = sum_list (map (\<lambda>nh. count_list (nh_out nh) p) h)"

definition nh_in_tbl :: "nh_state \<Rightarrow> nh_ptr \<Rightarrow> nat" where
  "nh_in_tbl s p = (if p \<noteq> 0 \<and> nh_tbl s (nh_id (nh_heap s ! p)) = p then 1 else 0)"

definition nh_table_ok :: "nh_state \<Rightarrow> bool" where
  [vr_inv]: "nh_table_ok s \<longleftrightarrow>
     (\<exists>t. vr_nexthops s = Some t \<and> btable_wf t \<and> distinct (vb_mem t) \<and> vb_entries t = vr_max_nexthops s) \<and>
     (\<forall>i. nh_tbl s i \<noteq> 0 \<longrightarrow>
        nh_tbl s i < length (nh_heap s) \<and> nh_id (nh_heap s ! nh_tbl s i) = i)"

text \<open>
  \<open>ext p\<close> is the number of references to \<open>p\<close> from outside the nexthop component. The
  reference count of a nexthop covers its slot in the table, the pointers of other
  nexthops and the outside references; what is released or scheduled has no reference left
  and is released once.
\<close>

definition nh_inv :: "nh_state \<Rightarrow> (nh_ptr \<Rightarrow> nat) \<Rightarrow> bool" where
  "nh_inv s ext \<longleftrightarrow> nh_table_ok s \<and> \<not> nh_fault s \<and>
     (\<forall>p. p = 0 \<or> length (nh_heap s) \<le> p \<longrightarrow> nh_links (nh_heap s) p = 0 \<and> ext p = 0) \<and>
     (\<forall>p<length (nh_heap s). nh_in_tbl s p + nh_links (nh_heap s) p + ext p \<le> unat (nh_users (nh_heap s ! p))) \<and>
     distinct (nh_defer s @ nh_freed s) \<and>
     (\<forall>p\<in>set (nh_defer s @ nh_freed s). p < length (nh_heap s) \<and> nh_users (nh_heap s ! p) = 0)"

lemma nh_links_update:
  assumes "p < length h"
  shows "nh_links (h[p := nh]) q + count_list (nh_out (h ! p)) q = nh_links h q + count_list (nh_out nh) q"
  using sum_list_map_update [OF assms, of "\<lambda>nh. count_list (nh_out nh) q" nh] by (simp add: nh_links_def)

lemma nh_links_same: "nh_out nh = nh_out (h ! p) \<Longrightarrow> nh_links (h[p := nh]) = nh_links h"
  by (auto simp: nh_links_def map_list_update_same)

lemma nh_table_ok_static:
  assumes "nh_static s' = nh_static s"
  shows "nh_table_ok s' = nh_table_ok s"
proof -
  have "vr_nexthops s' = vr_nexthops s" "vr_max_nexthops s' = vr_max_nexthops s"
    using assms by (simp_all add: nh_static_def)
  moreover have "p < length (nh_heap s') \<and> nh_id (nh_heap s' ! p) = i \<longleftrightarrow>
      p < length (nh_heap s) \<and> nh_id (nh_heap s ! p) = i" for p i
    using nh_static_length [OF assms] nh_static_fields(1) [OF assms, of p] by auto
  ultimately show ?thesis
    by (simp add: nh_table_ok_def nh_static_tbl [OF assms])
qed

lemma nh_in_tbl_static:
  assumes "nh_static s' = nh_static s" "p < length (nh_heap s)"
  shows "nh_in_tbl s' p = nh_in_tbl s p"
  using nh_static_tbl [OF assms(1)] nh_static_fields(1) [OF assms(1)[symmetric] assms(2)]
  by (simp add: nh_in_tbl_def)

lemma nh_upd_simps [simp]:
  "nh_heap (nh_upd p f s) = (nh_heap s)[p := f (nh_heap s ! p)]"
  "nh_defer (nh_upd p f s) = nh_defer s" "nh_freed (nh_upd p f s) = nh_freed s"
  "nh_fault (nh_upd p f s) = nh_fault s" "vr_nexthops (nh_upd p f s) = vr_nexthops s"
  "vr_max_nexthops (nh_upd p f s) = vr_max_nexthops s" "nh_cells (nh_upd p f s) = nh_cells s"
  by (simp_all add: nh_upd_def)

lemma nh_inv_valid: "nh_inv s ext \<Longrightarrow> 0 < ext p \<Longrightarrow> 0 < p \<and> p < length (nh_heap s)"
  by (auto simp: nh_inv_def)

lemma nh_inv_users_le:
  "nh_inv s ext \<Longrightarrow> p < length (nh_heap s) \<Longrightarrow>
   nh_in_tbl s p + nh_links (nh_heap s) p + ext p \<le> unat (nh_users (nh_heap s ! p))"
  by (simp add: nh_inv_def)

text \<open>Changing the reference count of one nexthop.\<close>

lemma nh_inv_set_users:
  assumes inv: "nh_inv s ext" and p: "0 < p" "p < length (nh_heap s)"
    and u: "nh_in_tbl s p + nh_links (nh_heap s) p + ext' p \<le> unat u"
    and ext: "\<And>q. q \<noteq> p \<Longrightarrow> ext' q = ext q"
    and dead: "p \<in> set (nh_defer s @ nh_freed s) \<Longrightarrow> u = 0"
    and f: "f (nh_users (nh_heap s ! p)) = u"
  shows "nh_inv (nh_upd p (nh_users_update f) s) ext'"
proof -
  let ?s = "nh_upd p (nh_users_update f) s"
  have st: "nh_static ?s = nh_static s" by (rule nh_static_upd) simp
  have l: "nh_links (nh_heap ?s) = nh_links (nh_heap s)" by (simp add: nh_links_same)
  have "nh_in_tbl ?s q + nh_links (nh_heap ?s) q + ext' q \<le> unat (nh_users (nh_heap ?s ! q))"
    if "q < length (nh_heap s)" for q
    using that nh_inv_users_le [OF inv that] u ext [of q] f p(2)
    by (cases "q = p") (simp_all add: nh_in_tbl_static [OF st] l [simplified] nth_list_update_if)
  then show ?thesis
    using inv p ext dead f unfolding nh_inv_def nh_table_ok_static [OF st] l
    by (auto simp: nth_list_update_if)
qed

lemma nh_inv_get:
  assumes inv: "nh_inv s ext" and g: "vrouter_get_nexthop i s = (p, s')" and p: "p \<noteq> 0"
    and bound: "nh_users (nh_heap s ! p) + 1 \<noteq> 0"
  shows "nh_inv s' (ext(p := Suc (ext p)))" "nh_tbl s i = p" "p < length (nh_heap s)"
    "s' = nh_upd p (nh_users_update (\<lambda>u. u + 1)) s"
proof -
  obtain t where t: "vr_nexthops s = Some t" "btable_wf t" "vb_entries t = vr_max_nexthops s"
    using inv by (auto simp: nh_inv_def nh_table_ok_def)
  have raw: "get_nexthop_raw i s = (p, s)"
    using g p t vr_btable_get_eq(1) [OF t(2), of i]
    by (auto simp: vrouter_get_nexthop_def get_nexthop_raw_def nh_slot_def not_le split: if_splits)
  then show tbl: "nh_tbl s i = p" by (simp add: nh_tbl_def)
  from g raw p show s': "s' = nh_upd p (nh_users_update (\<lambda>u. u + 1)) s"
    by (simp add: vrouter_get_nexthop_def)
  from inv tbl p show len: "p < length (nh_heap s)" by (auto simp: nh_inv_def nh_table_ok_def)
  have in1: "nh_in_tbl s p = 1"
    using inv tbl p by (auto simp: nh_inv_def nh_table_ok_def nh_in_tbl_def)
  have u: "unat (nh_users (nh_heap s ! p) + 1) = Suc (unat (nh_users (nh_heap s ! p)))"
    using bound by (metis Suc_eq_plus1 add.commute unatSuc)
  have "p \<notin> set (nh_defer s @ nh_freed s)"
    using inv nh_inv_users_le [OF inv len] in1 by (auto simp: nh_inv_def)
  then show "nh_inv s' (ext(p := Suc (ext p)))"
    using nh_inv_users_le [OF inv len] u p unfolding s'
    by (intro nh_inv_set_users [OF inv _ len]) auto
qed

text \<open>Giving up the pointers of a nexthop turns them into outside references.\<close>

lemma count_out_unlink:
  "count_list (nh_out (nh_unlink nh)) q + count_list (nh_children nh) q \<le> count_list (nh_out nh) q"
  by (auto simp: nh_out_def nh_unlink_def nh_children_def)

lemma nh_inv_unlink:
  assumes inv: "nh_inv s ext" and p: "p < length (nh_heap s)"
  shows "nh_inv (nh_upd p nh_unlink s) (\<lambda>q. ext q + count_list (nh_children (nh_heap s ! p)) q)"
proof -
  let ?s = "nh_upd p nh_unlink s" and ?c = "\<lambda>q. count_list (nh_children (nh_heap s ! p)) q"
  have st: "nh_static ?s = nh_static s" by (rule nh_static_upd) (simp add: nh_unlink_def)
  have l: "nh_links (nh_heap ?s) q + ?c q \<le> nh_links (nh_heap s) q" for q
    using nh_links_update [OF p, of "nh_unlink (nh_heap s ! p)" q] count_out_unlink [of "nh_heap s ! p" q]
    by simp
  have users: "nh_users (nh_heap ?s ! q) = nh_users (nh_heap s ! q)" for q
    using p by (simp add: nth_list_update_if nh_unlink_def)
  have "nh_in_tbl ?s q + nh_links (nh_heap ?s) q + (ext q + ?c q) \<le> unat (nh_users (nh_heap ?s ! q))"
    if "q < length (nh_heap s)" for q
    unfolding users nh_in_tbl_static [OF st that] using nh_inv_users_le [OF inv that] l [of q] by linarith
  moreover have "nh_links (nh_heap ?s) q = 0 \<and> ext q + ?c q = 0"
    if "q = 0 \<or> length (nh_heap s) \<le> q" for q
    using that inv l [of q] unfolding nh_inv_def by (metis add_is_0 le_zero_eq)
  ultimately show ?thesis
    using inv users unfolding nh_inv_def nh_table_ok_static [OF st] by simp
qed

text \<open>The stack of pending calls of a put.\<close>

fun nh_puts :: "nh_work list \<Rightarrow> nh_ptr list" where
  "nh_puts [] = []"
| "nh_puts (NhPut p # w) = p # nh_puts w"
| "nh_puts (NhFree p # w) = nh_puts w"

fun nh_frees :: "nh_work list \<Rightarrow> nh_ptr list" where
  "nh_frees [] = []"
| "nh_frees (NhPut p # w) = nh_frees w"
| "nh_frees (NhFree p # w) = p # nh_frees w"

lemma nh_puts_append [simp]: "nh_puts (v @ w) = nh_puts v @ nh_puts w"
  by (induction v rule: nh_puts.induct) auto

lemma nh_frees_append [simp]: "nh_frees (v @ w) = nh_frees v @ nh_frees w"
  by (induction v rule: nh_frees.induct) auto

lemma nh_puts_map [simp]: "nh_puts (map NhPut ps) = ps" "nh_frees (map NhPut ps) = []"
  by (induction ps) auto

definition nh_winv :: "nh_work list \<Rightarrow> nh_state \<Rightarrow> (nh_ptr \<Rightarrow> nat) \<Rightarrow> bool" where
  "nh_winv w s ext \<longleftrightarrow>
     nh_inv s (\<lambda>q. ext q + count_list (nh_puts w) q) \<and> distinct (nh_frees w) \<and>
     (\<forall>p\<in>set (nh_frees w). p < length (nh_heap s) \<and> nh_users (nh_heap s ! p) = 0 \<and>
        p \<notin> set (nh_defer s @ nh_freed s))"

lemma nh_winv_put1:
  assumes w: "nh_winv (NhPut p # w) s ext" and r: "nh_put1 p s = (w', s')"
  shows "nh_winv (w' @ w) s' ext" "0 < p" "p < length (nh_heap s)"
proof -
  let ?e = "\<lambda>q. ext q + count_list (nh_puts w) q"
  have inv: "nh_inv s (\<lambda>q. ext q + count_list (p # nh_puts w) q)"
    and fr: "distinct (nh_frees w)" "\<forall>q\<in>set (nh_frees w). q < length (nh_heap s) \<and>
       nh_users (nh_heap s ! q) = 0 \<and> q \<notin> set (nh_defer s @ nh_freed s)"
    using w by (simp_all add: nh_winv_def)
  show p: "0 < p" "p < length (nh_heap s)"
    using nh_inv_valid [OF inv, of p] by simp_all
  let ?u = "nh_users (nh_heap s ! p)" and ?g = "\<lambda>u::u32. if u = 0 then 0 else u - 1"
  let ?s1 = "nh_upd p (nh_users_update ?g) s"
  have le: "nh_in_tbl s p + nh_links (nh_heap s) p + ?e p + 1 \<le> unat ?u"
    using nh_inv_users_le [OF inv p(2)] by simp
  then have u: "?u \<noteq> 0" and u1: "unat (?g ?u) = unat ?u - 1"
    by (auto simp: unat_minus_one)
  then have alive: "p \<notin> set (nh_frees w)" "p \<notin> set (nh_defer s @ nh_freed s)"
    using fr inv by (auto simp: nh_inv_def)
  have inv1: "nh_inv ?s1 ?e"
    using le u1 alive(2) by (intro nh_inv_set_users [OF inv p]) auto
  have fr1: "\<forall>q\<in>set (nh_frees w). q < length (nh_heap ?s1) \<and> nh_users (nh_heap ?s1 ! q) = 0 \<and>
      q \<notin> set (nh_defer ?s1 @ nh_freed ?s1)"
    using fr(2) alive p(2) by (auto simp: nth_list_update_if)
  have u1p: "nh_users (nh_heap ?s1 ! p) = ?g ?u" using p(2) by simp
  show "nh_winv (w' @ w) s' ext"
  proof (cases "nh_users (nh_heap ?s1 ! p) = 0")
    case False
    then have "w' = []" "s' = ?s1" using r by (simp_all add: nh_put1_def Let_def)
    then show ?thesis using inv1 fr(1) fr1 by (simp add: nh_winv_def)
  next
    case True
    then have w': "w' = map NhPut (nh_children (nh_heap ?s1 ! p)) @ [NhFree p]" "s' = nh_upd p nh_unlink ?s1"
      using r by (simp_all add: nh_put1_def Let_def)
    have "nh_inv s' (\<lambda>q. ?e q + count_list (nh_children (nh_heap ?s1 ! p)) q)"
      unfolding w'(2) using p(2) by (intro nh_inv_unlink [OF inv1]) simp
    then have "nh_inv s' (\<lambda>q. ext q + count_list (nh_puts (w' @ w)) q)"
      by (simp add: w'(1) ac_simps)
    moreover have "nh_users (nh_heap s' ! q) = nh_users (nh_heap ?s1 ! q)" for q
      using p(2) by (simp add: w'(2) nth_list_update_if nh_unlink_def)
    ultimately show ?thesis
      unfolding nh_winv_def using fr(1) fr1 alive True p(2) by (simp add: w')
  qed
qed

lemma count_out_clear: "count_list (nh_out (nh_clear nh)) q \<le> count_list (nh_out nh) q"
  by (simp add: nh_out_def nh_clear_def)

lemma nh_release_links: "nh_links (nh_heap (nh_release p s)) q \<le> nh_links (nh_heap s) q"
proof (cases "p < length (nh_heap s)")
  case True
  from nh_links_update [OF this, of "nh_clear (nh_heap s ! p)" q] count_out_clear [of "nh_heap s ! p" q]
  show ?thesis using nh_release_frame(1) [of p s] by auto
next
  case False
  then show ?thesis using nh_release_frame(1) [of p s] by (auto simp: list_update_beyond)
qed

lemma nh_release_users: "nh_users (nh_heap (nh_release p s) ! q) = nh_users (nh_heap s ! q)"
  using nh_release_frame(1) [of p s]
  by (cases "p < length (nh_heap s)") (auto simp: nth_list_update_if nh_clear_def list_update_beyond)

lemma nh_winv_free:
  assumes w: "nh_winv (NhFree p # w) s ext"
  shows "nh_winv w (nh_release p s) ext"
proof -
  let ?s = "nh_release p s" and ?e = "\<lambda>q. ext q + count_list (nh_puts w) q"
  note st = nh_static_release [of p s]
  have inv: "nh_inv s ?e" and fr: "distinct (p # nh_frees w)"
    "\<forall>q\<in>set (p # nh_frees w). q < length (nh_heap s) \<and> nh_users (nh_heap s ! q) = 0 \<and>
       q \<notin> set (nh_defer s @ nh_freed s)"
    using w by (simp_all add: nh_winv_def)
  have len: "length (nh_heap ?s) = length (nh_heap s)" using nh_static_length [OF st] .
  have "nh_in_tbl ?s q + nh_links (nh_heap ?s) q + ?e q \<le> unat (nh_users (nh_heap ?s ! q))"
    if "q < length (nh_heap s)" for q
    unfolding nh_release_users nh_in_tbl_static [OF st that]
    using nh_inv_users_le [OF inv that] nh_release_links [of p s q] by linarith
  moreover have "nh_links (nh_heap ?s) q = 0 \<and> ?e q = 0" if "q = 0 \<or> length (nh_heap s) \<le> q" for q
    using that inv nh_release_links [of p s q] unfolding nh_inv_def by (metis le_zero_eq)
  moreover have df: "set (nh_defer ?s @ nh_freed ?s) = insert p (set (nh_defer s @ nh_freed s))"
    using nh_release_frame(7) [of p s] by auto
  moreover have "distinct (nh_defer ?s @ nh_freed ?s)"
    using nh_release_frame(7) [of p s] inv fr(2) by (auto simp: nh_inv_def)
  ultimately have "nh_inv ?s ?e"
    using inv fr(2) unfolding nh_inv_def nh_table_ok_static [OF st] df
    by (auto simp: len nh_release_users nh_release_frame(5))
  then show ?thesis using fr len df by (auto simp: nh_winv_def nh_release_users)
qed

lemma nh_run_inv: "nh_winv w s ext \<Longrightarrow> nh_inv (nh_run w s) ext"
proof (induction w s rule: nh_run.induct)
  case (1 s)
  then show ?case by (simp add: nh_winv_def)
next
  case (2 p w s)
  obtain w' s' where r: "nh_put1 p s = (w', s')" by (cases "nh_put1 p s")
  note wi = nh_winv_put1 [OF "2.prems" r]
  with "2.IH"(3) r show ?case by (simp add: nh_run.simps)
next
  case (3 p w s)
  then show ?case by (simp add: nh_run.simps nh_winv_free)
qed

lemma nh_inv_put:
  assumes "nh_inv s ext" "0 < ext p"
  shows "nh_inv (vrouter_put_nexthop p s) (ext(p := ext p - 1))"
proof -
  have "(\<lambda>q. (ext(p := ext p - 1)) q + count_list [p] q) = ext" using assms(2) by (auto simp: fun_eq_iff)
  then have "nh_winv [NhPut p] s (ext(p := ext p - 1))" using assms(1) by (simp add: nh_winv_def)
  then show ?thesis unfolding vrouter_put_nexthop_def by (rule nh_run_inv)
qed

end
