(* ===== verification/VR_Route_Req.thy ===== *)
theory VR_Route_Req
  imports VR_Nexthop
begin

text \<open>
  The route request that the inet and the bridge tables take: the fields of \<open>vr_route_req\<close>
  (\<^verbatim>\<open>sandesh/vr.sandesh\<close>) and the nexthop pointer the table code adds to them
  (\<^verbatim>\<open>include/vr_route.h\<close>). A MAC address is the list of its bytes; a request that
  carries none has the empty list.
\<close>

record vr_route_req =
  rtr_vrf_id :: u32
  rtr_family :: family
  rtr_prefix :: "u8 list"
  rtr_prefix_len :: int
  rtr_label_flags :: u16
  rtr_label :: u32
  rtr_nh_id :: u32
  rtr_mac :: "u8 list"
  rtr_replace_plen :: int
  rtr_index :: u32
  rtr_nh :: nh_ptr

definition VR_ETHER_ALEN :: nat where "VR_ETHER_ALEN = 6"
definition VR_BE_INVALID_INDEX :: u32 where "VR_BE_INVALID_INDEX = 0xFFFFFFFF"
definition VR_RT_LABEL_VALID_FLAG :: u16 where "VR_RT_LABEL_VALID_FLAG = 0x1"

definition IS_MAC_ZERO :: "u8 list \<Rightarrow> bool" where
  "IS_MAC_ZERO mac \<longleftrightarrow> (\<forall>b\<in>set (take VR_ETHER_ALEN mac). b = 0)"

end
