(* ===== verification/VR_Nexthop_Ops.thy ===== *)
theory VR_Nexthop_Ops
  imports VR_Route_Req
begin

text \<open>
  The operations on the nexthop table of \<^verbatim>\<open>dp-core/vr_nexthop.c\<close>: the table is set up
  and torn down, and requests add, change and delete nexthops of every type. A request
  (\<open>vr_nexthop_req\<close> of \<^verbatim>\<open>sandesh/vr.sandesh\<close>) carries lists; an element that is not there is
  read through a null or an out of range pointer, which is a fault.
\<close>

section \<open>Requests\<close>

record vr_nexthop_req =
  nhr_type :: int
  nhr_family :: family
  nhr_id :: u32
  nhr_rid :: u32
  nhr_encap_oif_id :: "u32 list"
  nhr_encap_len :: u32
  nhr_encap_family :: u32
  nhr_vrf :: int
  nhr_tun_sip :: u32
  nhr_tun_dip :: u32
  nhr_tun_sport :: u16
  nhr_tun_dport :: u16
  nhr_flags :: u32
  nhr_encap :: "u8 list"
  nhr_nh_list :: "u32 list"
  nhr_label_list :: "int list"
  nhr_tun_sip6 :: "u8 list"
  nhr_tun_dip6 :: "u8 list"
  nhr_ecmp_config_hash :: u8
  nhr_pbb_mac :: "u8 list"
  nhr_encap_crypt_oif_id :: u32
  nhr_rw_dst_mac :: "u8 list"
  nhr_transport_label :: u32
  nhr_encap_valid :: "u32 list"

definition NH_MAX :: nat where "NH_MAX = 9"

definition nexthop_type_of :: "int \<Rightarrow> nexthop_type" where
  "nexthop_type_of t = [NH_DEAD, NH_RCV, NH_ENCAP, NH_TUNNEL, NH_RESOLVE, NH_DISCARD,
     NH_COMPOSITE, NH_VRF_TRANSLATE, NH_L2_RCV] ! nat t"

definition read_list :: "'a \<Rightarrow> 'a list \<Rightarrow> nat \<Rightarrow> nh_state \<Rightarrow> 'a \<times> nh_state" where
  "read_list d xs i s = (if i < length xs then (xs ! i, s) else (d, s\<lparr>nh_fault := True\<rparr>))"

section \<open>The slots of the table\<close>

definition vrouter_add_nexthop :: "nh_ptr \<Rightarrow> nh_state \<Rightarrow> vr_ret \<times> nh_state" where
  "vrouter_add_nexthop nh s =
     (let i = nh_id (nh_heap s ! nh)
      in if vr_max_nexthops s \<le> i then (RetErr EINVAL, s)
         else case get_nexthop_raw i s of (old, s) \<Rightarrow>
                if old \<noteq> 0 then (RetOk, s)
                else set_nexthop_raw i nh (nh_upd nh (nh_users_update (\<lambda>u. u + 1)) s))"

text \<open>\<open>nh_del\<close>, the destructor of every nexthop.\<close>

definition nh_del :: "nh_ptr \<Rightarrow> nh_state \<Rightarrow> nh_state" where
  "nh_del nh s =
     (let i = nh_id (nh_heap s ! nh)
      in if vr_max_nexthops s \<le> i then s
         else vrouter_put_nexthop nh (snd (set_nexthop_raw i 0 s)))"

definition vr_nexthop_delete :: "u32 \<Rightarrow> nh_state \<Rightarrow> vr_ret \<times> nh_state" where
  "vr_nexthop_delete i s =
     (case vrouter_get_nexthop i s of (nh, s) \<Rightarrow>
        if nh = 0 then (RetErr EINVAL, s)
        else (RetOk, nh_del nh (vrouter_put_nexthop nh s)))"

section \<open>Adding a nexthop, by type\<close>

definition nh_resolve_add :: "nh_ptr \<Rightarrow> nh_state \<Rightarrow> vr_ret \<times> nh_state" where
  "nh_resolve_add nh s = (RetOk, nh_upd nh (nh_reach_nh_update (\<lambda>_. Rresolve)) s)"

definition nh_l2_rcv_add :: "nh_ptr \<Rightarrow> nh_state \<Rightarrow> vr_ret \<times> nh_state" where
  "nh_l2_rcv_add nh s = (RetOk, nh_upd nh (nh_reach_nh_update (\<lambda>_. Rl2_rcv)) s)"

definition nh_vrf_translate_add :: "nh_ptr \<Rightarrow> nh_state \<Rightarrow> vr_ret \<times> nh_state" where
  "nh_vrf_translate_add nh s = (RetOk, nh_upd nh (nh_reach_nh_update (\<lambda>_. Rvrf_translate)) s)"

definition nh_discard_add :: "nh_ptr \<Rightarrow> vr_nexthop_req \<Rightarrow> nh_state \<Rightarrow> vr_ret \<times> nh_state" where
  "nh_discard_add nh req s =
     (RetOk, nh_upd nh (\<lambda>n. n\<lparr>nh_family := nhr_family req, nh_type := NH_DISCARD,
                              nh_reach_nh := Rdiscard\<rparr>) s)"

definition nh_dev :: "vr_nexthop \<Rightarrow> vif_ptr" where
  "nh_dev n = nh_dev_arr n ! 0"

definition set_nh_dev :: "vif_ptr \<Rightarrow> vr_nexthop \<Rightarrow> vr_nexthop" where
  "set_nh_dev d n = n\<lparr>nh_dev_arr := (nh_dev_arr n)[0 := d]\<rparr>"

definition nh_rcv_add :: "nh_ptr \<Rightarrow> vr_nexthop_req \<Rightarrow> nh_state \<Rightarrow> vr_ret \<times> nh_state" where
  "nh_rcv_add nh req s =
     (let old_vif = nh_dev (nh_heap s ! nh)
      in case read_list 0 (nhr_encap_oif_id req) 0 s of (oif, s) \<Rightarrow>
         case vrouter_get_interface oif s of (vif, s) \<Rightarrow>
         case (if vif = 0 then (RetErr ENODEV, s)
               else let s = nh_upd nh (set_nh_dev vif) s
                    in (RetOk, if old_vif \<noteq> 0 then vrouter_put_interface old_vif s else s)) of (ret, s) \<Rightarrow>
           (ret, if nh_dev (nh_heap s ! nh) \<noteq> 0 then nh_upd nh (nh_reach_nh_update (\<lambda>_. Rl3_rcv)) s else s))"

text \<open>\<open>memcpy\<close> into the data that follow the nexthop: writing past their end is a fault.\<close>

definition copy_data :: "nh_ptr \<Rightarrow> u8 list \<Rightarrow> nh_state \<Rightarrow> nh_state" where
  "copy_data nh bs s =
     (if length bs \<le> length (nh_data (nh_heap s ! nh))
      then nh_upd nh (\<lambda>n. n\<lparr>nh_data := bs @ drop (length bs) (nh_data n)\<rparr>) s
      else s\<lparr>nh_fault := True\<rparr>)"

text \<open>Writing a member of the union.\<close>

definition use_layout :: "nh_layout \<Rightarrow> nh_ptr \<Rightarrow> nh_state \<Rightarrow> nh_state" where
  "use_layout l nh s =
     (if nh_layout (nh_heap s ! nh) = LNone \<or> nh_layout (nh_heap s ! nh) = l
      then nh_upd nh (nh_layout_update (\<lambda>_. l)) s
      else s\<lparr>nh_fault := True\<rparr>)"

text \<open>The device and the encapsulation of \<open>nh_encap_add\<close>, up to its label \<open>exit_add\<close>.\<close>

definition encap_set :: "nh_ptr \<Rightarrow> vr_nexthop_req \<Rightarrow> vif_ptr \<Rightarrow> nh_state \<Rightarrow> nh_state" where
  "encap_set nh req vif s =
     (let old_vif = nh_dev (nh_heap s ! nh);
          s = use_layout LEncap nh s;
          len = of_nat (length (nhr_encap req)) :: u16;
          s = nh_upd nh (\<lambda>n. n\<lparr>nh_encap_family := ucast (nhr_encap_family req), nh_encap_len := len\<rparr>) s;
          s = copy_data nh (take (unat len) (nhr_encap req)) s;
          s = nh_upd nh (set_nh_dev vif) s
      in if old_vif \<noteq> 0 then vrouter_put_interface old_vif s else s)"

definition encap_check :: "vr_nexthop_req \<Rightarrow> bool" where
  "encap_check req \<longleftrightarrow>
     (nhr_family req = AF_INET \<or> nhr_family req = AF_BRIDGE) \<and>
     \<not> (nhr_family req = AF_BRIDGE \<and> nhr_flags req AND NH_FLAG_MCAST \<noteq> 0) \<and>
     \<not> (nhr_family req = AF_INET \<and> nhr_flags req AND NH_FLAG_MCAST = 0 \<and> length (nhr_encap req) < VR_ETHER_ALEN)"

definition encap_reach :: "vr_nexthop_req \<Rightarrow> vr_nexthop \<Rightarrow> vr_nexthop" where
  "encap_reach req n =
     (if nh_dev n = 0 then n
      else n\<lparr>nh_validate_src := Vencap,
             nh_reach_nh := (if nhr_family req = AF_BRIDGE then Rencap_l2
                             else if nh_flags n AND NH_FLAG_MCAST \<noteq> 0 then Rencap_l3_mcast
                             else Rencap_l3)\<rparr>)"

definition nh_encap_add :: "nh_ptr \<Rightarrow> vr_nexthop_req \<Rightarrow> nh_state \<Rightarrow> vr_ret \<times> nh_state" where
  "nh_encap_add nh req s =
     (if \<not> encap_check req then (RetErr EINVAL, nh_upd nh (encap_reach req) s)
      else case read_list 0 (nhr_encap_oif_id req) 0 s of (oif, s) \<Rightarrow>
           case vrouter_get_interface oif s of (vif, s) \<Rightarrow>
             if vif = 0 then (RetErr EINVAL, nh_upd nh (encap_reach req) s)
             else (RetOk, nh_upd nh (encap_reach req) (encap_set nh req vif s)))"

text \<open>
  \<open>nh_composite_mcast_validate\<close>; the pointers of the components are read from the heap. The
  three checks are those for fabric, EVPN and TOR, for encapsulation and for multicast composites.
\<close>

definition mcast_fabric_ok :: "vr_nexthop_req \<Rightarrow> vr_nexthop \<Rightarrow> bool" where
  "mcast_fabric_ok req t \<longleftrightarrow>
     nh_type t = NH_TUNNEL \<and> nh_flags t AND NH_FLAG_TUNNEL_UDP = 0 \<and>
     (nhr_flags req AND NH_FLAG_COMPOSITE_TOR \<noteq> 0 \<longrightarrow> nh_flags t AND NH_FLAG_TUNNEL_VXLAN \<noteq> 0)"

definition mcast_encap_ok :: "vr_nexthop_req \<Rightarrow> vr_nexthop \<Rightarrow> bool" where
  "mcast_encap_ok req t \<longleftrightarrow>
     nh_type t = NH_ENCAP \<and>
     (case nh_family t of
        AF_INET \<Rightarrow> nhr_family req \<noteq> AF_BRIDGE \<and> nh_flags t AND NH_FLAG_MCAST \<noteq> 0
      | AF_BRIDGE \<Rightarrow> nhr_family req \<noteq> AF_INET \<and> nh_flags t AND NH_FLAG_MCAST = 0
      | _ \<Rightarrow> False)"

definition mcast_mcast_ok :: "vr_nexthop \<Rightarrow> bool" where
  "mcast_mcast_ok t \<longleftrightarrow>
     nh_type t = NH_COMPOSITE \<and>
     nh_flags t AND (NH_FLAG_COMPOSITE_FABRIC OR NH_FLAG_COMPOSITE_EVPN OR NH_FLAG_COMPOSITE_TOR OR
       NH_FLAG_COMPOSITE_ENCAP) \<noteq> 0"

definition nh_composite_mcast_validate :: "vr_nexthop list \<Rightarrow> vr_component_nh list \<Rightarrow> vr_nexthop_req \<Rightarrow> bool" where
  "nh_composite_mcast_validate h component_nh req =
     (let seen = (nhr_family req = AF_INET \<or> nhr_family req = AF_BRIDGE);
          ts = map (\<lambda>c. h ! cnh c) (filter (\<lambda>c. cnh c \<noteq> 0) component_nh)
      in (nhr_flags req AND (NH_FLAG_COMPOSITE_FABRIC OR NH_FLAG_COMPOSITE_EVPN OR NH_FLAG_COMPOSITE_TOR) \<noteq> 0 \<longrightarrow>
            seen \<and> list_all (mcast_fabric_ok req) ts) \<and>
         (nhr_flags req AND NH_FLAG_COMPOSITE_ENCAP \<noteq> 0 \<longrightarrow> list_all (mcast_encap_ok req) ts) \<and>
         (nhr_flags req AND NH_FLAG_MCAST \<noteq> 0 \<longrightarrow> seen \<and> list_all mcast_mcast_ok ts))"

definition NH_ECMP_CONFIG_HASH_BITS :: nat where "NH_ECMP_CONFIG_HASH_BITS = 5"
definition VR_FLOW_KEY_ALL :: u16 where "VR_FLOW_KEY_ALL = 0x1F"

text \<open>The bits of \<open>VR_FLOW_KEY_*\<close> that the bits of \<open>NH_ECMP_CONFIG_HASH_*\<close> stand for.\<close>

definition ecmp_hash_key :: "nat \<Rightarrow> u16" where
  "ecmp_hash_key i = [0x01, 0x02, 0x04, 0x08, 0x10] ! i"

definition nh_ecmp_store_ecmp_config_hash :: "vr_nexthop_req \<Rightarrow> vr_nexthop \<Rightarrow> vr_nexthop" where
  "nh_ecmp_store_ecmp_config_hash req n =
     (if nh_type n \<noteq> NH_COMPOSITE \<or> nh_flags n AND NH_FLAG_COMPOSITE_ECMP = 0 then n
      else if nhr_ecmp_config_hash req = 0
      then n\<lparr>nh_ecmp_config_hash := push_bit 8 VR_FLOW_KEY_ALL AND 0xFF00\<rparr>
      else let hash = nhr_ecmp_config_hash req AND (2 ^ NH_ECMP_CONFIG_HASH_BITS - 1);
               flow_hash = fold (\<lambda>i fh. if bit hash i then fh OR ecmp_hash_key i else fh)
                             [0..<NH_ECMP_CONFIG_HASH_BITS] 0
           in n\<lparr>nh_ecmp_config_hash := ucast hash OR (push_bit 8 flow_hash AND 0xFF00)\<rparr>)"

text \<open>The loop that looks the components up.\<close>

fun get_components :: "u32 \<Rightarrow> u32 list \<Rightarrow> int list \<Rightarrow> int \<Rightarrow> nh_state \<Rightarrow> vr_component_nh list \<times> nh_state" where
  "get_components flags (i # is) (l # ls) k s =
     (case vrouter_get_nexthop i s of (nh, s) \<Rightarrow>
      case get_components flags is ls (k + 1) s of (cs, s) \<Rightarrow>
        (\<lparr>cnh_label = l, cnh_ecmp_index = (if flags AND NH_FLAG_COMPOSITE_ECMP \<noteq> 0 then k else -1), cnh = nh\<rparr> # cs, s))"
| "get_components flags _ _ k s = ([], s)"

definition put_components :: "vr_component_nh list \<Rightarrow> nh_state \<Rightarrow> nh_state" where
  "put_components cs s = fold (\<lambda>c s. if cnh c \<noteq> 0 then vrouter_put_nexthop (cnh c) s else s) cs s"

text \<open>
  The first part of \<open>nh_composite_add\<close>: the components, the active ones among them for ECMP,
  and the error.
\<close>

definition composite_build ::
  "vr_nexthop_req \<Rightarrow> nh_state \<Rightarrow> (vr_ret \<times> vr_component_nh list \<times> vr_component_nh list) \<times> nh_state" where
  "composite_build req s =
     (if length (nhr_nh_list req) \<noteq> length (nhr_label_list req) then ((RetErr EINVAL, [], []), s)
      else if nhr_nh_list req = [] then ((RetOk, [], []), s)
      else case next_alloc s of (ok, s) \<Rightarrow>
        if \<not> ok then ((RetErr ENOMEM, [], []), s)
        else case get_components (nhr_flags req) (nhr_nh_list req) (nhr_label_list req) 0 s of (cs, s) \<Rightarrow>
          if \<not> nh_composite_mcast_validate (nh_heap s) cs req then ((RetErr EINVAL, cs, []), s)
          else if nhr_flags req AND NH_FLAG_COMPOSITE_ECMP = 0 then ((RetOk, cs, []), s)
          else let ecmp = filter (\<lambda>c. cnh c \<noteq> 0) cs
               in if ecmp = [] then ((RetOk, cs, []), s)
                  else case next_alloc s of (ok, s) \<Rightarrow>
                         if ok then ((RetOk, cs, ecmp), s) else ((RetErr ENOMEM, cs, []), s))"

text \<open>The handler the nexthop gets at the end of \<open>nh_composite_add\<close>; \<open>j\<close> is the number of active components.\<close>

definition composite_reach :: "vr_ret \<Rightarrow> vr_nexthop_req \<Rightarrow> nat \<Rightarrow> vr_nexthop \<Rightarrow> vr_nexthop" where
  "composite_reach ret req j n =
     (if nhr_flags req AND NH_FLAG_MCAST \<noteq> 0
      then n\<lparr>nh_reach_nh := Rcomposite_mcast, nh_validate_src := Vcomposite_mcast\<rparr>
      else if nhr_flags req AND NH_FLAG_COMPOSITE_ECMP \<noteq> 0
      then let n = n\<lparr>nh_reach_nh := Rcomposite_ecmp, nh_validate_src := Vcomposite_ecmp\<rparr>
           in if ret = RetOk
              then (nh_ecmp_store_ecmp_config_hash req n)\<lparr>nh_component_ecmp_cnt := of_nat j\<rparr> else n
      else if nhr_flags req AND NH_FLAG_COMPOSITE_FABRIC \<noteq> 0 then n\<lparr>nh_reach_nh := Rcomposite_fabric\<rparr>
      else if nhr_flags req AND NH_FLAG_COMPOSITE_EVPN \<noteq> 0 then n\<lparr>nh_reach_nh := Rcomposite_evpn\<rparr>
      else if nhr_flags req AND NH_FLAG_COMPOSITE_ENCAP \<noteq> 0 then n\<lparr>nh_reach_nh := Rcomposite_encap\<rparr>
      else if nhr_flags req AND NH_FLAG_COMPOSITE_TOR \<noteq> 0 then n\<lparr>nh_reach_nh := Rcomposite_tor\<rparr>
      else n)"

text \<open>
  The old components are given up one by one while the nexthop still points to them. The
  component count has 16 bits.
\<close>

definition nh_composite_add :: "nh_ptr \<Rightarrow> vr_nexthop_req \<Rightarrow> nh_state \<Rightarrow> vr_ret \<times> nh_state" where
  "nh_composite_add nh req s =
     (case composite_build req s of ((ret, cs, ecmp), s) \<Rightarrow>
        if ret \<noteq> RetOk then (ret, put_components cs (nh_upd nh (composite_reach ret req 0) s))
        else let s = use_layout LComposite nh s;
                 s = nh_upd nh (nh_validate_src_update (\<lambda>_. VNull)) s;
                 old = nh_component_nh (nh_heap s ! nh);
                 s = (if old = [] then s
                      else nh_upd nh (\<lambda>n. n\<lparr>nh_component_nh := [], nh_component_ecmp := [],
                             nh_component_ecmp_cnt := (if nh_component_ecmp n = [] then nh_component_ecmp_cnt n else 0)\<rparr>)
                             (put_components old s));
                 s = (if cs = [] then s
                      else nh_upd nh (\<lambda>n. n\<lparr>nh_component_nh := take (length cs mod 65536) cs,
                                            nh_component_ecmp := (if ecmp = [] then nh_component_ecmp n else ecmp)\<rparr>) s)
             in (RetOk, nh_upd nh (composite_reach RetOk req (length ecmp)) s))"

text \<open>\<open>nh_indirect_add\<close>\<close>

definition nh_indirect_add :: "nh_ptr \<Rightarrow> vr_nexthop_req \<Rightarrow> nh_state \<Rightarrow> vr_ret \<times> nh_state" where
  "nh_indirect_add nh req s =
     (let n = nh_heap s ! nh
      in if nh_type n \<noteq> NH_TUNNEL \<or> nh_flags n AND NH_FLAG_TUNNEL_PBB = 0 then (RetErr EINVAL, s)
         else if 1 < length (nhr_nh_list req) then (RetErr EINVAL, s)
         else case (if nhr_nh_list req = [] then (0, s) else vrouter_get_nexthop (hd (nhr_nh_list req)) s) of (direct_nh, s) \<Rightarrow>
           if nhr_nh_list req \<noteq> [] \<and> direct_nh = 0 then (RetErr EINVAL, s)
           else let old_nh = nh_direct_nh (nh_heap s ! nh);
                    s = nh_upd nh (nh_direct_nh_update (\<lambda>_. direct_nh)) s
                in (RetOk, if old_nh \<noteq> 0 then vrouter_put_nexthop old_nh s else s))"

section \<open>Tunnels\<close>

definition nh_tunnel_set_reach_nh :: "vr_nexthop \<Rightarrow> vr_nexthop" where
  "nh_tunnel_set_reach_nh n =
     (let dev = (if nh_flags n AND NH_FLAG_TUNNEL_UNDERLAY_ECMP \<noteq> 0
                 then \<exists>v\<in>set (nh_encap_valid n). v \<noteq> 0 else nh_dev n \<noteq> 0)
      in if nh_flags n AND NH_FLAG_TUNNEL_GRE \<noteq> 0 then (if dev then n\<lparr>nh_reach_nh := Rgre_tunnel\<rparr> else n)
         else if nh_flags n AND NH_FLAG_TUNNEL_UDP \<noteq> 0 then n\<lparr>nh_reach_nh := Rudp_tunnel\<rparr>
         else if nh_flags n AND NH_FLAG_TUNNEL_UDP_MPLS \<noteq> 0 then (if dev then n\<lparr>nh_reach_nh := Rmpls_udp_tunnel\<rparr> else n)
         else if nh_flags n AND NH_FLAG_TUNNEL_VXLAN \<noteq> 0 then (if dev then n\<lparr>nh_reach_nh := Rvxlan_tunnel\<rparr> else n)
         else if nh_flags n AND NH_FLAG_TUNNEL_PBB \<noteq> 0 then n\<lparr>nh_reach_nh := Rpbb_tunnel\<rparr>
         else n)"

text \<open>The devices of the underlay: the loop over the physical interfaces with ECMP, else the first one.\<close>

fun tunnel_underlay :: "nat list \<Rightarrow> nh_ptr \<Rightarrow> vr_nexthop_req \<Rightarrow> vif_ptr list \<Rightarrow> nh_state \<Rightarrow> vif_ptr list \<times> nh_state" where
  "tunnel_underlay [] nh req vif s = (vif, s)"
| "tunnel_underlay (i # is) nh req vif s =
     (case read_list 0 (nhr_encap_valid req) i s of (v, s) \<Rightarrow>
        let s = nh_upd nh (\<lambda>n. n\<lparr>nh_valid_underlay_dev := (nh_valid_underlay_dev n)[i := 0],
                                 nh_encap_valid := (nh_encap_valid n)[i := ucast v]\<rparr>) s
        in if (ucast v :: u8) \<noteq> 0
           then case read_list 0 (nhr_encap_oif_id req) i s of (oif, s) \<Rightarrow>
                case vrouter_get_interface oif s of (d, s) \<Rightarrow>
                  tunnel_underlay is nh req (vif[i := d])
                    (nh_upd nh (\<lambda>n. n\<lparr>nh_valid_underlay_dev :=
                         (nh_valid_underlay_dev n)[nh_valid_underlay_dev_count n := d],
                       nh_valid_underlay_dev_count := Suc (nh_valid_underlay_dev_count n)\<rparr>) s)
           else tunnel_underlay is nh req (vif[i := 0]) s)"

definition tunnel_vifs :: "nh_ptr \<Rightarrow> vr_nexthop_req \<Rightarrow> nh_state \<Rightarrow> vif_ptr list \<times> nh_state" where
  "tunnel_vifs nh req s =
     (let s = nh_upd nh (nh_valid_underlay_dev_count_update (\<lambda>_. 0)) s;
          vif = replicate VR_MAX_PHY_INF 0
      in if nh_flags (nh_heap s ! nh) AND NH_FLAG_TUNNEL_UNDERLAY_ECMP \<noteq> 0
         then tunnel_underlay [0..<VR_MAX_PHY_INF] nh req vif s
         else case read_list 0 (nhr_encap_oif_id req) 0 s of (oif, s) \<Rightarrow>
              case vrouter_get_interface oif s of (d, s) \<Rightarrow> (vif[0 := d], s))"

text \<open>The encapsulation length and the devices of a GRE, MPLS over UDP or VXLAN tunnel.\<close>

definition tunnel_set_devs :: "vr_nexthop_req \<Rightarrow> vif_ptr list \<Rightarrow> vr_nexthop \<Rightarrow> vr_nexthop" where
  "tunnel_set_devs req vif n =
     (if nh_flags n AND NH_FLAG_TUNNEL_UNDERLAY_ECMP \<noteq> 0
      then n\<lparr>nh_tun_encap_len := ucast (nhr_encap_len req),
             nh_dev_arr := map2 (\<lambda>v d. if v \<noteq> 0 then d else 0) (nh_encap_valid n) vif\<rparr>
      else set_nh_dev (vif ! 0) (n\<lparr>nh_tun_encap_len := of_nat (length (nhr_encap req))\<rparr>))"

definition tunnel_set_ips :: "vr_nexthop_req \<Rightarrow> vr_nexthop \<Rightarrow> vr_nexthop" where
  "tunnel_set_ips req n = n\<lparr>nh_tun_sip := nhr_tun_sip req, nh_tun_dip := nhr_tun_dip req\<rparr>"

definition tunnel_set_label :: "vr_nexthop_req \<Rightarrow> vr_nexthop \<Rightarrow> vr_nexthop" where
  "tunnel_set_label req n =
     (if nh_flags n AND NH_FLAG_TUNNEL_MPLS_O_MPLS \<noteq> 0 then n\<lparr>nh_tun_label := nhr_transport_label req\<rparr> else n)"

text \<open>How a branch of \<open>nh_tunnel_add\<close> ends: at the end of the function, at one of its labels, or with a return.\<close>

datatype tun_end = TunDone | TunExitAdd errno | TunExitError errno | TunReturn errno

definition tunnel_udp6 :: "nh_ptr \<Rightarrow> vr_nexthop_req \<Rightarrow> nh_state \<Rightarrow> tun_end \<times> nh_state" where
  "tunnel_udp6 nh req s =
     (let s = use_layout LUdp6 nh s in
      case (if nh_tun_sip6 (nh_heap s ! nh) = [] then next_alloc s else (True, s)) of (ok, s) \<Rightarrow>
        if \<not> ok then (TunExitError ENOMEM, s)
        else let s = nh_upd nh (nh_tun_sip6_update (\<lambda>_. nhr_tun_sip6 req)) s in
        case (if nh_tun_dip6 (nh_heap s ! nh) = [] then next_alloc s else (True, s)) of (ok, s) \<Rightarrow>
          if \<not> ok then (TunExitError ENOMEM, s)
          else (TunDone, nh_upd nh (\<lambda>n. n\<lparr>nh_tun_dip6 := nhr_tun_dip6 req,
                 nh_tun_sport := nhr_tun_sport req, nh_tun_dport := nhr_tun_dport req,
                 nh_tun_encap_len := of_nat (length (nhr_encap req))\<rparr>) s))"

definition tunnel_set ::
  "nh_ptr \<Rightarrow> vr_nexthop_req \<Rightarrow> vif_ptr list \<Rightarrow> vif_ptr \<Rightarrow> nh_state \<Rightarrow> tun_end \<times> nh_state" where
  "tunnel_set nh req vif crypt_vif s =
     (let flags = nh_flags (nh_heap s ! nh);
          no_vif = (\<forall>d\<in>set vif. d = 0)
      in if flags AND NH_FLAG_TUNNEL_GRE \<noteq> 0 then
           if no_vif then (TunExitAdd ENODEV, s)
           else (TunDone, nh_upd nh (\<lambda>n. (tunnel_set_label req (tunnel_set_devs req vif (tunnel_set_ips req n)))
                   \<lparr>nh_validate_src := Vgre_tunnel\<rparr>) (use_layout LGre nh s))
         else if flags AND NH_FLAG_TUNNEL_UDP \<noteq> 0 then
           (case (if nhr_family req = AF_INET then
                    (TunDone, nh_upd nh (\<lambda>n. (tunnel_set_ips req n)
                       \<lparr>nh_tun_sport := nhr_tun_sport req, nh_tun_dport := nhr_tun_dport req,
                        nh_tun_encap_len := of_nat (length (nhr_encap req))\<rparr>) (use_layout LUdp nh s))
                  else if nhr_family req = AF_INET6 then tunnel_udp6 nh req s
                  else (TunExitError EINVAL, s)) of (e, s) \<Rightarrow>
              (e, if e = TunDone then put_interfaces vif s else s))
         else if flags AND NH_FLAG_TUNNEL_UDP_MPLS \<noteq> 0 then
           if no_vif then (TunExitAdd ENODEV, s)
           else (TunDone, nh_upd nh (\<lambda>n. (tunnel_set_label req (tunnel_set_devs req vif (tunnel_set_ips req n)))
                   \<lparr>nh_validate_src := Vmpls_udp_tunnel\<rparr>) (use_layout LUdp nh s))
         else if flags AND NH_FLAG_TUNNEL_VXLAN \<noteq> 0 then
           if no_vif then (TunExitAdd ENODEV, s)
           else let s = nh_upd nh (\<lambda>n. (tunnel_set_devs req vif (tunnel_set_ips req n))
                          \<lparr>nh_validate_src := Vvxlan_tunnel\<rparr>) (use_layout LVxlan nh s)
                in if flags AND NH_FLAG_L3_VXLAN \<noteq> 0 then
                     if length (nhr_rw_dst_mac req) \<noteq> VR_ETHER_ALEN \<or> IS_MAC_ZERO (nhr_rw_dst_mac req)
                     then (TunExitAdd EINVAL, s)
                     else (TunDone, nh_upd nh (nh_tun_l3_mac_update (\<lambda>_. nhr_rw_dst_mac req)) s)
                   else (TunDone, s)
         else if flags AND NH_FLAG_TUNNEL_PBB \<noteq> 0 then
           if flags AND NH_FLAG_INDIRECT = 0 then (TunExitAdd EINVAL, s)
           else if length (nhr_pbb_mac req) \<noteq> VR_ETHER_ALEN \<or> IS_MAC_ZERO (nhr_pbb_mac req)
           then (TunExitAdd EINVAL, s)
           else (TunDone, put_interfaces vif
                   (nh_upd nh (\<lambda>n. n\<lparr>nh_pbb_label := (case nhr_label_list req of [] \<Rightarrow> -1 | l # _ \<Rightarrow> l),
                                     nh_pbb_mac := nhr_pbb_mac req, nh_validate_src := Vpbb_tunnel\<rparr>)
                     (use_layout LPbb nh s)))
         else (TunReturn EINVAL, put_interfaces [crypt_vif] (put_interfaces vif s)))"

definition nh_tunnel_add :: "nh_ptr \<Rightarrow> vr_nexthop_req \<Rightarrow> nh_state \<Rightarrow> vr_ret \<times> nh_state" where
  "nh_tunnel_add nh req s =
     (let no_addr = (if nhr_family req = AF_INET6 then nhr_tun_sip6 req = [] \<or> nhr_tun_dip6 req = []
                     else nhr_family req = AF_INET \<and> (nhr_tun_sip req = 0 \<or> nhr_tun_dip req = 0))
      in if no_addr then (RetErr EINVAL, nh_upd nh nh_tunnel_set_reach_nh s)
         else let old_vif = nh_dev_arr (nh_heap s ! nh)
              in case tunnel_vifs nh req s of (vif, s) \<Rightarrow>
                 let old_crypt_vif = nh_crypt_dev (nh_heap s ! nh) in
                 case vrouter_get_interface (nhr_encap_crypt_oif_id req) s of (crypt_vif, s) \<Rightarrow>
                 let s = nh_upd nh (nh_crypt_dev_update (\<lambda>_. crypt_vif)) s;
                     s = put_interfaces [old_crypt_vif] s
                 in (case tunnel_set nh req vif crypt_vif s of
                      (TunDone, s) \<Rightarrow>
                        (RetOk, nh_upd nh nh_tunnel_set_reach_nh (put_interfaces old_vif (copy_data nh (nhr_encap req) s)))
                    | (TunExitAdd e, s) \<Rightarrow> (RetErr e, nh_upd nh nh_tunnel_set_reach_nh s)
                    | (TunExitError e, s) \<Rightarrow> (RetErr e, s)
                    | (TunReturn e, s) \<Rightarrow> (RetErr e, s)))"

section \<open>Requests to add and to change\<close>

definition vr_nexthop_valid_request :: "vr_nexthop_req \<Rightarrow> nh_state \<Rightarrow> bool" where
  "vr_nexthop_valid_request req s \<longleftrightarrow>
     nhr_id req < vr_max_nexthops s \<and> (word_of_int (nhr_type req) :: u32) < of_nat NH_MAX"

text \<open>\<open>vr_nexthop_size\<close>: the bytes after the structure.\<close>

definition vr_nexthop_size :: "vr_nexthop_req \<Rightarrow> nat" where
  "vr_nexthop_size req =
     (if nexthop_type_of (nhr_type req) = NH_ENCAP \<or> nexthop_type_of (nhr_type req) = NH_TUNNEL
      then length (nhr_encap req) else 0)"

definition vr_nexthop_valid_change :: "vr_nexthop_req \<Rightarrow> vr_nexthop \<Rightarrow> bool" where
  "vr_nexthop_valid_change req n \<longleftrightarrow>
     nhr_flags req AND NH_FLAG_VALID = 0 \<or>
     nexthop_type_of (nhr_type req) = nh_type n \<and>
     (length (nhr_encap req) = 0 \<or> length (nhr_encap req) = unat (nh_data_size n)) \<and>
     nhr_flags req AND NH_FLAG_INDIRECT = nh_flags n AND NH_FLAG_INDIRECT"

definition zero_nexthop :: "nat \<Rightarrow> vr_nexthop" where
  "zero_nexthop len =
     \<lparr>nh_type = NH_DEAD, nh_family = AF_UNSPEC, nh_data_size = of_nat len, nh_flags = 0, nh_vrf = 0,
      nh_id = 0, nh_rid = 0, nh_users = 0, nh_encap_family = 0, nh_encap_len = 0, nh_component_nh = [],
      nh_component_ecmp = [], nh_component_ecmp_cnt = 0, nh_ecmp_config_hash = 0, nh_direct_nh = 0,
      nh_validate_src = VNull, nh_reach_nh = RNull, nh_dev_arr = replicate VR_MAX_PHY_INF 0,
      nh_crypt_dev = 0, nh_encap_valid = replicate VR_MAX_PHY_INF 0,
      nh_valid_underlay_dev = replicate VR_MAX_PHY_INF 0, nh_valid_underlay_dev_count = 0,
      nh_layout = LNone, nh_tun_sip = 0, nh_tun_dip = 0, nh_tun_sport = 0, nh_tun_dport = 0,
      nh_tun_encap_len = 0, nh_tun_label = 0, nh_tun_l3_mac = replicate VR_ETHER_ALEN 0,
      nh_tun_sip6 = [], nh_tun_dip6 = [], nh_pbb_label = 0, nh_pbb_mac = replicate VR_ETHER_ALEN 0,
      nh_data = replicate len 0\<rparr>"

text \<open>\<open>vr_zalloc\<close> of a nexthop; NULL when it fails.\<close>

definition nh_zalloc :: "nat \<Rightarrow> nh_state \<Rightarrow> nh_ptr \<times> nh_state" where
  "nh_zalloc len s =
     (case next_alloc s of (ok, s) \<Rightarrow>
        if ok then (length (nh_heap s), s\<lparr>nh_heap := nh_heap s @ [zero_nexthop len]\<rparr>) else (0, s))"

text \<open>The types whose nexthops use a member of the union.\<close>

definition layout_type_ok :: "nh_layout \<Rightarrow> nexthop_type \<Rightarrow> bool" where
  "layout_type_ok l t \<longleftrightarrow>
     (case l of LNone \<Rightarrow> True | LEncap \<Rightarrow> t = NH_ENCAP | LComposite \<Rightarrow> t = NH_COMPOSITE | _ \<Rightarrow> t = NH_TUNNEL)"

text \<open>The fields \<open>vr_nexthop_add\<close> sets for every type.\<close>

definition nh_set_common :: "vr_nexthop_req \<Rightarrow> bool \<Rightarrow> vr_nexthop \<Rightarrow> vr_nexthop" where
  "nh_set_common req invalid_to_valid n =
     n\<lparr>nh_reach_nh := Rdiscard, nh_type := nexthop_type_of (nhr_type req), nh_family := nhr_family req,
       nh_id := nhr_id req, nh_rid := nhr_rid req, nh_vrf := nhr_vrf req, nh_direct_nh := 0,
       nh_flags := (if invalid_to_valid then nhr_flags req AND NOT NH_FLAG_VALID else nhr_flags req)\<rparr>"

definition nh_type_add :: "nh_ptr \<Rightarrow> vr_nexthop_req \<Rightarrow> nh_state \<Rightarrow> vr_ret \<times> nh_state" where
  "nh_type_add nh req s =
     (case nh_type (nh_heap s ! nh) of
        NH_ENCAP \<Rightarrow> nh_encap_add nh req s
      | NH_TUNNEL \<Rightarrow> nh_tunnel_add nh req s
      | NH_RCV \<Rightarrow> nh_rcv_add nh req s
      | NH_L2_RCV \<Rightarrow> nh_l2_rcv_add nh s
      | NH_RESOLVE \<Rightarrow> nh_resolve_add nh s
      | NH_DISCARD \<Rightarrow> nh_discard_add nh req s
      | NH_COMPOSITE \<Rightarrow> nh_composite_add nh req s
      | NH_VRF_TRANSLATE \<Rightarrow> nh_vrf_translate_add nh s
      | NH_DEAD \<Rightarrow> (RetErr EINVAL, s))"

definition nh_cook :: "nh_ptr \<Rightarrow> vr_nexthop_req \<Rightarrow> nh_state \<Rightarrow> vr_ret \<times> nh_state" where
  "nh_cook nh req s =
     (if nhr_flags req AND NH_FLAG_VALID = 0 then (RetOk, s)
      else case (if nh_flags (nh_heap s ! nh) AND NH_FLAG_INDIRECT \<noteq> 0 then nh_indirect_add nh req s
                 else (RetOk, s)) of (ret, s) \<Rightarrow>
             if ret \<noteq> RetOk then (ret, s) else nh_type_add nh req s)"

text \<open>
  \<open>vr_nexthop_add\<close>: the end of the function, from the switch over the types on.
  \<open>off\<close> is what the offload driver returns.
\<close>

definition nh_add_finish ::
  "(nh_ptr \<Rightarrow> vr_ret) \<Rightarrow> vr_nexthop_req \<Rightarrow> nh_ptr \<Rightarrow> bool \<Rightarrow> bool \<Rightarrow> nh_state \<Rightarrow> vr_ret \<times> nh_state" where
  "nh_add_finish off req nh change invalid_to_valid s =
     (case nh_cook nh req s of (ret, s) \<Rightarrow>
        if ret \<noteq> RetOk then (ret, if change then s else nh_del nh s)
        else let s = (if invalid_to_valid then nh_upd nh (nh_flags_update (\<lambda>f. f OR NH_FLAG_VALID)) s else s)
             in case vrouter_add_nexthop nh s of (ret, s) \<Rightarrow>
                  if ret \<noteq> RetOk then (ret, nh_del nh s)
                  else if off nh \<noteq> RetOk then (off nh, nh_del nh s) else (RetOk, s))"

text \<open>
  A change of type leaves the union in the layout of the old type, which the code then reads
  under the new one: a fault.
\<close>

definition vr_nexthop_add :: "(nh_ptr \<Rightarrow> vr_ret) \<Rightarrow> vr_nexthop_req \<Rightarrow> nh_state \<Rightarrow> vr_ret \<times> nh_state" where
  "vr_nexthop_add off req s =
     (if \<not> vr_nexthop_valid_request req s then (RetErr EINVAL, s)
      else case get_nexthop_raw (nhr_id req) s of (nh, s) \<Rightarrow>
        if nh = 0 then
          (case nh_zalloc (vr_nexthop_size req) s of (nh, s) \<Rightarrow>
             if nh = 0 then (RetErr ENOMEM, s)
             else nh_add_finish off req nh False False (nh_upd nh (nh_set_common req False) s))
        else let n = nh_heap s ! nh
             in if \<not> vr_nexthop_valid_change req n then (RetErr EINVAL, s)
                else let i2v = (nhr_flags req AND NH_FLAG_VALID \<noteq> 0 \<and> nh_flags n AND NH_FLAG_VALID = 0);
                         s = nh_upd nh (nh_set_common req i2v) s;
                         s = (if layout_type_ok (nh_layout n) (nexthop_type_of (nhr_type req)) then s
                              else s\<lparr>nh_fault := True\<rparr>)
                     in nh_add_finish off req nh True i2v s)"

section \<open>Setting the table up and tearing it down\<close>

definition nh_allocate_discard :: "nh_state \<Rightarrow> vr_ret \<times> nh_state" where
  "nh_allocate_discard s =
     (case nh_zalloc 0 s of (nh, s) \<Rightarrow>
        let s = s\<lparr>ip4_default_nh := nh\<rparr>
        in if nh = 0 then (RetErr ENOMEM, s)
           else vrouter_add_nexthop nh
                  (nh_upd nh (\<lambda>n. n\<lparr>nh_id := NH_DISCARD_ID, nh_type := NH_DISCARD, nh_reach_nh := Rdiscard,
                                    nh_flags := NH_FLAG_VALID, nh_family := AF_INET\<rparr>) s))"

text \<open>
  \<open>nh_table_init\<close>: the table holds pointers of 8 bytes; \<open>zok\<close> and \<open>page\<close> are the outcomes of its
  allocations, and the pages come zeroed. \<open>nmax\<close> is the configured number of nexthops.
\<close>

definition nh_table_init :: "bool \<Rightarrow> (nat \<Rightarrow> chunk option) \<Rightarrow> u32 \<Rightarrow> nh_state \<Rightarrow> vr_ret \<times> nh_state" where
  "nh_table_init zok page nmax s =
     (let s1 = (if vr_max_nexthops s \<noteq> 0 then s
                else s\<lparr>vr_max_nexthops := nmax, vr_nexthops := vr_btable_alloc zok page nmax 8, nh_cells := \<lambda>_. 0\<rparr>)
      in if vr_max_nexthops s = 0 \<and> vr_nexthops s1 = None then (RetErr ENOMEM, s1)
         else if ip4_default_nh s1 = 0 then nh_allocate_discard s1
         else (RetOk, s1))"

text \<open>The loop of \<open>nh_table_exit\<close> over the nexthop ids.\<close>

definition nh_exit1 :: "bool \<Rightarrow> nat \<Rightarrow> nh_state \<Rightarrow> nh_state" where
  "nh_exit1 soft_reset i s =
     (if soft_reset \<and> of_nat i = NH_DISCARD_ID then s
      else case get_nexthop_raw (of_nat i) s of (nh, s) \<Rightarrow> if nh = 0 then s else nh_del nh s)"

definition nh_table_exit :: "bool \<Rightarrow> nh_state \<Rightarrow> nh_state" where
  "nh_table_exit soft_reset s =
     (if vr_nexthops s = None then s
      else let s = fold (nh_exit1 soft_reset) [0..<unat (vr_max_nexthops s)] s
           in if soft_reset then s
              else s\<lparr>ip4_default_nh := 0, vr_max_nexthops := 0, vr_nexthops := None\<rparr>)"

end
