(* ===== verification/VR_Nexthop_Inv.thy ===== *)
theory VR_Nexthop_Inv
  imports VR_Nexthop_Ops
begin

text \<open>
  The operations on the nexthop table keep the invariant of the reference counts: whatever
  sequence of requests is served, a nexthop that is referenced from the table, from another
  nexthop or from outside is not released.
\<close>

section \<open>Room in the reference counts\<close>

text \<open>Every reference count can grow by \<open>n\<close> without wrapping around.\<close>

definition nh_room :: "nh_state \<Rightarrow> nat \<Rightarrow> bool" where
  "nh_room s n \<longleftrightarrow> (\<forall>p<length (nh_heap s). unat (nh_users (nh_heap s ! p)) + n < 2 ^ 32)"

lemma nh_room_mono: "nh_room s n \<Longrightarrow> m \<le> n \<Longrightarrow> nh_room s m"
  unfolding nh_room_def by (meson add_le_mono le_refl order_le_less_trans)

lemma nh_upd_users:
  assumes "\<And>n. unat (nh_users (f n)) \<le> unat (nh_users n)"
  shows "unat (nh_users (nh_heap (nh_upd p f s) ! q)) \<le> unat (nh_users (nh_heap s ! q))"
  using assms by (cases "p < length (nh_heap s)") (auto simp: nth_list_update_if list_update_beyond)

lemma nh_put1_users:
  assumes "nh_put1 p s = (w, s')"
  shows "unat (nh_users (nh_heap s' ! q)) \<le> unat (nh_users (nh_heap s ! q))"
proof -
  let ?s1 = "nh_upd p (nh_users_update (\<lambda>u. if u = 0 then 0 else u - 1)) s"
  have 1: "unat (nh_users (nh_heap ?s1 ! q)) \<le> unat (nh_users (nh_heap s ! q))"
    by (rule nh_upd_users) (simp add: unat_minus_one)
  have "unat (nh_users (nh_heap (nh_upd p nh_unlink ?s1) ! q)) \<le> unat (nh_users (nh_heap ?s1 ! q))"
    by (rule nh_upd_users) (simp add: nh_unlink_def)
  note 2 = order_trans [OF this 1]
  have "s' = ?s1 \<or> s' = nh_upd p nh_unlink ?s1"
    using assms by (auto simp: nh_put1_def Let_def split: if_splits)
  then show ?thesis by (elim disjE) (simp_all only: 1 2)
qed

lemma nh_run_users: "unat (nh_users (nh_heap (nh_run w s) ! q)) \<le> unat (nh_users (nh_heap s ! q))"
proof (induction w s rule: nh_run.induct)
  case (2 p w s)
  then show ?case
    by (auto simp: nh_run.simps split: prod.split intro: order_trans [OF _ nh_put1_users])
qed (simp_all add: nh_run.simps nh_release_users)

lemma nh_room_put: "nh_room s n \<Longrightarrow> nh_room (vrouter_put_nexthop p s) n"
  using nh_static_length [OF nh_static_put [of p s]] nh_run_users [of "[NhPut p]" s]
  unfolding nh_room_def vrouter_put_nexthop_def by (metis add_le_mono1 order_le_less_trans)

lemma nh_inv_less:
  assumes "nh_inv s ext" "\<And>p. ext' p \<le> ext p"
  shows "nh_inv s ext'"
proof -
  have "ext p = 0 \<Longrightarrow> ext' p = 0" for p using assms(2) [of p] by simp
  moreover have "a + ext p \<le> b \<Longrightarrow> a + ext' p \<le> b" for p a b using assms(2) [of p] by simp
  ultimately show ?thesis using assms(1) unfolding nh_inv_def by auto
qed

lemma nh_inv_invalid:
  assumes "nh_inv s ext" "q = 0 \<or> length (nh_heap s) \<le> q"
  shows "nh_links (nh_heap s) q = 0 \<and> ext q = 0"
proof -
  have "\<forall>p. p = 0 \<or> length (nh_heap s) \<le> p \<longrightarrow> nh_links (nh_heap s) p = 0 \<and> ext p = 0"
    using assms(1) unfolding nh_inv_def by (elim conjE)
  from this [rule_format, OF assms(2)] show ?thesis .
qed

lemma fst_get_nexthop: "fst (vrouter_get_nexthop i s) = nh_tbl s i"
  by (auto simp: vrouter_get_nexthop_def nh_tbl_def split: prod.splits)

lemma nh_inv_slot:
  assumes "nh_inv s ext" "i < vr_max_nexthops s"
  obtains a where "nh_slot s i = Some a" "nh_tbl s i = nh_cells s a" "get_nexthop_raw i s = (nh_tbl s i, s)"
proof -
  obtain t where t: "vr_nexthops s = Some t" "btable_wf t" "vb_entries t = vr_max_nexthops s"
    using assms(1) by (auto simp: nh_inv_def nh_table_ok_def)
  obtain a where "vr_btable_get t i = Some a" using vr_btable_get_eq(1) [OF t(2), of i] t(3) assms(2) by auto
  then show thesis using t assms(2) by (intro that [of a]) (auto simp: nh_slot_def nh_tbl_def get_nexthop_raw_def)
qed

lemma get_nexthop_raw_inv: "nh_inv s ext \<Longrightarrow> get_nexthop_raw i s = (nh_tbl s i, s)"
  by (cases "i < vr_max_nexthops s", erule (1) nh_inv_slot) (simp_all add: nh_tbl_def get_nexthop_raw_def not_less)

lemma get_nexthop_null:
  assumes "nh_inv s ext" "vrouter_get_nexthop i s = (0, s')"
  shows "s' = s" "nh_tbl s i = 0"
  using assms(2) get_nexthop_raw_inv [OF assms(1), of i] by (auto simp: vrouter_get_nexthop_def split: if_splits)

lemma nh_room_get:
  assumes inv: "nh_inv s ext" and room: "nh_room s (Suc n)" and r: "vrouter_get_nexthop i s = (p, s')" and p: "p \<noteq> 0"
  shows "nh_inv s' (\<lambda>q. ext q + of_bool (q = p))" "nh_room s' n" "p < length (nh_heap s)"
proof -
  show len: "p < length (nh_heap s)"
    using inv r p fst_get_nexthop [of i s] by (auto simp: nh_inv_def nh_table_ok_def)
  then have u: "unat (nh_users (nh_heap s ! p)) + Suc n < 2 ^ 32" using room by (simp add: nh_room_def)
  then have ne: "nh_users (nh_heap s ! p) + 1 \<noteq> 0"
    by (auto simp: eq_neg_iff_add_eq_0 [symmetric] unsigned_minus_1_eq_mask mask_eq_exp_minus_1)
  note get = nh_inv_get [OF inv r p ne]
  have "unat (nh_users (nh_heap s ! p) + 1) = Suc (unat (nh_users (nh_heap s ! p)))"
    using ne by (metis Suc_eq_plus1 add.commute unatSuc)
  then have "unat (nh_users (nh_heap s' ! q)) + n < 2 ^ 32" if "q < length (nh_heap s)" for q
    using room u len that unfolding nh_room_def get(4) by (cases "q = p") fastforce+
  then show "nh_room s' n" by (simp add: nh_room_def get(4))
  have "ext(p := Suc (ext p)) = (\<lambda>q. ext q + of_bool (q = p))" by auto
  with get(1) show "nh_inv s' (\<lambda>q. ext q + of_bool (q = p))" by simp
qed

lemma nh_inv_put1:
  assumes "nh_inv s (\<lambda>q. ext q + of_bool (q = p))"
  shows "nh_inv (vrouter_put_nexthop p s) ext"
proof -
  have "(\<lambda>q. ext q + of_bool (q = p))(p := ext p + of_bool (p = p) - 1) = ext" by auto
  then show ?thesis using nh_inv_put [OF assms, of p] by simp
qed

section \<open>Changing one nexthop\<close>

lemma nh_tbl_upd [simp]: "nh_tbl (nh_upd p f s) = nh_tbl s"
  by (simp add: nh_tbl_def get_nexthop_raw_def nh_slot_def nh_upd_def fun_eq_iff split: option.split)

text \<open>
  The change of a nexthop may move its pointers between the links and the outside references.
\<close>

lemma nh_inv_upd:
  assumes inv: "nh_inv s ext" and p: "p < length (nh_heap s)"
    and id: "nh_id (f (nh_heap s ! p)) = nh_id (nh_heap s ! p) \<or> (\<forall>i. nh_tbl s i \<noteq> p)"
    and u: "nh_users (f (nh_heap s ! p)) = nh_users (nh_heap s ! p)"
    and out: "\<And>q. count_list (nh_out (f (nh_heap s ! p))) q + ext' q \<le> count_list (nh_out (nh_heap s ! p)) q + ext q"
  shows "nh_inv (nh_upd p f s) ext'"
proof -
  let ?s = "nh_upd p f s"
  have l: "nh_links (nh_heap ?s) q + ext' q \<le> nh_links (nh_heap s) q + ext q" for q
    using nh_links_update [OF p, of "f (nh_heap s ! p)" q] out [of q] by simp
  have users: "nh_users (nh_heap ?s ! q) = nh_users (nh_heap s ! q)" for q
    using p u by (auto simp: nth_list_update_if)
  have in_tbl: "nh_in_tbl ?s q = nh_in_tbl s q" for q
    using id p by (auto simp: nh_in_tbl_def nth_list_update_if)
  have tok: "nh_table_ok ?s"
    using inv id p by (auto simp: nh_inv_def nh_table_ok_def nth_list_update_if)
  have "nh_in_tbl ?s q + nh_links (nh_heap ?s) q + ext' q \<le> unat (nh_users (nh_heap ?s ! q))"
    if "q < length (nh_heap s)" for q
    unfolding users in_tbl using nh_inv_users_le [OF inv that] l [of q] by linarith
  moreover have "nh_links (nh_heap ?s) q = 0 \<and> ext' q = 0" if "q = 0 \<or> length (nh_heap s) \<le> q" for q
    using that inv l [of q] unfolding nh_inv_def by (metis add_is_0 le_zero_eq)
  ultimately show ?thesis using inv users tok unfolding nh_inv_def by simp
qed

lemma nh_inv_upd_same:
  assumes "nh_inv s ext"
    and "\<And>n. nh_id (f n) = nh_id n" "\<And>n. nh_users (f n) = nh_users n" "\<And>n. nh_out (f n) = nh_out n"
  shows "nh_inv (nh_upd p f s) ext"
proof (cases "p < length (nh_heap s)")
  case False
  then have "nh_upd p f s = s" by (simp add: nh_upd_def list_update_beyond)
  then show ?thesis using assms(1) by simp
qed (use assms in \<open>auto intro!: nh_inv_upd\<close>)

lemma nh_tbl_cong:
  "vr_nexthops s' = vr_nexthops s \<Longrightarrow> vr_max_nexthops s' = vr_max_nexthops s \<Longrightarrow> nh_cells s' = nh_cells s \<Longrightarrow>
   nh_tbl s' = nh_tbl s"
  by (simp add: nh_tbl_def get_nexthop_raw_def nh_slot_def fun_eq_iff split: option.split)

lemma nh_inv_cong:
  assumes "nh_inv s ext" "vr_nexthops s' = vr_nexthops s" "vr_max_nexthops s' = vr_max_nexthops s"
    "nh_cells s' = nh_cells s" "nh_heap s' = nh_heap s" "nh_defer s' = nh_defer s" "nh_freed s' = nh_freed s"
    "nh_fault s' = nh_fault s"
  shows "nh_inv s' ext"
proof -
  have "nh_tbl s' = nh_tbl s" by (rule nh_tbl_cong [OF assms(2-4)])
  then show ?thesis using assms by (simp add: nh_inv_def nh_table_ok_def nh_in_tbl_def)
qed

section \<open>The slots of the table\<close>

lemma set_nexthop_raw_tbl:
  assumes inv: "nh_inv s ext" and i: "i < vr_max_nexthops s"
  shows "fst (set_nexthop_raw i p s) = RetOk" "nh_tbl (snd (set_nexthop_raw i p s)) = (nh_tbl s)(i := p)"
proof -
  obtain t where t: "vr_nexthops s = Some t" "btable_wf t" "distinct (vb_mem t)" "vb_entries t = vr_max_nexthops s"
    using inv by (auto simp: nh_inv_def nh_table_ok_def)
  obtain a where a: "nh_slot s i = Some a" by (rule nh_inv_slot [OF inv i])
  then show "fst (set_nexthop_raw i p s) = RetOk" by (simp add: set_nexthop_raw_def)
  have ga: "vr_btable_get t i = Some a" using a t(1) by (simp add: nh_slot_def)
  have e: "0 < unat (vb_esize t)" using t(2) by (auto simp: btable_wf_def intro: gr0I)
  have ne: "a' \<noteq> a" if "vr_btable_get t j = Some a'" "j \<noteq> i" for j a'
    using vr_btable_get_disjoint [OF t(2,3) that(2), of "fst a'" "snd a'" "snd a"] that(1) ga e by auto
  show "nh_tbl (snd (set_nexthop_raw i p s)) = (nh_tbl s)(i := p)"
  proof
    fix j
    show "nh_tbl (snd (set_nexthop_raw i p s)) j = ((nh_tbl s)(i := p)) j"
      using a ga ne [of j] t(1) i
      by (auto simp: set_nexthop_raw_def nh_tbl_def get_nexthop_raw_def nh_slot_def split: option.split)
  qed
qed

lemma set_nexthop_raw_frame:
  "nh_heap (snd (set_nexthop_raw i p s)) = nh_heap s" "nh_defer (snd (set_nexthop_raw i p s)) = nh_defer s"
  "nh_freed (snd (set_nexthop_raw i p s)) = nh_freed s" "nh_fault (snd (set_nexthop_raw i p s)) = nh_fault s"
  "vr_nexthops (snd (set_nexthop_raw i p s)) = vr_nexthops s"
  "vr_max_nexthops (snd (set_nexthop_raw i p s)) = vr_max_nexthops s"
  by (auto simp: set_nexthop_raw_def split: option.split)

text \<open>Emptying a slot leaves the reference of the table with the caller.\<close>

lemma nh_inv_clear_slot:
  assumes inv: "nh_inv s ext" and i: "i < vr_max_nexthops s"
  shows "nh_inv (snd (set_nexthop_raw i 0 s)) (\<lambda>q. ext q + of_bool (q \<noteq> 0 \<and> q = nh_tbl s i))"
proof -
  let ?s = "snd (set_nexthop_raw i 0 s)"
  note tbl = set_nexthop_raw_tbl(2) [OF inv i, of 0]
  have tok: "nh_table_ok ?s"
    using inv unfolding nh_inv_def nh_table_ok_def tbl set_nexthop_raw_frame by auto
  have "nh_in_tbl ?s q + of_bool (q \<noteq> 0 \<and> q = nh_tbl s i) \<le> nh_in_tbl s q" for q
    using inv by (auto simp: nh_in_tbl_def tbl set_nexthop_raw_frame nh_inv_def nh_table_ok_def)
  then have "nh_in_tbl ?s q + nh_links (nh_heap s) q + (ext q + of_bool (q \<noteq> 0 \<and> q = nh_tbl s i)) \<le> unat (nh_users (nh_heap s ! q))"
    if "q < length (nh_heap s)" for q
    using nh_inv_users_le [OF inv that] by (smt (verit) add.commute add.left_commute add_le_mono order_trans le_refl)
  moreover have "nh_tbl s i < length (nh_heap s)" if "nh_tbl s i \<noteq> 0"
    using inv that by (auto simp: nh_inv_def nh_table_ok_def)
  ultimately show ?thesis using inv tok unfolding nh_inv_def set_nexthop_raw_frame by auto
qed

lemma nh_del_inv:
  assumes inv: "nh_inv s ext" and p: "nh_tbl s i = p" "p \<noteq> 0"
  shows "nh_inv (nh_del p s) ext"
proof -
  have id: "nh_id (nh_heap s ! p) = i" using inv p by (auto simp: nh_inv_def nh_table_ok_def)
  have i: "i < vr_max_nexthops s" using p by (auto simp: nh_tbl_def get_nexthop_raw_def not_le split: if_splits)
  have "nh_inv (snd (set_nexthop_raw i 0 s)) (\<lambda>q. ext q + of_bool (q = p))"
    using nh_inv_clear_slot [OF inv i] p by (simp add: conj_commute cong: conj_cong)
  then show ?thesis unfolding nh_del_def id Let_def if_not_P [OF not_le [THEN iffD2, OF i]] by (rule nh_inv_put1)
qed

section \<open>A new nexthop\<close>

text \<open>A nexthop that was allocated and is referenced from nowhere yet.\<close>

definition nh_fresh :: "nh_state \<Rightarrow> nh_ptr \<Rightarrow> bool" where
  "nh_fresh s p \<longleftrightarrow> 0 < p \<and> p < length (nh_heap s) \<and> nh_users (nh_heap s ! p) = 0 \<and>
     p \<notin> set (nh_defer s @ nh_freed s)"

lemma nh_fresh_unref:
  assumes "nh_inv s ext" "nh_fresh s p"
  shows "nh_tbl s i \<noteq> p" "ext p = 0" "nh_links (nh_heap s) p = 0"
proof -
  have "nh_in_tbl s p + nh_links (nh_heap s) p + ext p = 0"
    using nh_inv_users_le [OF assms(1), of p] assms(2) by (simp add: nh_fresh_def)
  then show "ext p = 0" "nh_links (nh_heap s) p = 0" "nh_tbl s i \<noteq> p"
    using assms by (auto simp: nh_in_tbl_def nh_inv_def nh_table_ok_def nh_fresh_def)
qed

lemma nh_zalloc_inv:
  assumes inv: "nh_inv s ext" and len: "nh_heap s \<noteq> []" and r: "nh_zalloc k s = (p, s')" and p: "p \<noteq> 0"
  shows "nh_inv s' ext" "nh_fresh s' p" "nh_heap s' = nh_heap s @ [zero_nexthop k]" "p = length (nh_heap s)"
    "nh_tbl s' = nh_tbl s" "vr_max_nexthops s' = vr_max_nexthops s"
proof -
  have s': "s' = (snd (next_alloc s))\<lparr>nh_heap := nh_heap s @ [zero_nexthop k]\<rparr>" "p = length (nh_heap s)"
    using r p by (auto simp: nh_zalloc_def next_alloc_def split: if_splits)
  then show heap: "nh_heap s' = nh_heap s @ [zero_nexthop k]" and pl: "p = length (nh_heap s)" by simp_all
  have st: "vr_nexthops s' = vr_nexthops s" "vr_max_nexthops s' = vr_max_nexthops s" "nh_cells s' = nh_cells s"
    "nh_defer s' = nh_defer s" "nh_freed s' = nh_freed s" "nh_fault s' = nh_fault s"
    by (simp_all add: s' next_alloc_def)
  show "vr_max_nexthops s' = vr_max_nexthops s" by (rule st)
  show tbl: "nh_tbl s' = nh_tbl s"
    using st by (intro nh_tbl_cong)
  have tlen: "nh_tbl s i \<noteq> 0 \<Longrightarrow> nh_tbl s i < length (nh_heap s)" for i
    using inv by (auto simp: nh_inv_def nh_table_ok_def)
  have z: "nh_out (zero_nexthop k) = []" "nh_users (zero_nexthop k) = 0" by (simp_all add: nh_out_def zero_nexthop_def)
  have links: "nh_links (nh_heap s @ [zero_nexthop k]) = nh_links (nh_heap s)" by (simp add: fun_eq_iff nh_links_def z)
  have tok: "nh_table_ok s'"
    using inv less_SucI [OF tlen] by (auto simp: nh_inv_def nh_table_ok_def tbl st heap nth_append)
  have "nh_in_tbl s' q + nh_links (nh_heap s') q + ext q \<le> unat (nh_users (nh_heap s' ! q))"
    if "q < length (nh_heap s')" for q
  proof (cases "q = p")
    case True
    have "nh_tbl s i \<noteq> p" for i using tlen [of i] pl p by auto
    then have "nh_in_tbl s' p = 0" by (simp add: nh_in_tbl_def tbl)
    then show ?thesis using True inv by (simp add: heap links pl nh_inv_def)
  next
    case False
    then have "q < length (nh_heap s)" using that by (simp add: heap pl)
    then show ?thesis using nh_inv_users_le [OF inv, of q] by (simp add: nh_in_tbl_def links tbl heap nth_append)
  qed
  moreover have "q < length (nh_heap s') \<and> nh_users (nh_heap s' ! q) = 0" if "q \<in> set (nh_defer s @ nh_freed s)" for q
    using inv that unfolding heap nh_inv_def by (auto simp: nth_append less_SucI)
  ultimately show "nh_inv s' ext"
    using inv tok unfolding nh_inv_def st heap links by auto
  show "nh_fresh s' p"
    using inv len pl by (auto simp: nh_fresh_def heap z st nh_inv_def)
qed

lemma nh_inv_put_fresh:
  assumes inv: "nh_inv s ext" and p: "nh_fresh s p"
  shows "nh_inv (vrouter_put_nexthop p s) ext"
proof -
  let ?u = "nh_users_update (\<lambda>u. if u = 0 then 0 else u - 1)"
  let ?w = "map NhPut (nh_children (nh_heap s ! p)) @ [NhFree p]" and ?s = "nh_upd p nh_unlink s"
  have f: "0 < p" "p < length (nh_heap s)" "nh_users (nh_heap s ! p) = 0" "p \<notin> set (nh_defer s @ nh_freed s)"
    using p by (simp_all add: nh_fresh_def)
  have same: "nh_upd p ?u s = s"
    using f by (cases "nh_heap s ! p") (simp add: nh_upd_def list_update_same_conv)
  have run: "vrouter_put_nexthop p s = nh_run ?w ?s"
    using f unfolding vrouter_put_nexthop_def by (simp add: nh_run.simps nh_put1_def same Let_def)
  have "nh_winv ?w ?s ext"
    unfolding nh_winv_def using nh_inv_unlink [OF inv f(2)] f by (simp add: nh_unlink_def)
  then show ?thesis unfolding run by (rule nh_run_inv)
qed

lemma nh_del_fresh:
  assumes inv: "nh_inv s ext" and p: "nh_fresh s p" and t: "nh_tbl s (nh_id (nh_heap s ! p)) = 0"
  shows "nh_inv (nh_del p s) ext"
proof (cases "nh_id (nh_heap s ! p) < vr_max_nexthops s")
  case True
  let ?s = "snd (set_nexthop_raw (nh_id (nh_heap s ! p)) 0 s)"
  have "nh_inv ?s ext" using nh_inv_less [OF nh_inv_clear_slot [OF inv True], of ext] by simp
  moreover have "nh_fresh ?s p" using p by (simp add: nh_fresh_def set_nexthop_raw_frame)
  ultimately show ?thesis unfolding nh_del_def Let_def if_not_P [OF not_le [THEN iffD2, OF True]] by (rule nh_inv_put_fresh)
qed (use inv in \<open>simp add: nh_del_def Let_def not_less\<close>)

lemma vrouter_add_nexthop_inv:
  assumes inv: "nh_inv s ext" and p: "nh_fresh s p" and t: "nh_tbl s (nh_id (nh_heap s ! p)) = 0"
    and i: "nh_id (nh_heap s ! p) < vr_max_nexthops s" and r: "vrouter_add_nexthop p s = (ret, s')"
  shows "ret = RetOk" "nh_inv s' ext" "nh_tbl s' = (nh_tbl s)(nh_id (nh_heap s ! p) := p)"
    "nh_heap s' = (nh_heap s)[p := (nh_heap s ! p)\<lparr>nh_users := 1\<rparr>]"
proof -
  let ?i = "nh_id (nh_heap s ! p)" and ?s = "nh_upd p (nh_users_update (\<lambda>u. u + 1)) s"
  have f: "0 < p" "p < length (nh_heap s)" "nh_users (nh_heap s ! p) = 0" "p \<notin> set (nh_defer s @ nh_freed s)"
    using p by (simp_all add: nh_fresh_def)
  note un = nh_fresh_unref [OF inv p]
  have z: "nh_in_tbl s p = 0" using un(1) by (simp add: nh_in_tbl_def)
  have invs: "nh_inv ?s (ext(p := 1))"
    using un z f by (intro nh_inv_set_users [OF inv f(1,2), where u = 1]) simp_all
  have s': "set_nexthop_raw ?i p ?s = (ret, s')"
    using r t unfolding vrouter_add_nexthop_def Let_def if_not_P [OF not_le [THEN iffD2, OF i]] get_nexthop_raw_inv [OF inv] by simp
  have i': "?i < vr_max_nexthops ?s" using i by simp
  note tbl = set_nexthop_raw_tbl [OF invs i', of p, unfolded s', simplified]
  note fr = set_nexthop_raw_frame [of ?i p ?s, unfolded s', simplified]
  show "ret = RetOk" "nh_tbl s' = (nh_tbl s)(?i := p)" using tbl by simp_all
  show "nh_heap s' = (nh_heap s)[p := (nh_heap s ! p)\<lparr>nh_users := 1\<rparr>]"
    using f(3) by (cases "nh_heap s ! p") (simp add: fr)
  have idh: "nh_id (nh_heap s' ! q) = nh_id (nh_heap s ! q)" for q
    using f(2) by (auto simp: fr nth_list_update_if)
  have "nh_table_ok s'"
    using inv f(1,2) by (auto simp: nh_inv_def nh_table_ok_def tbl(2) idh) (auto simp: fr)
  moreover have in_le: "nh_in_tbl s' q \<le> nh_in_tbl ?s q + of_bool (q = p)" for q
    using t f(1) by (auto simp: nh_in_tbl_def tbl(2) idh nth_list_update_if [OF f(2)])
  moreover have "nh_in_tbl s' q + nh_links (nh_heap s') q + ext q \<le> unat (nh_users (nh_heap s' ! q))"
    if "q < length (nh_heap s)" for q
  proof -
    have "nh_in_tbl ?s q + nh_links (nh_heap s') q + (ext(p := 1)) q \<le> unat (nh_users (nh_heap s' ! q))"
      using nh_inv_users_le [OF invs, of q] that by (simp add: fr(1))
    moreover have "of_bool (q = p) + ext q \<le> (ext(p := 1)) q" using un(2) by simp
    ultimately show ?thesis using in_le [of q] by linarith
  qed
  moreover have "nh_links (nh_heap s') q = 0 \<and> ext q = 0" if "q = 0 \<or> length (nh_heap s) \<le> q" for q
    using nh_inv_invalid [OF inv that] nh_inv_invalid [OF invs, of q] that by (simp add: fr(1))
  moreover have "distinct (nh_defer s' @ nh_freed s')" "\<not> nh_fault s'"
    "\<forall>q\<in>set (nh_defer s' @ nh_freed s'). q < length (nh_heap s') \<and> nh_users (nh_heap s' ! q) = 0"
    using invs by (simp_all add: nh_inv_def fr)
  moreover have len: "length (nh_heap s') = length (nh_heap s)" by (simp add: fr(1))
  ultimately show "nh_inv s' ext" unfolding nh_inv_def len by blast
qed

lemma vr_nexthop_delete_inv:
  assumes inv: "nh_inv s ext" and room: "nh_room s 1"
  shows "nh_inv (snd (vr_nexthop_delete i s)) ext"
proof -
  obtain p s1 where g: "vrouter_get_nexthop i s = (p, s1)" by fastforce
  show ?thesis
  proof (cases "p = 0")
    case True
    then show ?thesis using g get_nexthop_null(1) [OF inv, of i s1] inv by (simp add: vr_nexthop_delete_def)
  next
    case False
    have "nh_inv s1 (\<lambda>q. ext q + of_bool (q = p))" using nh_room_get(1) [OF inv _ g False, of 0] room by simp
    then have put: "nh_inv (vrouter_put_nexthop p s1) ext" by (rule nh_inv_put1)
    have "nh_tbl (vrouter_put_nexthop p s1) i = p"
      using nh_static_tbl [OF nh_static_put [of p s1]] nh_static_tbl [OF nh_static_get [of i s]] g
        fst_get_nexthop [of i s] by simp
    then show ?thesis using nh_del_inv [OF put _ False] False g by (simp add: vr_nexthop_delete_def)
  qed
qed

section \<open>Setting the table up\<close>

text \<open>The state before the table is set up; the first cell of the heap stands for NULL.\<close>

definition nh_boot :: "alloc_sched \<Rightarrow> vif_ptr list \<Rightarrow> nh_state" where
  "nh_boot sched vifs =
     \<lparr>vr_max_nexthops = 0, vr_nexthops = None, nh_cells = \<lambda>_. 0, nh_heap = [zero_nexthop 0],
      nh_defer = [], nh_freed = [], nh_fault = False, vr_not_ready = False, vr_sched = sched,
      vr_interfaces = vifs, vif_users = \<lambda>_. 1, vif_freed = [], ip4_default_nh = 0\<rparr>"

lemma nh_table_init_inv:
  assumes pg: "\<And>i j. page i = page j \<Longrightarrow> page i \<noteq> None \<Longrightarrow> i = j" and nmax: "unat nmax < 2 ^ 29"
    and r: "nh_table_init zok page nmax (nh_boot sched vifs) = (RetOk, s)"
  shows "nh_inv s (\<lambda>_. 0)" "nh_tbl s = (\<lambda>_. 0)(NH_DISCARD_ID := 1)" "ip4_default_nh s = 1"
    "nh_heap s = [zero_nexthop 0, (zero_nexthop 0)\<lparr>nh_type := NH_DISCARD, nh_reach_nh := Rdiscard,
       nh_flags := NH_FLAG_VALID, nh_family := AF_INET, nh_users := 1\<rparr>]"
proof -
  let ?d = "\<lambda>n. n\<lparr>nh_id := NH_DISCARD_ID, nh_type := NH_DISCARD, nh_reach_nh := Rdiscard,
     nh_flags := NH_FLAG_VALID, nh_family := AF_INET\<rparr>"
  define s1 where "s1 = (nh_boot sched vifs)\<lparr>vr_max_nexthops := nmax, vr_nexthops := vr_btable_alloc zok page nmax 8\<rparr>"
  obtain t where t: "vr_btable_alloc zok page nmax 8 = Some t" and al: "nh_allocate_discard s1 = (RetOk, s)"
    using r by (auto simp: nh_table_init_def nh_boot_def s1_def Let_def split: if_splits)
  have tbl1: "nh_tbl s1 = (\<lambda>_. 0)"
    by (simp add: nh_tbl_def get_nexthop_raw_def s1_def nh_boot_def fun_eq_iff split: option.split)
  have z: "nh_out (zero_nexthop 0) = []" "nh_users (zero_nexthop 0) = 0" by (simp_all add: nh_out_def zero_nexthop_def)
  have "nh_links (nh_heap s1) q = 0" for q by (simp add: s1_def nh_boot_def nh_links_def z)
  moreover have "nh_table_ok s1"
    using t vr_btable_alloc_wf [OF t] nmax vr_btable_alloc_distinct [OF t pg] vr_btable_alloc_fields [OF t] tbl1
    by (simp add: nh_table_ok_def s1_def)
  ultimately have inv1: "nh_inv s1 (\<lambda>_. 0)"
    using tbl1 by (auto simp: nh_inv_def nh_in_tbl_def s1_def nh_boot_def)
  obtain p s2 where zl: "nh_zalloc 0 s1 = (p, s2)" by fastforce
  have p0: "p \<noteq> 0" using al zl by (auto simp: nh_allocate_discard_def Let_def split: if_splits)
  have h1: "nh_heap s1 = [zero_nexthop 0]" by (simp add: s1_def nh_boot_def)
  note za = nh_zalloc_inv [OF inv1 _ zl p0]
  have p: "p = 1" and h2: "nh_heap s2 = [zero_nexthop 0, zero_nexthop 0]" using za(3,4) h1 by simp_all
  define s3 where "s3 = nh_upd p ?d (s2\<lparr>ip4_default_nh := p\<rparr>)"
  have inv2: "nh_inv (s2\<lparr>ip4_default_nh := p\<rparr>) (\<lambda>_. 0)" by (rule nh_inv_cong [OF za(1)]) (simp_all add: h1)
  have tbl2: "nh_tbl (s2\<lparr>ip4_default_nh := p\<rparr>) = (\<lambda>_. 0)"
    using za(5) h1 tbl1 nh_tbl_cong [of "s2\<lparr>ip4_default_nh := p\<rparr>" s2] by simp
  have inv3: "nh_inv s3 (\<lambda>_. 0)"
    unfolding s3_def using p p0 h2 tbl2 by (intro nh_inv_upd [OF inv2]) (auto simp: nh_out_def)
  have fr3: "nh_fresh s3 p" using za(2) h1 by (simp add: nh_fresh_def s3_def h2 p)
  have add: "vrouter_add_nexthop p s3 = (RetOk, s)"
    using al zl p0 by (simp add: nh_allocate_discard_def Let_def s3_def)
  have id3: "nh_id (nh_heap s3 ! p) = NH_DISCARD_ID" by (simp add: s3_def h2 p)
  have nm: "NH_DISCARD_ID < vr_max_nexthops s3"
  proof (rule ccontr)
    assume "\<not> NH_DISCARD_ID < vr_max_nexthops s3"
    then have "vr_max_nexthops s3 \<le> NH_DISCARD_ID" by (simp only: not_less)
    then show False using add id3 by (simp add: vrouter_add_nexthop_def)
  qed
  have t3: "nh_tbl s3 (nh_id (nh_heap s3 ! p)) = 0" using tbl2 by (simp add: s3_def)
  note res = vrouter_add_nexthop_inv [OF inv3 fr3 t3 _ add, unfolded id3, OF nm]
  show "nh_inv s (\<lambda>_. 0)" by (rule res(2))
  show "nh_tbl s = (\<lambda>_. 0)(NH_DISCARD_ID := 1)" using res(3) tbl2 by (simp add: s3_def p)
  show "nh_heap s = [zero_nexthop 0, (zero_nexthop 0)\<lparr>nh_type := NH_DISCARD, nh_reach_nh := Rdiscard,
       nh_flags := NH_FLAG_VALID, nh_family := AF_INET, nh_users := 1\<rparr>]"
    using res(4) by (simp add: s3_def h2 p zero_nexthop_def NH_DISCARD_ID_def)
  show "ip4_default_nh s = 1"
    using add p unfolding vrouter_add_nexthop_def Let_def get_nexthop_raw_inv [OF inv3]
    by (auto simp: set_nexthop_raw_def s3_def nh_upd_def split: if_splits option.splits)
qed

text \<open>A table for 16 nexthops, just set up.\<close>

definition nh_ex :: nh_state where
  "nh_ex = snd (nh_table_init True Some 16 (nh_boot (\<lambda>_. True) []))"

lemma nh_ex_init: "nh_table_init True Some 16 (nh_boot (\<lambda>_. True) []) = (RetOk, nh_ex)"
proof -
  have "fst (nh_table_init True Some 16 (nh_boot (\<lambda>_. True) [])) = RetOk"
    by (simp add: nh_table_init_def nh_boot_def vr_btable_alloc_def VR_SINGLE_ALLOC_LIMIT_def
        vr_btable_fill_pow2_fields_def nh_allocate_discard_def nh_zalloc_def next_alloc_def
        vrouter_add_nexthop_def set_nexthop_raw_def nh_slot_def get_nexthop_raw_def vr_btable_get_def
        NH_DISCARD_ID_def nh_upd_def Let_def)
  then show ?thesis by (simp add: nh_ex_def prod_eq_iff)
qed

lemma nh_ex_fields: "nh_defer nh_ex = []" "nh_freed nh_ex = []" "vr_sched nh_ex = (\<lambda>_. True)" "vr_max_nexthops nh_ex = 16"
  by (simp_all add: nh_ex_def nh_table_init_def nh_boot_def vr_btable_alloc_def VR_SINGLE_ALLOC_LIMIT_def
      vr_btable_fill_pow2_fields_def nh_allocate_discard_def nh_zalloc_def next_alloc_def
      vrouter_add_nexthop_def set_nexthop_raw_def nh_slot_def get_nexthop_raw_def vr_btable_get_def
      NH_DISCARD_ID_def nh_upd_def Let_def)

lemmas nh_ex_inv = nh_table_init_inv [OF _ _ nh_ex_init, simplified]

section \<open>Properties\<close>

lemma nh_inv_alive:
  assumes "nh_inv s ext" "0 < ext q \<or> q \<noteq> 0 \<and> nh_tbl s i = q"
  shows "q \<notin> set (nh_defer s @ nh_freed s)"
proof
  assume "q \<in> set (nh_defer s @ nh_freed s)"
  then have q: "q < length (nh_heap s)" "nh_users (nh_heap s ! q) = 0" using assms(1) by (auto simp: nh_inv_def)
  then have "nh_in_tbl s q + nh_links (nh_heap s) q + ext q = 0" using nh_inv_users_le [OF assms(1)] by fastforce
  then show False using assms by (auto simp: nh_in_tbl_def nh_inv_def nh_table_ok_def)
qed

text \<open>
  C15: dropping a reference (\<open>vrouter_put_nexthop\<close>, with the recursive drops of the components
  and of the direct nexthop) keeps the reference counts right: no nexthop is released or
  scheduled twice, and one that is still referenced, from the table or from outside, is not
  released.
\<close>

theorem vrouter_put_nexthop_safe:
  assumes "nh_inv s ext" "0 < ext p"
  shows "nh_inv (vrouter_put_nexthop p s) (ext(p := ext p - 1)) \<and>
    distinct (nh_defer (vrouter_put_nexthop p s) @ nh_freed (vrouter_put_nexthop p s)) \<and>
    (\<forall>q i. 0 < (ext(p := ext p - 1)) q \<or> q \<noteq> 0 \<and> nh_tbl s i = q \<longrightarrow>
       q \<notin> set (nh_defer (vrouter_put_nexthop p s) @ nh_freed (vrouter_put_nexthop p s)))"
proof -
  let ?s = "vrouter_put_nexthop p s" and ?ext = "ext(p := ext p - 1)"
  have inv: "nh_inv ?s ?ext" by (rule nh_inv_put [OF assms])
  then have "distinct (nh_defer ?s @ nh_freed ?s)" by (simp add: nh_inv_def)
  moreover have "nh_tbl s = nh_tbl ?s" by (rule nh_static_tbl [OF nh_static_put [symmetric]])
  ultimately show ?thesis using inv nh_inv_alive [OF inv] by simp
qed

theorem vrouter_put_nexthop_safe_witness:
  "fst (vrouter_get_nexthop NH_DISCARD_ID nh_ex) = 1 \<and>
   nh_inv (vrouter_put_nexthop 1 (snd (vrouter_get_nexthop NH_DISCARD_ID nh_ex))) (\<lambda>_. 0)"
proof -
  obtain p s where g: "vrouter_get_nexthop NH_DISCARD_ID nh_ex = (p, s)" by fastforce
  have p: "p = 1" using fst_get_nexthop [of NH_DISCARD_ID nh_ex] g nh_ex_inv(2) by simp
  have "nh_room nh_ex 1" unfolding nh_room_def nh_ex_inv(4) by (auto simp: less_Suc_eq zero_nexthop_def)
  then have "nh_inv s (\<lambda>q. 0 + of_bool (q = p))" using nh_room_get(1) [OF nh_ex_inv(1) _ g, of 0] p by simp
  from vrouter_put_nexthop_safe [OF this, of p]
  have "nh_inv (vrouter_put_nexthop p s) ((\<lambda>q. 0 + of_bool (q = p))(p := 0 + of_bool (p = p) - 1))"
    by (simp del: fun_upd_apply)
  moreover have "(\<lambda>q. 0 + of_bool (q = p))(p := 0 + of_bool (p = p) - 1) = (\<lambda>_. 0 :: nat)" by auto
  ultimately show ?thesis using g p by simp
qed

lemma vr_nexthop_delete_run:
  assumes "nh_inv s ext" "nh_room s 1" "vr_nexthop_delete i s = (ret, s')"
  shows "nh_inv s' ext \<and>
    (if nh_tbl s i = 0 then ret = RetErr EINVAL \<and> s' = s
     else ret = RetOk \<and> nh_tbl s' = (nh_tbl s)(i := 0) \<and>
       (0 < ext (nh_tbl s i) \<longrightarrow> nh_tbl s i \<notin> set (nh_defer s' @ nh_freed s')))"
proof -
  have inv: "nh_inv s' ext" using vr_nexthop_delete_inv [OF assms(1,2), of i] assms(3) by simp
  obtain p s1 where g: "vrouter_get_nexthop i s = (p, s1)" by fastforce
  have p: "p = nh_tbl s i" using fst_get_nexthop [of i s] g by simp
  show ?thesis
  proof (cases "p = 0")
    case True
    then show ?thesis
      using assms(3) g get_nexthop_null(1) [OF assms(1), of i s1] inv p by (simp add: vr_nexthop_delete_def)
  next
    case False
    let ?s = "vrouter_put_nexthop p s1"
    have st: "nh_static ?s = nh_static s" using nh_static_put [of p s1] nh_static_get [of i s] g by simp
    have "nh_inv s1 (\<lambda>q. ext q + of_bool (q = p))" using nh_room_get(1) [OF assms(1) _ g False, of 0] assms(2) by simp
    then have inv1: "nh_inv ?s ext" by (rule nh_inv_put1)
    have len: "p < length (nh_heap s)" and idp: "nh_id (nh_heap s ! p) = i"
      using assms(1) p False by (auto simp: nh_inv_def nh_table_ok_def)
    have id: "nh_id (nh_heap ?s ! p) = i" using nh_static_fields(1) [OF st [symmetric] len] idp by simp
    have "\<not> vr_max_nexthops s \<le> i" using p False by (auto simp: nh_tbl_def get_nexthop_raw_def split: if_splits)
    then have i: "i < vr_max_nexthops ?s" using st by (simp add: nh_static_def not_le)
    have "nh_tbl (nh_del p ?s) = (nh_tbl s)(i := 0)"
      unfolding nh_del_def id Let_def if_not_P [OF not_le [THEN iffD2, OF i]]
        nh_static_tbl [OF nh_static_put [of p "snd (set_nexthop_raw i 0 ?s)"]] set_nexthop_raw_tbl(2) [OF inv1 i] nh_static_tbl [OF st] ..
    then show ?thesis
      using assms(3) g False p inv nh_inv_alive [OF inv] by (auto simp: vr_nexthop_delete_def)
  qed
qed

text \<open>
  C16: a delete request (\<open>vr_nexthop_delete\<close>) for a nexthop that is not there fails and changes
  nothing; otherwise the slot of the table is emptied, nothing else of the table changes, and the
  reference counts stay right, so the nexthop lives on while a route still refers to it.
\<close>

theorem vr_nexthop_delete_spec:
  assumes "nh_inv s ext" "nh_room s 1" "vr_nexthop_delete i s = (ret, s')"
  shows "nh_inv s' ext \<and>
    (if nh_tbl s i = 0 then ret = RetErr EINVAL \<and> s' = s
     else ret = RetOk \<and> nh_tbl s' = (nh_tbl s)(i := 0) \<and>
       (0 < ext (nh_tbl s i) \<longrightarrow> nh_tbl s i \<notin> set (nh_defer s' @ nh_freed s')))"
  by (rule vr_nexthop_delete_run [OF assms])

theorem vr_nexthop_delete_spec_witness:
  "\<exists>s'. vr_nexthop_delete NH_DISCARD_ID nh_ex = (RetOk, s') \<and> nh_tbl s' = (\<lambda>_. 0)"
proof -
  obtain ret s' where r: "vr_nexthop_delete NH_DISCARD_ID nh_ex = (ret, s')" by fastforce
  have room: "nh_room nh_ex 1" unfolding nh_room_def nh_ex_inv(4) by (auto simp: less_Suc_eq zero_nexthop_def)
  show ?thesis using vr_nexthop_delete_spec [OF nh_ex_inv(1) room r] r nh_ex_inv(2) by (auto simp: fun_eq_iff)
qed

text \<open>
  C17: when \<open>nh_table_init\<close> succeeds on a router that has no table yet, the table holds the discard
  nexthop in its slot and nothing else, with its reference counted.
\<close>

theorem nh_table_init_spec:
  assumes "\<And>i j. page i = page j \<Longrightarrow> page i \<noteq> None \<Longrightarrow> i = j" "unat nmax < 2 ^ 29"
    and "nh_table_init zok page nmax (nh_boot sched vifs) = (RetOk, s)"
  shows "nh_inv s (\<lambda>_. 0) \<and> nh_tbl s = (\<lambda>_. 0)(NH_DISCARD_ID := ip4_default_nh s) \<and>
    nh_type (nh_heap s ! ip4_default_nh s) = NH_DISCARD \<and> nh_users (nh_heap s ! ip4_default_nh s) = 1"
  using nh_table_init_inv [OF assms] by simp

theorem nh_table_init_spec_witness:
  "\<exists>s. nh_table_init True Some 16 (nh_boot (\<lambda>_. True) []) = (RetOk, s) \<and> nh_inv s (\<lambda>_. 0)"
  using nh_table_init_spec [OF _ _ nh_ex_init] nh_ex_init by simp

end
