(* ===== verification/VR_Mtrie.thy ===== *)
theory VR_Mtrie
  imports VR_Nexthop_Inv
begin

text \<open>
  The multibit trie of \<^verbatim>\<open>dp-core/vr_ip_mtrie.c\<close> that holds the inet routes of a VRF (and,
  with opaque data in place of nexthops, other prefix tables): every level looks at one byte of
  the address, a bucket has 256 entries, and a route whose length is not a multiple of 8 is
  spread over the entries it covers. This theory has the data and the operations on one trie;
  the nexthop references that entries hold are taken and dropped in the nexthop state.
\<close>

section \<open>Data\<close>

text \<open>
  \<open>struct ip_bucket_entry\<close>: the type tag and the union are one datatype. The bit fields keep
  their width: the prefix length is kept modulo 256.
\<close>

datatype ip_bucket_entry =
  Entry (entry_data: entry_data) (entry_prefix_len: int) (entry_label_flags: "5 word")
    (entry_label: "24 word") (entry_bridge_index: u32)
and entry_data = Bucket "ip_bucket_entry list" | Nexthop nh_ptr | Vdata nat

primrec set_data :: "entry_data \<Rightarrow> ip_bucket_entry \<Rightarrow> ip_bucket_entry" where
  "set_data d' (Entry d p f l b) = Entry d' p f l b"

primrec set_plen :: "int \<Rightarrow> ip_bucket_entry \<Rightarrow> ip_bucket_entry" where
  "set_plen p' (Entry d p f l b) = Entry d (p' mod 256) f l b"

primrec set_label :: "5 word \<Rightarrow> 24 word \<Rightarrow> ip_bucket_entry \<Rightarrow> ip_bucket_entry" where
  "set_label f' l' (Entry d p f l b) = Entry d p f' l' b"

primrec set_bridge_index :: "u32 \<Rightarrow> ip_bucket_entry \<Rightarrow> ip_bucket_entry" where
  "set_bridge_index b' (Entry d p f l b) = Entry d p f l b'"

fun ENTRY_IS_BUCKET :: "ip_bucket_entry \<Rightarrow> bool" where
  "ENTRY_IS_BUCKET (Entry (Bucket _) _ _ _ _) = True"
| "ENTRY_IS_BUCKET _ = False"

text \<open>The pointer of a leaf; the address of a bucket is never used as one.\<close>

fun entry_ptr :: "ip_bucket_entry \<Rightarrow> nat" where
  "entry_ptr (Entry (Nexthop p) _ _ _ _) = p"
| "entry_ptr (Entry (Vdata v) _ _ _ _) = v"
| "entry_ptr (Entry (Bucket _) _ _ _ _) = 0"

text \<open>An entry of a zeroed bucket.\<close>

definition zero_entry :: ip_bucket_entry where
  "zero_entry = Entry (Vdata 0) 0 0 0 0"

definition IP4_PREFIX_LEN :: nat where "IP4_PREFIX_LEN = 32"
definition IP6_PREFIX_LEN :: nat where "IP6_PREFIX_LEN = 128"
definition IPBUCKET_LEVEL_BITS :: nat where "IPBUCKET_LEVEL_BITS = 8"
definition IPBUCKET_LEVEL_SIZE :: nat where "IPBUCKET_LEVEL_SIZE = 256"

record mtrie_bkt_info =
  bi_bits :: u32
  bi_shift :: u8
  bi_pfx_len :: u8
  bi_mask :: u32
  bi_size :: u32

text \<open>\<open>mtrie_ip_bkt_info_init\<close>: level 0 first, each level from the one before it.\<close>

fun mtrie_ip_bkt_info_init :: "nat \<Rightarrow> nat \<Rightarrow> mtrie_bkt_info list" where
  "mtrie_ip_bkt_info_init pfx_len 0 = []"
| "mtrie_ip_bkt_info_init pfx_len (Suc 0) =
     [\<lparr>bi_bits = of_nat IPBUCKET_LEVEL_BITS, bi_shift = of_nat (pfx_len - IPBUCKET_LEVEL_BITS),
       bi_pfx_len = of_nat IPBUCKET_LEVEL_BITS, bi_mask = of_nat (IPBUCKET_LEVEL_SIZE - 1),
       bi_size = of_nat IPBUCKET_LEVEL_SIZE\<rparr>]"
| "mtrie_ip_bkt_info_init pfx_len (Suc (Suc level)) =
     (let info = mtrie_ip_bkt_info_init pfx_len (Suc level);
          prev = info ! level
      in info @ [\<lparr>bi_bits = of_nat IPBUCKET_LEVEL_BITS,
                  bi_shift = bi_shift prev - of_nat IPBUCKET_LEVEL_BITS,
                  bi_pfx_len = bi_pfx_len prev + of_nat IPBUCKET_LEVEL_BITS,
                  bi_mask = of_nat (IPBUCKET_LEVEL_SIZE - 1), bi_size = of_nat IPBUCKET_LEVEL_SIZE\<rparr>])"

definition ip_bkt_get_max_level :: "family \<Rightarrow> nat" where
  "ip_bkt_get_max_level fam =
     (if fam = AF_INET6 then IP6_PREFIX_LEN div IPBUCKET_LEVEL_BITS
      else IP4_PREFIX_LEN div IPBUCKET_LEVEL_BITS)"

definition ip_bkt_info_get :: "family \<Rightarrow> mtrie_bkt_info list" where
  "ip_bkt_info_get fam =
     (if fam = AF_INET6 then mtrie_ip_bkt_info_init IP6_PREFIX_LEN (IP6_PREFIX_LEN div IPBUCKET_LEVEL_BITS)
      else mtrie_ip_bkt_info_init IP4_PREFIX_LEN (IP4_PREFIX_LEN div IPBUCKET_LEVEL_BITS))"

definition rt_to_index :: "vr_route_req \<Rightarrow> nat \<Rightarrow> nat" where
  "rt_to_index rt level = unat (rtr_prefix rt ! level)"

text \<open>A bucket that is scheduled to be freed still holds its references.\<close>

record mt_state =
  ms_nh :: nh_state
  ms_defer :: "ip_bucket_entry list list"

section \<open>Entries and buckets\<close>

text \<open>A loop over the entries of a bucket, and one over some of its indices.\<close>

primrec map_st :: "('a \<Rightarrow> 's \<Rightarrow> 'b \<times> 's) \<Rightarrow> 'a list \<Rightarrow> 's \<Rightarrow> 'b list \<times> 's" where
  "map_st f [] s = ([], s)"
| "map_st f (x # xs) s =
     (case f x s of (y, s) \<Rightarrow> case map_st f xs s of (ys, s) \<Rightarrow> (y # ys, s))"

primrec upd_st :: "('a \<Rightarrow> 's \<Rightarrow> 'a \<times> 's) \<Rightarrow> nat list \<Rightarrow> 'a list \<Rightarrow> 's \<Rightarrow> 'a list \<times> 's" where
  "upd_st f [] b s = (b, s)"
| "upd_st f (i # is) b s = (case f (b ! i) s of (e, s) \<Rightarrow> upd_st f is (b[i := e]) s)"

definition set_entry_to_bucket ::
  "ip_bucket_entry \<Rightarrow> ip_bucket_entry list \<Rightarrow> nh_state \<Rightarrow> ip_bucket_entry \<times> nh_state" where
  "set_entry_to_bucket ent bkt s =
     (set_data (Bucket bkt) ent,
      case entry_data ent of
        Nexthop tmp_nh \<Rightarrow> if tmp_nh = 0 then s else vrouter_put_nexthop tmp_nh s
      | _ \<Rightarrow> s)"

text \<open>
  \<open>set_entry_to_nh\<close>: the nexthop is looked up again by its id, and the discard nexthop takes
  its place when it is no longer the one in the table.
\<close>

definition set_entry_to_nh ::
  "ip_bucket_entry \<Rightarrow> nh_ptr \<Rightarrow> nh_state \<Rightarrow> ip_bucket_entry \<times> nh_state" where
  "set_entry_to_nh entry nh s =
     (if nh = 0 then (entry, s\<lparr>nh_fault := True\<rparr>)
      else case vrouter_get_nexthop (nh_id (nh_heap s ! nh)) s of (tmp_nh, s1) \<Rightarrow>
           case (if tmp_nh \<noteq> nh
                 then vrouter_get_nexthop NH_DISCARD_ID
                        (if tmp_nh \<noteq> 0 then vrouter_put_nexthop tmp_nh s1 else s1)
                 else (nh, s1)) of (nh', s2) \<Rightarrow>
             (set_data (Nexthop nh') entry,
              case entry_data entry of
                Nexthop old \<Rightarrow> if old = 0 then s2 else vrouter_put_nexthop old s2
              | _ \<Rightarrow> s2))"

definition set_entry_to_vdata :: "ip_bucket_entry \<Rightarrow> nat \<Rightarrow> ip_bucket_entry" where
  "set_entry_to_vdata entry data = set_data (Vdata data) entry"

text \<open>\<open>set_entry_to_nh\<close> or \<open>set_entry_to_vdata\<close>, as the callers choose between them.\<close>

definition set_entry_leaf ::
  "bool \<Rightarrow> ip_bucket_entry \<Rightarrow> nat \<Rightarrow> nh_state \<Rightarrow> ip_bucket_entry \<times> nh_state" where
  "set_entry_leaf data_is_nh entry data s =
     (if data_is_nh then set_entry_to_nh entry data s else (set_entry_to_vdata entry data, s))"

text \<open>\<open>mtrie_free_entry\<close>: every nexthop reference in the subtree is dropped.\<close>

fun mtrie_free_entry :: "ip_bucket_entry \<Rightarrow> nh_state \<Rightarrow> nh_state" where
  "mtrie_free_entry (Entry (Nexthop p) _ _ _ _) s = vrouter_put_nexthop p s"
| "mtrie_free_entry (Entry (Vdata _) _ _ _ _) s = s"
| "mtrie_free_entry (Entry (Bucket b) _ _ _ _) s = fold mtrie_free_entry b s"

definition mtrie_free_bkt :: "ip_bucket_entry list \<Rightarrow> nh_state \<Rightarrow> nh_state" where
  "mtrie_free_bkt bkt s = fold mtrie_free_entry bkt s"

text \<open>\<open>mtrie_free_bkt_defer\<close> and the callback that runs later.\<close>

definition mtrie_free_bkt_defer :: "ip_bucket_entry list \<Rightarrow> mt_state \<Rightarrow> bool \<times> mt_state" where
  "mtrie_free_bkt_defer bkt st =
     (case next_alloc (ms_nh st) of (ok, s) \<Rightarrow>
        if ok then (True, st\<lparr>ms_nh := s, ms_defer := ms_defer st @ [bkt]\<rparr>)
        else (False, st\<lparr>ms_nh := s\<rparr>))"

definition mtrie_free_bkt_cb :: "mt_state \<Rightarrow> mt_state" where
  "mtrie_free_bkt_cb st =
     (case ms_defer st of
        [] \<Rightarrow> st
      | bkt # bs \<Rightarrow> st\<lparr>ms_nh := mtrie_free_bkt bkt (ms_nh st), ms_defer := bs\<rparr>)"

text \<open>
  \<open>mtrie_delete_bkt\<close>, for a bucket (the only case it is called on): the entry takes over the
  contents of the first entry of the bucket, and the bucket is freed, after a grace
  period if possible.
\<close>

definition copy_entry :: "ip_bucket_entry \<Rightarrow> ip_bucket_entry \<Rightarrow> ip_bucket_entry" where
  "copy_entry from ent =
     set_bridge_index (entry_bridge_index from)
       (set_label (entry_label_flags from) (entry_label from)
         (set_plen (entry_prefix_len from) ent))"

definition mtrie_delete_bkt ::
  "bool \<Rightarrow> bool \<Rightarrow> ip_bucket_entry \<Rightarrow> ip_bucket_entry list \<Rightarrow> mt_state \<Rightarrow> ip_bucket_entry \<times> mt_state" where
  "mtrie_delete_bkt defer_delete data_is_nh ent bkt st =
     (case set_entry_leaf data_is_nh ent (entry_ptr (bkt ! 0)) (ms_nh st) of (ent, s) \<Rightarrow>
        let ent = copy_entry (bkt ! 0) ent; st = st\<lparr>ms_nh := s\<rparr>
        in if defer_delete then (ent, snd (mtrie_free_bkt_defer bkt st))
           else if \<not> vr_not_ready s then
             (case mtrie_free_bkt_defer bkt st of (ok, st) \<Rightarrow>
                if ok then (ent, st)
                else (ent, st\<lparr>ms_nh := mtrie_free_bkt bkt (ms_nh st)\<rparr>))
           else (ent, st\<lparr>ms_nh := mtrie_free_bkt bkt (ms_nh st)\<rparr>))"

text \<open>
  \<open>mtrie_alloc_bucket\<close>: every entry of the new bucket starts as a copy of the parent. The
  result of the allocation is written through before it is checked, so a failed
  allocation is a fault.
\<close>

definition mtrie_alloc_bucket ::
  "bool \<Rightarrow> nat \<Rightarrow> ip_bucket_entry \<Rightarrow> nh_state \<Rightarrow> ip_bucket_entry list option \<times> nh_state" where
  "mtrie_alloc_bucket data_is_nh bkt_size parent s =
     (case next_alloc s of (ok, s) \<Rightarrow>
        if \<not> ok then (None, s\<lparr>nh_fault := True\<rparr>)
        else case map_st (\<lambda>ent s. case set_entry_leaf data_is_nh ent (entry_ptr parent) s of (ent, s) \<Rightarrow>
                            (copy_entry parent ent, s))
                    (replicate bkt_size zero_entry) s of (bkt, s) \<Rightarrow> (Some bkt, s))"

section \<open>Adding a route\<close>

text \<open>What a route writes into a leaf.\<close>

definition rt_set_leaf ::
  "vr_route_req \<Rightarrow> ip_bucket_entry \<Rightarrow> nh_state \<Rightarrow> ip_bucket_entry \<times> nh_state" where
  "rt_set_leaf rt ent s =
     (case (case entry_data ent of
              Nexthop _ \<Rightarrow> set_entry_to_nh ent (rtr_nh rt) s
            | _ \<Rightarrow> (set_entry_to_vdata ent (rtr_nh rt), s)) of (ent, s) \<Rightarrow>
        (set_bridge_index (rtr_index rt)
           (set_label (ucast (rtr_label_flags rt)) (ucast (rtr_label rt)) ent), s))"

text \<open>
  \<open>add_to_tree\<close>: \<open>n\<close> levels are below this entry. \<open>down\<close> is the loop over the entries of the
  bucket one level down.
\<close>

definition add_to_entry ::
  "(ip_bucket_entry list \<Rightarrow> nh_state \<Rightarrow> ip_bucket_entry list \<times> nh_state) \<Rightarrow>
   vr_route_req \<Rightarrow> ip_bucket_entry \<Rightarrow> nh_state \<Rightarrow> ip_bucket_entry \<times> nh_state" where
  "add_to_entry down rt ent s =
     (if entry_prefix_len ent > rtr_prefix_len rt then (ent, s)
      else let ent = set_plen (rtr_prefix_len rt) ent
           in case entry_data ent of
                Bucket b \<Rightarrow> (case down b s of (b, s) \<Rightarrow> (set_data (Bucket b) ent, s))
              | _ \<Rightarrow> rt_set_leaf rt ent s)"

primrec add_to_tree ::
  "nat \<Rightarrow> vr_route_req \<Rightarrow> ip_bucket_entry \<Rightarrow> nh_state \<Rightarrow> ip_bucket_entry \<times> nh_state" where
  "add_to_tree 0 rt = add_to_entry (\<lambda>b s. (b, s)) rt"
| "add_to_tree (Suc n) rt = add_to_entry (map_st (add_to_tree n rt)) rt"

text \<open>
  The indices the last loop of \<open>__mtrie_add\<close> visits: \<open>i\<close> is an unsigned char and wraps.
\<close>

definition add_fin :: "vr_route_req \<Rightarrow> mtrie_bkt_info \<Rightarrow> nat" where
  "add_fin rt info =
     (if rtr_prefix_len rt > int (unat (bi_pfx_len info)) - int (unat (bi_bits info)) \<and>
         rtr_prefix_len rt \<le> int (unat (bi_pfx_len info))
      then 2 ^ nat (int (unat (bi_pfx_len info)) - rtr_prefix_len rt)
      else unat (bi_size info))"

definition add_indices :: "vr_route_req \<Rightarrow> mtrie_bkt_info \<Rightarrow> nat \<Rightarrow> nat list" where
  "add_indices rt info index = map (\<lambda>k. (index + k) mod 256) [0..<add_fin rt info]"

text \<open>
  The descent of \<open>__mtrie_add\<close>; \<open>n\<close> levels are left. A leaf on the way is replaced by a bucket of
  copies of it (\<open>add_bkt\<close>).
\<close>

definition add_bkt ::
  "bool \<Rightarrow> nat \<Rightarrow> ip_bucket_entry \<Rightarrow> nh_state \<Rightarrow> ip_bucket_entry list option \<times> ip_bucket_entry \<times> nh_state" where
  "add_bkt data_is_nh bkt_size ent s =
     (case entry_data ent of
        Bucket b \<Rightarrow> (Some b, ent, s)
      | _ \<Rightarrow> case mtrie_alloc_bucket data_is_nh bkt_size ent s of
               (None, s) \<Rightarrow> (None, ent, s)
             | (Some b, s) \<Rightarrow> (case set_entry_to_bucket ent b s of (ent, s) \<Rightarrow> (Some b, ent, s)))"

primrec mtrie_add_loop ::
  "nat \<Rightarrow> vr_route_req \<Rightarrow> bool \<Rightarrow> nat \<Rightarrow> ip_bucket_entry \<Rightarrow> nh_state \<Rightarrow> ip_bucket_entry \<times> nh_state" where
  "mtrie_add_loop 0 rt data_is_nh level ent s = (ent, s)"
| "mtrie_add_loop (Suc n) rt data_is_nh level ent s =
     (let info = ip_bkt_info_get (rtr_family rt) ! level;
          index = rt_to_index rt level
      in case add_bkt data_is_nh (unat (bi_size info)) ent s of
           (None, ent, s) \<Rightarrow> (ent, s)
         | (Some bkt, ent, s) \<Rightarrow>
             if rtr_prefix_len rt > int (unat (bi_pfx_len info)) then
               (case mtrie_add_loop n rt data_is_nh (Suc level) (bkt ! index) s of (c, s) \<Rightarrow>
                  (set_data (Bucket (bkt[index := c])) ent, s))
             else
               (case upd_st (add_to_tree n rt) (add_indices rt info index) bkt s of (bkt, s) \<Rightarrow>
                  (set_data (Bucket bkt) ent, s)))"

definition mtrie_add_root :: "vr_route_req \<Rightarrow> bool \<Rightarrow> ip_bucket_entry \<Rightarrow> nh_state \<Rightarrow> ip_bucket_entry \<times> nh_state" where
  "mtrie_add_root rt data_is_nh root s =
     mtrie_add_loop (ip_bkt_get_max_level (rtr_family rt)) rt data_is_nh 0 root s"

section \<open>Deleting a route\<close>

text \<open>\<open>memcmp\<close> of two entries of a bucket: two buckets never have the same address.\<close>

definition entry_same :: "ip_bucket_entry \<Rightarrow> ip_bucket_entry \<Rightarrow> bool" where
  "entry_same e f \<longleftrightarrow> \<not> ENTRY_IS_BUCKET e \<and> e = f"

definition bkt_uniform :: "ip_bucket_entry list \<Rightarrow> bool" where
  "bkt_uniform b \<longleftrightarrow> (\<forall>e\<in>set (tl b). entry_same e (b ! 0))"

definition del_replace ::
  "vr_route_req \<Rightarrow> ip_bucket_entry \<Rightarrow> mt_state \<Rightarrow> ip_bucket_entry \<times> mt_state" where
  "del_replace rt ent st =
     (case rt_set_leaf rt (set_plen (rtr_replace_plen rt) ent) (ms_nh st) of (ent, s) \<Rightarrow>
        (ent, st\<lparr>ms_nh := s\<rparr>))"

text \<open>The body of the loop over the entries the route covers; \<open>sub\<close> is the recursive call.\<close>

definition del_covered ::
  "(ip_bucket_entry \<Rightarrow> mt_state \<Rightarrow> ip_bucket_entry \<times> mt_state) \<Rightarrow>
   vr_route_req \<Rightarrow> ip_bucket_entry \<Rightarrow> mt_state \<Rightarrow> ip_bucket_entry \<times> mt_state" where
  "del_covered sub rt ent st =
     (if entry_prefix_len ent = rtr_prefix_len rt then
        (if \<not> ENTRY_IS_BUCKET ent then del_replace rt ent st
         else sub (set_plen (rtr_replace_plen rt)
                    (set_label (ucast (rtr_label_flags rt)) (ucast (rtr_label rt)) ent)) st)
      else (ent, st))"

definition del_indices :: "vr_route_req \<Rightarrow> mtrie_bkt_info \<Rightarrow> nat \<Rightarrow> nat list" where
  "del_indices rt info index =
     (let covered = rtr_prefix_len rt > int (unat (bi_pfx_len info)) - int (unat (bi_bits info)) \<and>
                    rtr_prefix_len rt \<le> int (unat (bi_pfx_len info));
          fin = (if covered then 2 ^ nat (int (unat (bi_pfx_len info)) - rtr_prefix_len rt)
                 else unat (bi_size info));
          index = (if covered then index - index mod fin else 0)
      in [index..<min (fin + index) (unat (bi_size info))])"

text \<open>The end of \<open>__mtrie_delete\<close> at a bucket, with its entries done.\<close>

definition del_finish ::
  "bool \<Rightarrow> bool \<Rightarrow> ip_bucket_entry \<Rightarrow> ip_bucket_entry list \<times> mt_state \<Rightarrow> ip_bucket_entry \<times> mt_state" where
  "del_finish defer_delete data_is_nh ent r =
     (case r of (bkt, st) \<Rightarrow>
        let ent = set_data (Bucket bkt) ent
        in if bkt_uniform bkt then mtrie_delete_bkt defer_delete data_is_nh ent bkt st else (ent, st))"

primrec mtrie_delete_loop ::
  "nat \<Rightarrow> vr_route_req \<Rightarrow> bool \<Rightarrow> bool \<Rightarrow> nat \<Rightarrow> ip_bucket_entry \<Rightarrow> mt_state \<Rightarrow> ip_bucket_entry \<times> mt_state" where
  "mtrie_delete_loop 0 rt defer_delete data_is_nh level ent st =
     (if ENTRY_IS_BUCKET ent then (ent, st\<lparr>ms_nh := (ms_nh st)\<lparr>nh_fault := True\<rparr>\<rparr>)
      else if entry_prefix_len ent = rtr_prefix_len rt then del_replace rt ent st
      else (ent, st))"
| "mtrie_delete_loop (Suc n) rt defer_delete data_is_nh level ent st =
     (case entry_data ent of
        Bucket bkt \<Rightarrow>
          let info = ip_bkt_info_get (rtr_family rt) ! level;
              index = rt_to_index rt level
          in del_finish defer_delete data_is_nh ent
               (if rtr_prefix_len rt > int (unat (bi_pfx_len info)) then
                  upd_st (mtrie_delete_loop n rt defer_delete data_is_nh (Suc level)) [index] bkt st
                else
                  upd_st (del_covered (mtrie_delete_loop n rt defer_delete data_is_nh (Suc level)) rt)
                    (del_indices rt info index) bkt st)
      | _ \<Rightarrow>
          if entry_prefix_len ent = rtr_prefix_len rt then del_replace rt ent st
          else (ent, st))"

definition mtrie_delete_root ::
  "vr_route_req \<Rightarrow> bool \<Rightarrow> bool \<Rightarrow> ip_bucket_entry \<Rightarrow> mt_state \<Rightarrow> ip_bucket_entry \<times> mt_state" where
  "mtrie_delete_root rt defer_delete data_is_nh root st =
     mtrie_delete_loop (ip_bkt_get_max_level (rtr_family rt)) rt defer_delete data_is_nh 0 root st"

section \<open>Lookup\<close>

text \<open>
  \<open>__mtrie_lookup\<close>: the entries of a bucket are visited from the index of the address on,
  wrapping around; \<open>sub\<close> is the call for a bucket one level down. The variable \<open>bkt\<close> is
  overwritten on the way down, so the loop goes on in the bucket below when nothing was found
  there. The request is updated from the leaf that is found, and its nexthop pointer is what is
  returned.
\<close>

definition rt_from_leaf :: "ip_bucket_entry \<Rightarrow> vr_route_req \<Rightarrow> vr_route_req" where
  "rt_from_leaf ent rt =
     rt\<lparr>rtr_label_flags := ucast (entry_label_flags ent), rtr_label := ucast (entry_label ent),
        rtr_prefix_len := entry_prefix_len ent, rtr_index := entry_bridge_index ent,
        rtr_nh := entry_ptr ent\<rparr>"

fun lookup_loop ::
  "(ip_bucket_entry list \<Rightarrow> vr_route_req \<Rightarrow> nat \<times> vr_route_req) \<Rightarrow> ip_bucket_entry list \<Rightarrow>
   nat \<Rightarrow> nat \<Rightarrow> nat list \<Rightarrow> vr_route_req \<Rightarrow> nat \<times> vr_route_req" where
  "lookup_loop sub bkt limit index [] rt = (rtr_nh rt, rt)"
| "lookup_loop sub bkt limit index (i # is) rt =
     (let ent = bkt ! ((index + i) mod 256)
      in case entry_data ent of
           Bucket b \<Rightarrow> (case sub b rt of (ret, rt) \<Rightarrow>
             if ret \<noteq> 0 then (rtr_nh rt, rt) else lookup_loop sub b limit index is rt)
         | _ \<Rightarrow>
             if limit \<le> i \<and> entry_prefix_len ent \<ge> rtr_prefix_len rt then lookup_loop sub bkt limit index is rt
             else if entry_prefix_len ent > rtr_prefix_len rt then lookup_loop sub bkt limit index is rt
             else (rtr_nh (rt_from_leaf ent rt), rt_from_leaf ent rt))"

primrec mtrie_lookup_bkt ::
  "nat \<Rightarrow> nat \<Rightarrow> ip_bucket_entry list \<Rightarrow> vr_route_req \<Rightarrow> nat \<times> vr_route_req" where
  "mtrie_lookup_bkt 0 level bkt rt = (0, rt)"
| "mtrie_lookup_bkt (Suc n) level bkt rt =
     (let info = ip_bkt_info_get (rtr_family rt) ! level;
          limit = (if rtr_prefix_len rt > int (unat (bi_pfx_len info)) then unat (bi_size info)
                   else 2 ^ nat (int (unat (bi_pfx_len info)) - rtr_prefix_len rt))
      in lookup_loop (mtrie_lookup_bkt n (Suc level)) bkt limit (rt_to_index rt level)
           [0..<unat (bi_size info)] rt)"

end
