(* ===== verification/VR_Mtrie_LPM.thy ===== *)
theory VR_Mtrie_LPM
  imports VR_Mtrie "HOL-Library.Sublist"
begin

text \<open>
  What the trie of \<open>VR_Mtrie\<close> promises: it represents a set of routes, and a lookup
  finds the longest matching prefix. A route set maps prefixes (bit lists) to the data of a
  leaf; the trie refines it: adding and deleting a route in the trie is adding and deleting
  it in the set.
\<close>

section \<open>Longest prefix match\<close>

text \<open>The bits of a byte, most significant first, and those of an address.\<close>

definition byte_bits :: "nat \<Rightarrow> bool list" where
  "byte_bits x = map (\<lambda>i. bit x (7 - i)) [0..<8]"

definition addr_bits :: "nat list \<Rightarrow> bool list" where
  "addr_bits bs = concat (map byte_bits bs)"

text \<open>The longest prefix of \<open>a\<close> of at most \<open>k\<close> bits that has a route, and its data.\<close>

primrec lpm :: "(bool list \<rightharpoonup> 'd) \<Rightarrow> nat \<Rightarrow> bool list \<Rightarrow> (nat \<times> 'd) option" where
  "lpm R 0 a = (case R [] of None \<Rightarrow> None | Some d \<Rightarrow> Some (0, d))"
| "lpm R (Suc k) a = (case R (take (Suc k) a) of None \<Rightarrow> lpm R k a | Some d \<Rightarrow> Some (Suc k, d))"

lemma lpm_iff:
  "lpm R k a = Some (j, d) \<longleftrightarrow>
     j \<le> k \<and> R (take j a) = Some d \<and> (\<forall>i. j < i \<and> i \<le> k \<longrightarrow> R (take i a) = None)"
proof (induction k)
  case 0
  then show ?case by (auto split: option.splits)
next
  case (Suc k)
  then show ?case
    by (auto split: option.splits simp: le_Suc_eq)
qed

lemma lpm_total: "R [] \<noteq> None \<Longrightarrow> \<exists>j d. lpm R k a = Some (j, d)"
  by (induction k) (auto split: option.splits)

text \<open>Only the prefixes of the address matter.\<close>

lemma lpm_cong:
  assumes "\<And>i. i \<le> k \<Longrightarrow> R' (take i a') = R (take i a)"
  shows "lpm R' k a' = lpm R k a"
  using assms
proof (induction k)
  case 0
  from "0.prems" [of 0] show ?case by simp
next
  case (Suc k)
  have "R' (take (Suc k) a') = R (take (Suc k) a)" by (rule Suc.prems) simp
  moreover have "lpm R' k a' = lpm R k a" by (rule Suc.IH) (simp add: Suc.prems)
  ultimately show ?case by (simp split: option.split)
qed

lemma length_byte_bits [simp]: "length (byte_bits x) = 8"
  by (simp add: byte_bits_def)

lemma byte_bits_nth: "i < 8 \<Longrightarrow> byte_bits x ! i = bit x (7 - i)"
  unfolding byte_bits_def by (subst nth_map) (simp_all only: length_upt nth_upt add_0 diff_zero)

lemma addr_bits_Nil [simp]: "addr_bits [] = []"
  and addr_bits_append [simp]: "addr_bits (bs @ cs) = addr_bits bs @ addr_bits cs"
  and addr_bits_Cons [simp]: "addr_bits (x # bs) = byte_bits x @ addr_bits bs"
  by (simp_all add: addr_bits_def)

lemma length_addr_bits [simp]: "length (addr_bits bs) = 8 * length bs"
  by (induction bs) simp_all

lemma take_byte_bits_eq:
  assumes "x < 256" "y < 256" "k \<le> 8"
  shows "take k (byte_bits x) = take k (byte_bits y) \<longleftrightarrow> x div 2 ^ (8 - k) = y div 2 ^ (8 - k)"
proof -
  have high: "\<not> bit z n" if "z < 256" "8 \<le> n" for z n :: nat
  proof -
    have "z < 2 ^ n" using that power_increasing [of 8 n "2::nat"] by simp
    then show ?thesis by (simp add: bit_iff_odd)
  qed
  have "take k (byte_bits x) = take k (byte_bits y) \<longleftrightarrow> (\<forall>i<k. bit x (7 - i) = bit y (7 - i))"
    using assms(3) by (auto simp: byte_bits_def take_map list_eq_iff_nth_eq)
  also have "\<dots> \<longleftrightarrow> (\<forall>j. bit x (8 - k + j) = bit y (8 - k + j))"
  proof (rule iffI; intro allI impI)
    fix j assume a: "\<forall>i<k. bit x (7 - i) = bit y (7 - i)"
    show "bit x (8 - k + j) = bit y (8 - k + j)"
    proof (cases "j < k")
      case True
      then have "8 - k + j = 7 - (k - 1 - j)" "k - 1 - j < k" using assms(3) by auto
      with a show ?thesis by metis
    next
      case False
      then show ?thesis using high assms by simp
    qed
  next
    fix i assume a: "\<forall>j. bit x (8 - k + j) = bit y (8 - k + j)" and i: "i < k"
    have "7 - i = 8 - k + (k - 1 - i)" using i assms(3) by auto
    with a show "bit x (7 - i) = bit y (7 - i)" by metis
  qed
  also have "\<dots> \<longleftrightarrow> drop_bit (8 - k) x = drop_bit (8 - k) y"
    by (auto simp: bit_eq_iff bit_drop_bit_eq)
  finally show ?thesis by (simp add: drop_bit_eq_div)
qed

lemma byte_bits_inject: "x < 256 \<Longrightarrow> y < 256 \<Longrightarrow> byte_bits x = byte_bits y \<longleftrightarrow> x = y"
  using take_byte_bits_eq [of x y 8] by simp

lemma ex_byte_bits:
  assumes "length q = 8"
  shows "\<exists>x<256. byte_bits x = q"
proof -
  have "card (byte_bits ` {..<256}) = 256"
    by (subst card_image) (auto simp: inj_on_def byte_bits_inject)
  moreover have "card {q :: bool list. set q \<subseteq> UNIV \<and> length q = 8} = 256"
    by (subst card_lists_length_eq) (simp_all add: card_UNIV_bool)
  moreover have "byte_bits ` {..<256} \<subseteq> {q :: bool list. set q \<subseteq> UNIV \<and> length q = 8}" by auto
  ultimately have "byte_bits ` {..<256} = {q :: bool list. set q \<subseteq> UNIV \<and> length q = 8}"
    using finite_lists_length_eq [of "UNIV :: bool set" 8] by (intro card_subset_eq) auto
  then have "q \<in> byte_bits ` {..<256}" using assms by simp
  then show ?thesis by auto
qed

section \<open>The geometry of the levels\<close>

lemma bkt_info_init:
  "length (mtrie_ip_bkt_info_init pl n) = n \<and>
   (\<forall>l<n. bi_pfx_len (mtrie_ip_bkt_info_init pl n ! l) = of_nat (8 * Suc l) \<and>
          bi_bits (mtrie_ip_bkt_info_init pl n ! l) = 8 \<and>
          bi_size (mtrie_ip_bkt_info_init pl n ! l) = 256)"
proof (induction pl n rule: mtrie_ip_bkt_info_init.induct)
  case (3 pl n)
  then show ?case
    by (auto simp: Let_def nth_append less_Suc_eq IPBUCKET_LEVEL_BITS_def IPBUCKET_LEVEL_SIZE_def)
qed (simp_all add: IPBUCKET_LEVEL_BITS_def IPBUCKET_LEVEL_SIZE_def)

lemma max_level: "ip_bkt_get_max_level fam = (if fam = AF_INET6 then 16 else 4)"
  by (simp add: ip_bkt_get_max_level_def IP4_PREFIX_LEN_def IP6_PREFIX_LEN_def IPBUCKET_LEVEL_BITS_def)

lemma bkt_info_get:
  assumes "level < ip_bkt_get_max_level fam"
  shows "unat (bi_pfx_len (ip_bkt_info_get fam ! level)) = 8 * Suc level"
    "unat (bi_bits (ip_bkt_info_get fam ! level)) = 8"
    "unat (bi_size (ip_bkt_info_get fam ! level)) = 256"
proof -
  have info: "ip_bkt_info_get fam = mtrie_ip_bkt_info_init (if fam = AF_INET6 then 128 else 32) (ip_bkt_get_max_level fam)"
    by (simp add: ip_bkt_info_get_def ip_bkt_get_max_level_def IP4_PREFIX_LEN_def IP6_PREFIX_LEN_def)
  note b = bkt_info_init [THEN conjunct2, rule_format, OF assms, of "if fam = AF_INET6 then 128 else 32",
      folded info]
  have lt: "8 * Suc level < 256" using assms by (auto simp: max_level split: if_splits)
  then have "unat (of_nat (8 * Suc level) :: u8) = 8 * Suc level"
    by (subst unat_of_nat) (simp add: take_bit_eq_mod)
  with b show "unat (bi_pfx_len (ip_bkt_info_get fam ! level)) = 8 * Suc level" by (metis)
  show "unat (bi_bits (ip_bkt_info_get fam ! level)) = 8"
    "unat (bi_size (ip_bkt_info_get fam ! level)) = 256" using b by simp_all
qed

lemma bkt_info_uint:
  "level < ip_bkt_get_max_level fam \<Longrightarrow> uint (bi_pfx_len (ip_bkt_info_get fam ! level)) = 8 * int (Suc level)"
  using bkt_info_get(1) [of level fam] by (simp add: uint_nat)

section \<open>Loops over the entries of a bucket\<close>

text \<open>
  \<open>v\<close> is the part of the state that the steps of the loop leave alone. \<open>Q i\<close> is what a step
  establishes of the entry with index \<open>i\<close>.
\<close>

lemma map_st_post:
  assumes "\<And>i s'. i < length xs \<Longrightarrow> v s' = v s \<Longrightarrow> Q i (fst (f (xs ! i) s')) \<and> v (snd (f (xs ! i) s')) = v s"
  shows "length (fst (map_st f xs s)) = length xs \<and> (\<forall>i<length xs. Q i (fst (map_st f xs s) ! i)) \<and>
     v (snd (map_st f xs s)) = v s"
  using assms
proof (induction xs arbitrary: s Q)
  case (Cons x xs)
  obtain y s1 where 1: "f x s = (y, s1)" by (cases "f x s")
  obtain ys s2 where 2: "map_st f xs s1 = (ys, s2)" by (cases "map_st f xs s1")
  have q0: "Q 0 y" and v1: "v s1 = v s" using Cons.prems [of 0 s] 1 by auto
  have "length ys = length xs \<and> (\<forall>i<length xs. Q (Suc i) (ys ! i)) \<and> v s2 = v s1"
    using Cons.IH [of s1 "\<lambda>i. Q (Suc i)"] Cons.prems [of "Suc _"] v1 2 by auto
  then show ?case using 1 2 q0 v1 by (auto simp: less_Suc_eq_0_disj)
qed simp

lemma upd_st_post:
  assumes "distinct is" "\<And>i. i \<in> set is \<Longrightarrow> i < length b"
    and "\<And>i s'. i \<in> set is \<Longrightarrow> v s' = v s \<Longrightarrow> Q i (fst (f (b ! i) s')) \<and> v (snd (f (b ! i) s')) = v s"
  shows "length (fst (upd_st f is b s)) = length b \<and> (\<forall>i\<in>set is. Q i (fst (upd_st f is b s) ! i)) \<and>
     (\<forall>i. i \<notin> set is \<longrightarrow> fst (upd_st f is b s) ! i = b ! i) \<and> v (snd (upd_st f is b s)) = v s"
  using assms
proof (induction "is" arbitrary: b s)
  case (Cons i "is")
  obtain e s1 where 1: "f (b ! i) s = (e, s1)" by (cases "f (b ! i) s")
  have q: "Q i e" and v1: "v s1 = v s" using Cons.prems(3) [of i s] 1 by auto
  have ni: "i \<notin> set is" using Cons.prems(1) by simp
  let ?r = "upd_st f is (b[i := e]) s1"
  have IH: "length (fst ?r) = length (b[i := e]) \<and> (\<forall>j\<in>set is. Q j (fst ?r ! j)) \<and>
     (\<forall>j. j \<notin> set is \<longrightarrow> fst ?r ! j = b[i := e] ! j) \<and> v (snd ?r) = v s1"
  proof (rule Cons.IH)
    show "distinct is" using Cons.prems(1) by simp
    fix j assume j: "j \<in> set is"
    show "j < length (b[i := e])" using Cons.prems(2) j by simp
    fix s' assume "v s' = v s1"
    with j ni v1 show "Q j (fst (f (b[i := e] ! j) s')) \<and> v (snd (f (b[i := e] ! j) s')) = v s1"
      using Cons.prems(3) [of j s'] by (cases "i = j") auto
  qed
  have "i < length b" using Cons.prems(2) by simp
  then show ?case using IH 1 q v1 ni by auto
qed simp

lemma upd_st_all:
  assumes "length b = N"
    and "\<And>i s'. i < N \<Longrightarrow> v s' = v s \<Longrightarrow> Q i (fst (f (b ! i) s')) \<and> v (snd (f (b ! i) s')) = v s"
  shows "length (fst (upd_st f [0..<N] b s)) = N \<and> (\<forall>i<N. Q i (fst (upd_st f [0..<N] b s) ! i)) \<and>
     v (snd (upd_st f [0..<N] b s)) = v s"
proof -
  have "length (fst (upd_st f [0..<N] b s)) = length b \<and> (\<forall>i\<in>set [0..<N]. Q i (fst (upd_st f [0..<N] b s) ! i)) \<and>
     (\<forall>i. i \<notin> set [0..<N] \<longrightarrow> fst (upd_st f [0..<N] b s) ! i = b ! i) \<and> v (snd (upd_st f [0..<N] b s)) = v s"
    using assms by (intro upd_st_post) auto
  then show ?thesis using assms(1) by simp
qed

section \<open>Leaves\<close>

text \<open>A nexthop that is the one the table has for its id.\<close>

definition nh_cur :: "nh_state \<Rightarrow> nh_ptr \<Rightarrow> bool" where
  "nh_cur s p \<longleftrightarrow> 0 < p \<and> p < length (nh_heap s) \<and> nh_tbl s (nh_id (nh_heap s ! p)) = p"

lemma nh_cur_static:
  assumes "nh_static s' = nh_static s"
  shows "nh_cur s' p = nh_cur s p"
  using nh_static_tbl [OF assms] nh_static_length [OF assms] nh_static_fields(1) [OF assms, of p]
  by (auto simp: nh_cur_def)

lemma set_entry_to_nh_static: "nh_static (snd (set_entry_to_nh e p s)) = nh_static s"
proof -
  have "nh_static (s\<lparr>nh_fault := True\<rparr>) = nh_static s" by (simp add: nh_static_def)
  moreover have "vrouter_get_nexthop i s = (q, s1) \<Longrightarrow> nh_static s1 = nh_static s" for i q s s1
    using nh_static_get [of i s] by simp
  ultimately show ?thesis
    by (auto simp: set_entry_to_nh_def nh_static_put split: prod.splits entry_data.splits if_splits)
qed

lemma set_entry_to_nh_cur:
  assumes "nh_cur s p"
  shows "fst (set_entry_to_nh e p s) = set_data (Nexthop p) e"
  using assms fst_get_nexthop [of "nh_id (nh_heap s ! p)" s]
  by (auto simp: set_entry_to_nh_def nh_cur_def split: prod.splits)

text \<open>The contents of a leaf apart from the prefix length; \<open>dn\<close> tells a trie of nexthops.\<close>

datatype rleaf = RLeaf (leaf_data: entry_data) "5 word" "24 word" u32

fun mk_leaf :: "nat \<Rightarrow> rleaf \<Rightarrow> ip_bucket_entry" where
  "mk_leaf k (RLeaf d f l b) = Entry d (int k) f l b"

definition leaf_ok :: "bool \<Rightarrow> nh_state \<Rightarrow> rleaf \<Rightarrow> bool" where
  "leaf_ok dn s d \<longleftrightarrow>
     (case leaf_data d of Nexthop p \<Rightarrow> dn \<and> nh_cur s p | Vdata _ \<Rightarrow> \<not> dn | Bucket _ \<Rightarrow> False)"

definition rt_leaf :: "bool \<Rightarrow> vr_route_req \<Rightarrow> rleaf" where
  "rt_leaf dn rt = RLeaf (if dn then Nexthop (rtr_nh rt) else Vdata (rtr_nh rt))
     (ucast (rtr_label_flags rt)) (ucast (rtr_label rt)) (rtr_index rt)"

lemma mk_leaf_simps [simp]:
  "entry_prefix_len (mk_leaf k d) = int k" "entry_data (mk_leaf k d) = leaf_data d"
  by (cases d, simp)+

lemma leaf_ok_static: "nh_static s' = nh_static s \<Longrightarrow> leaf_ok dn s' = leaf_ok dn s"
  using nh_cur_static [of s' s] by (simp add: leaf_ok_def fun_eq_iff split: entry_data.split)

lemma rt_set_leaf_static: "nh_static (snd (rt_set_leaf rt e s)) = nh_static s"
  using set_entry_to_nh_static [of e "rtr_nh rt" s]
  by (auto simp: rt_set_leaf_def split: prod.splits entry_data.splits)

lemma rt_set_leaf_eq:
  assumes d: "leaf_ok dn s d" "leaf_ok dn s (rt_leaf dn rt)" and q: "0 \<le> q" "q < 256"
  shows "fst (rt_set_leaf rt (set_plen q (mk_leaf k d)) s) = mk_leaf (nat q) (rt_leaf dn rt)"
proof -
  obtain x f l b where de: "d = RLeaf x f l b" by (cases d)
  show ?thesis
  proof (cases dn)
    case True
    with d obtain p where x: "x = Nexthop p" and c: "nh_cur s (rtr_nh rt)"
      by (auto simp: leaf_ok_def de rt_leaf_def split: entry_data.splits)
    obtain e1 s1 where r: "set_entry_to_nh (Entry (Nexthop p) q f l b) (rtr_nh rt) s = (e1, s1)"
      by (cases "set_entry_to_nh (Entry (Nexthop p) q f l b) (rtr_nh rt) s")
    with set_entry_to_nh_cur [OF c, of "Entry (Nexthop p) q f l b"]
    have "e1 = Entry (Nexthop (rtr_nh rt)) q f l b" by simp
    with r q True show ?thesis by (simp add: de x rt_set_leaf_def rt_leaf_def)
  next
    case False
    with d q show ?thesis
      by (auto simp: leaf_ok_def de rt_set_leaf_def rt_leaf_def set_entry_to_vdata_def split: entry_data.splits)
  qed
qed

section \<open>What a trie represents\<close>

definition mt_leaf :: "(bool list \<rightharpoonup> rleaf) \<Rightarrow> nat list \<Rightarrow> ip_bucket_entry \<Rightarrow> bool" where
  "mt_leaf R bs e \<longleftrightarrow>
     (\<exists>k d. lpm R (8 * length bs) (addr_bits bs) = Some (k, d) \<and> e = mk_leaf k d) \<and>
     (\<forall>p. R p \<noteq> None \<longrightarrow> prefix (addr_bits bs) p \<longrightarrow> length p \<le> 8 * length bs)"

text \<open>
  The entry at path \<open>bs\<close> with \<open>n\<close> levels below it represents the routes \<open>R\<close>: its prefix
  length is that of the best route for the path, a leaf carries the data of that route and
  no longer route goes through it.
\<close>

primrec mt_rep :: "(bool list \<rightharpoonup> rleaf) \<Rightarrow> nat \<Rightarrow> nat list \<Rightarrow> ip_bucket_entry \<Rightarrow> bool" where
  "mt_rep R 0 bs e = mt_leaf R bs e"
| "mt_rep R (Suc n) bs e =
     (mt_leaf R bs e \<or>
      (\<exists>b k d. entry_data e = Bucket b \<and> length b = 256 \<and>
        lpm R (8 * length bs) (addr_bits bs) = Some (k, d) \<and> entry_prefix_len e = int k \<and>
        (\<forall>x<256. mt_rep R n (bs @ [x]) (b ! x))))"

lemma mt_repE:
  assumes "mt_rep R n bs e"
  obtains (leaf) k d where "lpm R (8 * length bs) (addr_bits bs) = Some (k, d)" "e = mk_leaf k d" "mt_leaf R bs e"
  | (bucket) m b k d where "n = Suc m" "entry_data e = Bucket b" "length b = 256"
      "lpm R (8 * length bs) (addr_bits bs) = Some (k, d)" "entry_prefix_len e = int k"
      "\<And>x. x < 256 \<Longrightarrow> mt_rep R m (bs @ [x]) (b ! x)"
proof (cases "mt_leaf R bs e")
  case True
  then obtain k d where "lpm R (8 * length bs) (addr_bits bs) = Some (k, d)" "e = mk_leaf k d"
    unfolding mt_leaf_def by blast
  with True show ?thesis by (intro leaf)
next
  case False
  with assms obtain m where "n = Suc m" by (cases n) auto
  with assms False bucket show ?thesis by auto
qed

lemma mt_rep_bucketI:
  assumes "entry_data e = Bucket b" "length b = 256"
    "lpm R (8 * length bs) (addr_bits bs) = Some (k, d)" "entry_prefix_len e = int k"
    "\<And>x. x < 256 \<Longrightarrow> mt_rep R n (bs @ [x]) (b ! x)"
  shows "mt_rep R (Suc n) bs e"
  using assms by auto

lemma mt_rep_leafI: "mt_leaf R bs e \<Longrightarrow> mt_rep R n bs e"
  by (cases n) auto

declare mt_rep.simps(2) [simp del]

lemma mt_rep_len:
  assumes "mt_rep R n bs e"
  shows "\<exists>k d. lpm R (8 * length bs) (addr_bits bs) = Some (k, d) \<and> entry_prefix_len e = int k"
  using assms by (elim mt_repE) auto

text \<open>Only the routes on the way to the path and beyond it matter.\<close>

lemma mt_rep_cong:
  assumes "mt_rep R n bs e" "\<And>p. prefix p (addr_bits bs) \<or> prefix (addr_bits bs) p \<Longrightarrow> R' p = R p"
  shows "mt_rep R' n bs e"
  using assms
proof (induction n arbitrary: bs e)
  case 0
  have "lpm R' (8 * length bs) (addr_bits bs) = lpm R (8 * length bs) (addr_bits bs)"
    by (rule lpm_cong) (simp add: "0.prems"(2) take_is_prefix)
  with 0 show ?case by (auto simp: mt_leaf_def)
next
  case (Suc n)
  have l: "lpm R' (8 * length bs) (addr_bits bs) = lpm R (8 * length bs) (addr_bits bs)"
    by (rule lpm_cong) (simp add: Suc.prems(2) take_is_prefix)
  have sub: "mt_rep R' n (bs @ [x]) c" if "mt_rep R n (bs @ [x]) c" for x c
  proof (rule Suc.IH [OF that])
    fix p assume "prefix p (addr_bits (bs @ [x])) \<or> prefix (addr_bits (bs @ [x])) p"
    then have "prefix p (addr_bits bs) \<or> prefix (addr_bits bs) p"
      by (auto simp: prefix_append dest: append_prefixD)
    then show "R' p = R p" by (rule Suc.prems(2))
  qed
  show ?case using Suc.prems(1)
  proof (cases rule: mt_repE)
    case (leaf k d)
    then have "mt_leaf R' bs e" using l Suc.prems(2) by (auto simp: mt_leaf_def)
    then show ?thesis by (rule mt_rep_leafI)
  next
    case (bucket m b k d)
    then show ?thesis using l sub by (intro mt_rep_bucketI [of e b R' bs k d]) simp_all
  qed
qed

text \<open>A change of one route does not matter where a longer one is best.\<close>

lemma lpm_longer:
  assumes "lpm R K a = Some (k, d)" "K \<le> length a" "length P < k" "\<And>p. p \<noteq> P \<Longrightarrow> R' p = R p"
  shows "lpm R' K a = Some (k, d)"
proof -
  have "R' (take i a) = R (take i a)" if "k \<le> i" "i \<le> K" for i
    using that assms(2,3) by (intro assms(4)) auto
  then show ?thesis using assms(1) by (auto simp: lpm_iff)
qed

lemma lpm_mono:
  assumes "lpm R K a = Some (k, d)" "K \<le> length a" "lpm R K' (a @ a') = Some (k', d')" "K \<le> K'"
  shows "k \<le> k'"
proof (rule ccontr)
  assume "\<not> k \<le> k'"
  moreover have "k \<le> K" "R (take k (a @ a')) = Some d"
    using assms(1,2) by (auto simp: lpm_iff)
  ultimately show False using assms(3,4) by (simp add: lpm_iff)
qed

lemma mt_leaf_longer:
  assumes leaf: "mt_leaf R bs e" and k: "lpm R (8 * length bs) (addr_bits bs) = Some (k, d)" "length P < k"
    and R': "\<And>p. p \<noteq> P \<Longrightarrow> R' p = R p"
  shows "mt_leaf R' bs e"
proof -
  have l: "lpm R' (8 * length bs) (addr_bits bs) = Some (k, d)"
    by (rule lpm_longer [OF k(1) _ k(2) R']) simp
  have "k \<le> 8 * length bs" using k(1) by (simp add: lpm_iff)
  then have "length p \<le> 8 * length bs" if "R' p \<noteq> None" "prefix (addr_bits bs) p" for p
    using that leaf R' [of p] k(2) by (cases "p = P") (auto simp: mt_leaf_def)
  then show ?thesis using l leaf k(1) by (simp add: mt_leaf_def)
qed

lemma mt_rep_longer:
  assumes "mt_rep R n bs e" "lpm R (8 * length bs) (addr_bits bs) = Some (k, d)" "length P < k"
    "\<And>p. p \<noteq> P \<Longrightarrow> R' p = R p"
  shows "mt_rep R' n bs e"
  using assms(1-3)
proof (induction n arbitrary: bs e k d)
  case (0 bs e k d)
  then show ?case using mt_leaf_longer assms(4) by simp
next
  case (Suc n bs e k d)
  have l: "lpm R' (8 * length bs) (addr_bits bs) = Some (k, d)"
    by (rule lpm_longer [OF Suc.prems(2) _ Suc.prems(3) assms(4)]) simp
  show ?case using Suc.prems(1)
  proof (cases rule: mt_repE)
    case (leaf k' d')
    then show ?thesis using mt_leaf_longer [OF leaf(3) Suc.prems(2,3) assms(4)] by (intro mt_rep_leafI)
  next
    case (bucket m b k' d')
    have "mt_rep R' n (bs @ [x]) (b ! x)" if x: "x < 256" for x
    proof -
      have r: "mt_rep R n (bs @ [x]) (b ! x)" using bucket x by simp
      from mt_rep_len [OF this] obtain j dj where j: "lpm R (8 * length (bs @ [x])) (addr_bits (bs @ [x])) = Some (j, dj)"
        by blast
      have "k \<le> j" by (rule lpm_mono [OF Suc.prems(2) _ j [unfolded addr_bits_append]]) simp_all
      then show ?thesis using Suc.IH [OF r j] Suc.prems(3) by simp
    qed
    with bucket l Suc.prems(2) show ?thesis by (intro mt_rep_bucketI [of e b R' bs k' d']) simp_all
  qed
qed

section \<open>Adding a route\<close>

lemma lpm_insert_cover:
  assumes "lpm R K a = Some (k, d0)" "prefix P a" "length P \<le> K" "k \<le> length P" "K \<le> length a"
  shows "lpm (R(P \<mapsto> d)) K a = Some (length P, d)"
proof -
  have "take (length P) a = P" using assms(2) by (metis append_eq_conv_conj prefixE)
  moreover have "(R(P \<mapsto> d)) (take i a) = None" if "length P < i" "i \<le> K" for i
  proof -
    have "length (take i a) = i" using that assms(5) by simp
    then have "take i a \<noteq> P" using that by auto
    then show ?thesis using assms(1,4) that by (simp add: lpm_iff)
  qed
  ultimately show ?thesis using assms(3) by (simp add: lpm_iff)
qed

lemma mt_leaf_insert_cover:
  assumes l: "mt_leaf R bs e" and P: "prefix P (addr_bits bs)"
    and k: "entry_prefix_len e \<le> int (length P)"
  shows "mt_leaf (R(P \<mapsto> d)) bs (mk_leaf (length P) d)"
proof -
  have le: "length P \<le> 8 * length bs" using prefix_length_le [OF P] by simp
  obtain k' d' where k': "lpm R (8 * length bs) (addr_bits bs) = Some (k', d')" "e = mk_leaf k' d'"
    using l by (auto simp: mt_leaf_def)
  have "lpm (R(P \<mapsto> d)) (8 * length bs) (addr_bits bs) = Some (length P, d)"
    using k k' by (intro lpm_insert_cover [OF k'(1) P le]) simp_all
  then show ?thesis using l le by (auto simp: mt_leaf_def)
qed

definition routes_ok :: "bool \<Rightarrow> nh_state \<Rightarrow> (bool list \<rightharpoonup> rleaf) \<Rightarrow> bool" where
  "routes_ok dn s R \<longleftrightarrow> R [] \<noteq> None \<and> (\<forall>p d. R p = Some d \<longrightarrow> leaf_ok dn s d)"

lemma routes_ok_static: "nh_static s' = nh_static s \<Longrightarrow> routes_ok dn s' = routes_ok dn s"
  using leaf_ok_static [of s' s] by (simp add: routes_ok_def fun_eq_iff)

lemma routes_ok_lpm: "routes_ok dn s R \<Longrightarrow> lpm R K a = Some (k, d) \<Longrightarrow> leaf_ok dn s d"
  by (auto simp: routes_ok_def lpm_iff)

lemma set_plen_simps [simp]:
  "entry_data (set_plen q e) = entry_data e" "entry_prefix_len (set_plen q e) = q mod 256"
  "entry_data (set_data d e) = d" "entry_prefix_len (set_data d e) = entry_prefix_len e"
  by (cases e, simp)+

lemma set_plen_nexthop: "\<not> ENTRY_IS_BUCKET e \<longleftrightarrow> (\<forall>b. entry_data e \<noteq> Bucket b)"
  by (cases e rule: ENTRY_IS_BUCKET.cases) auto

lemma leaf_ok_not_bucket: "leaf_ok dn s d \<Longrightarrow> leaf_data d \<noteq> Bucket b"
  by (auto simp: leaf_ok_def)

text \<open>One entry the route covers.\<close>

lemma add_to_entry_rep:
  assumes rep: "mt_rep R n bs e" and ok: "routes_ok dn s R" "leaf_ok dn s (rt_leaf dn rt)"
    and P: "prefix P (addr_bits bs)" "rtr_prefix_len rt = int (length P)" "length P < 256"
    and down: "\<And>m b. n = Suc m \<Longrightarrow> length b = 256 \<Longrightarrow> (\<And>x. x < 256 \<Longrightarrow> mt_rep R m (bs @ [x]) (b ! x)) \<Longrightarrow>
      length (fst (down b s)) = 256 \<and> (\<forall>x<256. mt_rep (R(P \<mapsto> rt_leaf dn rt)) m (bs @ [x]) (fst (down b s) ! x)) \<and>
      nh_static (snd (down b s)) = nh_static s"
  shows "mt_rep (R(P \<mapsto> rt_leaf dn rt)) n bs (fst (add_to_entry down rt e s)) \<and>
     nh_static (snd (add_to_entry down rt e s)) = nh_static s"
proof -
  let ?R = "R(P \<mapsto> rt_leaf dn rt)"
  obtain k d where k: "lpm R (8 * length bs) (addr_bits bs) = Some (k, d)" "entry_prefix_len e = int k"
    using mt_rep_len [OF rep] by blast
  show ?thesis
  proof (cases "length P < k")
    case True
    then have "mt_rep ?R n bs e" by (intro mt_rep_longer [OF rep k(1), of P]) auto
    then show ?thesis using True k(2) P(2) by (simp add: add_to_entry_def)
  next
    case False
    show ?thesis using rep
    proof (cases rule: mt_repE)
      case (leaf k' d')
      have l: "mt_leaf ?R bs (mk_leaf (length P) (rt_leaf dn rt))"
        using False k by (intro mt_leaf_insert_cover [OF leaf(3) P(1)]) simp
      have d: "leaf_ok dn s d'" by (rule routes_ok_lpm [OF ok(1) leaf(1)])
      then have "add_to_entry down rt e s = rt_set_leaf rt (set_plen (rtr_prefix_len rt) (mk_leaf k' d')) s"
        using leaf(2) False k(2) P(2) leaf_ok_not_bucket [OF d]
        by (auto simp: add_to_entry_def Let_def split: entry_data.split)
      then show ?thesis
        using rt_set_leaf_eq [OF d ok(2), of "rtr_prefix_len rt" k'] P(2,3) l rt_set_leaf_static
        by (simp add: mt_rep_leafI)
    next
      case (bucket m b k' d')
      obtain b' s' where r: "down b s = (b', s')" by (cases "down b s")
      note dn = down [OF bucket(1,3,6), unfolded r, simplified]
      have "add_to_entry down rt e s = (set_data (Bucket b') (set_plen (int (length P)) e), s')"
        using False k(2) P(2) bucket(2) r by (simp add: add_to_entry_def Let_def)
      moreover have "lpm ?R (8 * length bs) (addr_bits bs) = Some (length P, rt_leaf dn rt)"
        using False prefix_length_le [OF P(1)] by (intro lpm_insert_cover [OF k(1) P(1)]) simp_all
      ultimately show ?thesis
        using dn P(3) unfolding bucket(1)
        by (intro conjI mt_rep_bucketI [of _ b' ?R bs "length P" "rt_leaf dn rt"]) simp_all
    qed
  qed
qed

lemma add_to_tree_rep:
  assumes "mt_rep R n bs e" "routes_ok dn s R" "leaf_ok dn s (rt_leaf dn rt)"
    and P: "prefix P (addr_bits bs)" "rtr_prefix_len rt = int (length P)" "length P < 256"
  shows "mt_rep (R(P \<mapsto> rt_leaf dn rt)) n bs (fst (add_to_tree n rt e s)) \<and>
     nh_static (snd (add_to_tree n rt e s)) = nh_static s"
  using assms(1-4)
proof (induction n arbitrary: bs e s)
  case 0
  show ?case unfolding add_to_tree.simps by (rule add_to_entry_rep [OF "0.prems" P(2,3)]) simp
next
  case (Suc n)
  let ?Q = "\<lambda>x c. mt_rep (R(P \<mapsto> rt_leaf dn rt)) n (bs @ [x]) c"
  show ?case
    unfolding add_to_tree.simps
  proof (rule add_to_entry_rep [OF Suc.prems P(2,3)])
    fix m b
    assume m: "Suc n = Suc m" and len: "length b = 256" and ch: "\<And>x. x < 256 \<Longrightarrow> mt_rep R m (bs @ [x]) (b ! x)"
    have step: "?Q x (fst (add_to_tree n rt (b ! x) s')) \<and> nh_static (snd (add_to_tree n rt (b ! x) s')) = nh_static s"
      if "x < length b" "nh_static s' = nh_static s" for x s'
    proof -
      have "prefix P (addr_bits (bs @ [x]))" using Suc.prems(4) by (simp add: prefix_prefix)
      then show ?thesis
        using Suc.IH [of "bs @ [x]" "b ! x" s'] ch [of x] len m that Suc.prems(2,3)
          routes_ok_static [OF that(2)] leaf_ok_static [OF that(2)] by (simp del: fun_upd_apply)
    qed
    show "length (fst (map_st (add_to_tree n rt) b s)) = 256 \<and>
      (\<forall>x<256. mt_rep (R(P \<mapsto> rt_leaf dn rt)) m (bs @ [x]) (fst (map_st (add_to_tree n rt) b s) ! x)) \<and>
      nh_static (snd (map_st (add_to_tree n rt) b s)) = nh_static s"
      using map_st_post [of b nh_static s ?Q "add_to_tree n rt", OF step] len m by simp
  qed
qed

text \<open>A leaf on the way becomes a bucket of copies of it.\<close>

lemma set_entry_leaf_eq:
  assumes "leaf_ok dn s d"
  shows "fst (set_entry_leaf dn e (entry_ptr (mk_leaf k d)) s) = set_data (leaf_data d) e"
    "nh_static (snd (set_entry_leaf dn e p s)) = nh_static s"
proof -
  obtain x f l b where d: "d = RLeaf x f l b" by (cases d)
  show "fst (set_entry_leaf dn e (entry_ptr (mk_leaf k d)) s) = set_data (leaf_data d) e"
    using assms set_entry_to_nh_cur [of s _ e]
    by (auto simp: d leaf_ok_def set_entry_leaf_def set_entry_to_vdata_def split: entry_data.splits)
  show "nh_static (snd (set_entry_leaf dn e p s)) = nh_static s"
    by (simp add: set_entry_leaf_def set_entry_to_nh_static)
qed

lemma copy_entry_leaf: "k < 256 \<Longrightarrow> copy_entry (mk_leaf k d) (set_data (leaf_data d) e) = mk_leaf k d"
  by (cases d; cases e) (simp add: copy_entry_def)

lemma alloc_bucket_copy:
  assumes "leaf_ok dn s d" "k < 256" "mtrie_alloc_bucket dn sz (mk_leaf k d) s = (r, s')"
  shows "nh_static s' = nh_static s" "r = None \<and> nh_fault s' \<or> r = Some (replicate sz (mk_leaf k d))"
proof -
  let ?f = "\<lambda>ent s. case set_entry_leaf dn ent (entry_ptr (mk_leaf k d)) s of (ent, s) \<Rightarrow>
      (copy_entry (mk_leaf k d) ent, s)"
  define s1 where "s1 = snd (next_alloc s)"
  have s1: "nh_static s1 = nh_static s" by (simp add: s1_def next_alloc_def nh_static_def)
  have "fst (?f e s2) = mk_leaf k d \<and> nh_static (snd (?f e s2)) = nh_static s1"
    if "nh_static s2 = nh_static s1" for e s2
    using set_entry_leaf_eq(1) [of dn s2 d e k] set_entry_leaf_eq(2) [of dn s2 d e "entry_ptr (mk_leaf k d)"]
      leaf_ok_static [of s2 s] that s1 assms(1,2) copy_entry_leaf
    by (auto split: prod.splits)
  then have m: "length (fst (map_st ?f (replicate sz zero_entry) s1)) = sz"
    "\<And>i. i < sz \<Longrightarrow> fst (map_st ?f (replicate sz zero_entry) s1) ! i = mk_leaf k d"
    "nh_static (snd (map_st ?f (replicate sz zero_entry) s1)) = nh_static s1"
    using map_st_post [of "replicate sz zero_entry" nh_static s1 "\<lambda>_ e. e = mk_leaf k d" ?f] by simp_all
  have b: "fst (map_st ?f (replicate sz zero_entry) s1) = replicate sz (mk_leaf k d)"
    using m(1,2) by (intro nth_equalityI) simp_all
  show "r = None \<and> nh_fault s' \<or> r = Some (replicate sz (mk_leaf k d))"
    using assms(3) b by (auto simp: mtrie_alloc_bucket_def s1_def next_alloc_def split: prod.splits if_splits)
  have "nh_static (s1\<lparr>nh_fault := True\<rparr>) = nh_static s1" by (simp add: nh_static_def)
  with assms(3) m(3) s1 show "nh_static s' = nh_static s"
    by (auto simp: mtrie_alloc_bucket_def s1_def next_alloc_def split: prod.splits if_splits)
qed

lemma mt_leaf_child:
  assumes "mt_leaf R bs e"
  shows "mt_leaf R (bs @ [x]) e"
proof -
  have none: "R (take i (addr_bits (bs @ [x]))) = None" if "8 * length bs < i" "i \<le> 8 * length (bs @ [x])" for i
  proof (rule ccontr)
    assume a: "R (take i (addr_bits (bs @ [x]))) \<noteq> None"
    have "prefix (addr_bits bs) (take i (addr_bits (bs @ [x])))" using that by simp
    then have "length (take i (addr_bits (bs @ [x]))) \<le> 8 * length bs"
      using a assms unfolding mt_leaf_def by blast
    then show False using that by simp
  qed
  obtain k d where k: "lpm R (8 * length bs) (addr_bits bs) = Some (k, d)" "e = mk_leaf k d"
    using assms by (auto simp: mt_leaf_def)
  then have "R (take i (addr_bits (bs @ [x]))) = None" if "k < i" "i \<le> 8 * length (bs @ [x])" for i
    using that none [of i] by (cases "i \<le> 8 * length bs") (auto simp: lpm_iff)
  then have "lpm R (8 * length (bs @ [x])) (addr_bits (bs @ [x])) = Some (k, d)"
    using k(1) by (simp add: lpm_iff)
  moreover have "length p \<le> 8 * length (bs @ [x])" if "R p \<noteq> None" "prefix (addr_bits (bs @ [x])) p" for p
  proof -
    have "prefix (addr_bits bs) p" using that(2) by (auto dest: append_prefixD)
    then have "length p \<le> 8 * length bs" using that(1) assms by (simp add: mt_leaf_def)
    then show ?thesis by simp
  qed
  ultimately show ?thesis using k(2) by (simp add: mt_leaf_def)
qed

text \<open>The prefix of a route, and a route that is as long as it says and whose host bits are 0.\<close>

definition rt_bytes :: "vr_route_req \<Rightarrow> nat list" where
  "rt_bytes rt = map unat (rtr_prefix rt)"

definition rt_key :: "vr_route_req \<Rightarrow> bool list" where
  "rt_key rt = take (nat (rtr_prefix_len rt)) (addr_bits (rt_bytes rt))"

definition rt_valid :: "vr_route_req \<Rightarrow> bool" where
  "rt_valid rt \<longleftrightarrow> 0 \<le> rtr_prefix_len rt \<and> rtr_prefix_len rt \<le> 8 * int (ip_bkt_get_max_level (rtr_family rt)) \<and>
     length (rtr_prefix rt) = ip_bkt_get_max_level (rtr_family rt)"

definition rt_masked :: "vr_route_req \<Rightarrow> bool" where
  "rt_masked rt \<longleftrightarrow> (\<forall>b\<in>set (drop (nat (rtr_prefix_len rt)) (addr_bits (rt_bytes rt))). \<not> b)"

lemma rt_valid_simps:
  assumes "rt_valid rt"
  shows "length (rt_bytes rt) = ip_bkt_get_max_level (rtr_family rt)"
    "rtr_prefix_len rt = int (length (rt_key rt))" "length (rt_key rt) < 256"
    "length (rt_key rt) \<le> 8 * ip_bkt_get_max_level (rtr_family rt)"
  using assms by (auto simp: rt_valid_def rt_bytes_def rt_key_def max_level split: if_splits)

lemma rt_bytes_less: "i < length (rt_bytes rt) \<Longrightarrow> rt_bytes rt ! i < 256"
proof -
  assume "i < length (rt_bytes rt)"
  then have "rt_bytes rt ! i = unat (rtr_prefix rt ! i)" by (simp add: rt_bytes_def)
  also have "\<dots> < 2 ^ LENGTH(8)" by (rule unsigned_less)
  finally show ?thesis by simp
qed

lemma rt_to_index_eq: "level < length (rt_bytes rt) \<Longrightarrow> rt_to_index rt level = rt_bytes rt ! level"
  by (simp add: rt_to_index_def rt_bytes_def)

lemma addr_bits_split:
  assumes "level < length bytes"
  shows "addr_bits bytes = addr_bits (take level bytes) @ byte_bits (bytes ! level) @ addr_bits (drop (Suc level) bytes)"
  using arg_cong [OF id_take_nth_drop [OF assms], of addr_bits] by simp

lemma rt_key_level:
  assumes "level < length (rt_bytes rt)" "8 * level \<le> nat (rtr_prefix_len rt)" "nat (rtr_prefix_len rt) \<le> 8 * Suc level"
  shows "rt_key rt = addr_bits (take level (rt_bytes rt)) @
     take (nat (rtr_prefix_len rt) - 8 * level) (byte_bits (rt_bytes rt ! level))"
  using assms by (simp add: rt_key_def addr_bits_split [OF assms(1)])

lemma rt_key_covers:
  assumes "level < length (rt_bytes rt)" "8 * level \<le> nat (rtr_prefix_len rt)" "nat (rtr_prefix_len rt) \<le> 8 * Suc level"
    and x: "x < 256"
  defines "j \<equiv> 8 * Suc level - nat (rtr_prefix_len rt)"
  shows "prefix (rt_key rt) (addr_bits (take level (rt_bytes rt) @ [x])) \<longleftrightarrow>
     x div 2 ^ j = rt_bytes rt ! level div 2 ^ j"
proof -
  let ?k = "nat (rtr_prefix_len rt) - 8 * level"
  have k: "?k \<le> 8" "8 - ?k = j" using assms(2,3) by (auto simp: j_def)
  have "prefix (take ?k (byte_bits (rt_bytes rt ! level))) (byte_bits x) \<longleftrightarrow>
      take ?k (byte_bits (rt_bytes rt ! level)) = take ?k (byte_bits x)"
  proof
    assume "prefix (take ?k (byte_bits (rt_bytes rt ! level))) (byte_bits x)"
    then have "take ?k (byte_bits (rt_bytes rt ! level)) =
        take (length (take ?k (byte_bits (rt_bytes rt ! level)))) (byte_bits x)"
      by (metis append_eq_conv_conj prefixE)
    then show "take ?k (byte_bits (rt_bytes rt ! level)) = take ?k (byte_bits x)" using k(1) by (simp add: min_def)
  qed (metis take_is_prefix)
  then show ?thesis
    using take_byte_bits_eq [OF x rt_bytes_less [OF assms(1)] k(1)] k(2)
    by (auto simp: rt_key_level [OF assms(1-3)])
qed

lemma nth_in_drop: "k \<le> i \<Longrightarrow> i < length xs \<Longrightarrow> xs ! i \<in> set (drop k xs)"
  using nth_mem [of "i - k" "drop k xs"] by simp

lemma rt_masked_byte:
  assumes m: "rt_masked rt" and l: "level < length (rt_bytes rt)"
    and q: "8 * level < nat (rtr_prefix_len rt)" "nat (rtr_prefix_len rt) \<le> 8 * Suc level"
  shows "2 ^ (8 * Suc level - nat (rtr_prefix_len rt)) dvd rt_bytes rt ! level"
proof -
  let ?k = "nat (rtr_prefix_len rt) - 8 * level" and ?j = "8 * Suc level - nat (rtr_prefix_len rt)"
  have "set (drop ?k (byte_bits (rt_bytes rt ! level))) \<subseteq> set (drop (nat (rtr_prefix_len rt)) (addr_bits (rt_bytes rt)))"
    using q l by (simp add: addr_bits_split [OF l])
  then have z: "\<forall>b\<in>set (drop ?k (byte_bits (rt_bytes rt ! level))). \<not> b"
    using m by (auto simp: rt_masked_def)
  have "\<not> bit (rt_bytes rt ! level) i" if "i < ?j" for i
  proof -
    have "7 - i < 8" "?k \<le> 7 - i" using that q by auto
    then have "byte_bits (rt_bytes rt ! level) ! (7 - i) \<in> set (drop ?k (byte_bits (rt_bytes rt ! level)))"
      by (intro nth_in_drop) simp_all
    with z have "\<not> byte_bits (rt_bytes rt ! level) ! (7 - i)" by blast
    moreover have "byte_bits (rt_bytes rt ! level) ! (7 - i) = bit (rt_bytes rt ! level) i"
      using that q by (simp add: byte_bits_nth)
    ultimately show ?thesis by simp
  qed
  then have "take_bit ?j (rt_bytes rt ! level) = 0"
    by (intro bit_eqI) (simp add: bit_take_bit_iff)
  then show ?thesis by (simp add: take_bit_eq_0_iff)
qed

text \<open>The entries the last loop of an addition visits are those the route covers.\<close>

lemma div_eq_range:
  fixes x i m :: nat
  assumes "0 < m" "m dvd i"
  shows "x div m = i div m \<longleftrightarrow> i \<le> x \<and> x < i + m"
proof -
  obtain c where c: "i = m * c" using assms(2) by (elim dvdE)
  show ?thesis
  proof
    assume "x div m = i div m"
    then have "x div m = c" using c assms(1) by simp
    then show "i \<le> x \<and> x < i + m"
      using c assms(1) div_mult_mod_eq [of x m] mod_less_divisor [OF assms(1), of x] by (simp add: mult.commute)
  next
    assume "i \<le> x \<and> x < i + m"
    then show "x div m = i div m" using c assms(1) by (intro div_nat_eqI) (simp_all add: mult.commute)
  qed
qed

lemma div_block:
  assumes "0 < m" "m dvd i" "i + m \<le> 256"
  shows "{x. x < 256 \<and> x div m = i div m} = {i..<i + (m::nat)}"
  unfolding div_eq_range [OF assms(1,2)] using assms(3) by auto

lemma mod_add_inj:
  assumes "(a + k) mod 256 = (a + l) mod (256::nat)" "k < 256" "l < 256"
  shows "k = l"
proof -
  have "(int a + int k) mod 256 = (int a + int l) mod 256"
    using arg_cong [OF assms(1), of int] by (simp add: zmod_int)
  then have "(int k - int l) mod 256 = 0"
    by (metis add_diff_cancel_left mod_eq_dvd_iff dvd_eq_mod_eq_0)
  then have "256 dvd (int k - int l)" by (simp add: dvd_eq_mod_eq_0)
  moreover have "\<bar>int k - int l\<bar> < 256" using assms(2,3) by simp
  ultimately show ?thesis using zdvd_not_zless [of "\<bar>int k - int l\<bar>" 256] by (cases "k = l") auto
qed

lemma distinct_wrap_range:
  assumes "m \<le> 256"
  shows "distinct (map (\<lambda>k. (i + k) mod 256) [0..<m])"
  unfolding distinct_map
proof (intro conjI inj_onI)
  fix k l assume a: "k \<in> set [0..<m]" "l \<in> set [0..<m]" "(i + k) mod 256 = (i + l) mod 256"
  show "k = l" by (rule mod_add_inj [OF a(3)]) (use a assms in auto)
qed simp

lemma set_wrap_range:
  assumes "i + m \<le> 256"
  shows "set (map (\<lambda>k. (i + k) mod 256) [0..<m]) = {i..<i + m}"
proof -
  have "(\<lambda>k. (i + k) mod 256) ` {0..<m} = (\<lambda>k. i + k) ` {0..<m}"
    using assms by (intro image_cong) auto
  then show ?thesis by (simp only: set_map set_upt image_add_atLeastLessThan add_0_right add_0_left add.commute [of m i])
qed

lemma set_wrap_all: "set (map (\<lambda>k. (i + k) mod 256) [0..<256]) = {..<256}"
proof -
  have "distinct (map (\<lambda>k. (i + k) mod 256) [0..<256])" by (rule distinct_wrap_range) simp
  then have "card (set (map (\<lambda>k. (i + k) mod 256) [0..<256])) = 256"
    by (simp only: distinct_card length_map length_upt diff_zero)
  moreover have "set (map (\<lambda>k. (i + k) mod 256) [0..<256]) \<subseteq> {..<256}" by auto
  ultimately show ?thesis by (intro card_subset_eq) simp_all
qed

lemma add_indices_covered:
  assumes v: "rt_valid rt" "rt_masked rt" and l: "level < ip_bkt_get_max_level (rtr_family rt)"
    and q: "rtr_prefix_len rt \<le> 8 * int (Suc level)" "8 * int level < rtr_prefix_len rt \<or> level = 0"
  defines "is \<equiv> add_indices rt (ip_bkt_info_get (rtr_family rt) ! level) (rt_to_index rt level)"
  shows "distinct is"
    "set is = {x. x < 256 \<and> prefix (rt_key rt) (addr_bits (take level (rt_bytes rt) @ [x]))}"
proof -
  let ?i = "rt_bytes rt ! level" and ?q = "nat (rtr_prefix_len rt)"
  have len: "level < length (rt_bytes rt)" using l rt_valid_simps(1) [OF v(1)] by simp
  have q0: "0 \<le> rtr_prefix_len rt" using v(1) by (simp add: rt_valid_def)
  have lo: "8 * level \<le> ?q" and hi: "?q \<le> 8 * Suc level" using q q0 by auto
  have i: "?i < 256" by (rule rt_bytes_less [OF len])
  let ?j = "8 * Suc level - ?q"
  have is_eq: "is = map (\<lambda>k. (?i + k) mod 256) [0..<add_fin rt (ip_bkt_info_get (rtr_family rt) ! level)]"
    by (simp add: is_def add_indices_def rt_to_index_eq [OF len])
  have fin: "add_fin rt (ip_bkt_info_get (rtr_family rt) ! level) = 2 ^ ?j"
    using q q0 by (auto simp: add_fin_def bkt_info_get [OF l] nat_diff_distrib)
  have j: "?j \<le> 8" using lo by simp
  then have fin_le: "(2::nat) ^ ?j \<le> 256" using power_increasing [of ?j 8 "2::nat"] by simp
  show "distinct is" unfolding is_eq fin by (rule distinct_wrap_range [OF fin_le])
  have cov: "set is = {x. x < 256 \<and> x div 2 ^ ?j = ?i div 2 ^ ?j}"
  proof (cases "8 * int level < rtr_prefix_len rt")
    case True
    then have d: "2 ^ ?j dvd ?i" using rt_masked_byte [OF v(2) len] hi by simp
    have le: "?i + 2 ^ ?j \<le> 256"
      using mod_dvd_le [OF d, of 256] le_imp_power_dvd [OF j, of "2::nat"] i by simp
    show ?thesis unfolding is_eq fin set_wrap_range [OF le] by (rule div_block [OF _ d le, symmetric]) simp
  next
    case False
    then have "?q = 0" "level = 0" using q q0 by auto
    then have j8: "(2::nat) ^ ?j = 256" by simp
    show ?thesis unfolding is_eq fin j8 set_wrap_all using i by auto
  qed
  then show "set is = {x. x < 256 \<and> prefix (rt_key rt) (addr_bits (take level (rt_bytes rt) @ [x]))}"
    using rt_key_covers [OF len lo hi] by auto
qed

lemma prefix_same_length: "prefix a b \<Longrightarrow> length a = length b \<Longrightarrow> a = b"
  by (auto simp: prefix_def)

text \<open>Entries the route does not touch; \<open>R'\<close> differs from \<open>R\<close> at the prefix of the route only.\<close>

lemma mt_rep_not_covered:
  assumes "mt_rep R n bs c" "\<not> prefix P (addr_bits bs)" "length P \<le> 8 * length bs" "\<And>p. p \<noteq> P \<Longrightarrow> R' p = R p"
  shows "mt_rep R' n bs c"
proof (rule mt_rep_cong [OF assms(1)])
  fix p assume p: "prefix p (addr_bits bs) \<or> prefix (addr_bits bs) p"
  have "p \<noteq> P"
  proof
    assume "p = P"
    with p assms(2) have "prefix (addr_bits bs) P" by simp
    moreover from this have "length (addr_bits bs) = length P"
      using assms(3) prefix_length_le by fastforce
    ultimately have "addr_bits bs = P" by (auto simp: prefix_def)
    with assms(2) show False by simp
  qed
  then show "R' p = R p" by (rule assms(4))
qed

lemma mt_rep_other_child:
  assumes "mt_rep R n (bs @ [x]) c" "prefix (addr_bits (bs @ [y])) P" "x < 256" "y < 256" "x \<noteq> y"
    "\<And>p. p \<noteq> P \<Longrightarrow> R' p = R p"
  shows "mt_rep R' n (bs @ [x]) c"
proof (rule mt_rep_cong [OF assms(1)])
  fix p assume p: "prefix p (addr_bits (bs @ [x])) \<or> prefix (addr_bits (bs @ [x])) p"
  have "p \<noteq> P"
  proof
    assume "p = P"
    then have "prefix (addr_bits (bs @ [x])) (addr_bits (bs @ [y])) \<or> prefix (addr_bits (bs @ [y])) (addr_bits (bs @ [x]))"
      using p assms(2) by (meson prefix_order.trans prefix_same_cases)
    then have "prefix (byte_bits x) (byte_bits y) \<or> prefix (byte_bits y) (byte_bits x)" by simp
    then have "byte_bits x = byte_bits y" using prefix_same_length [of "byte_bits x" "byte_bits y"]
        prefix_same_length [of "byte_bits y" "byte_bits x"] by auto
    then show False using assms(3-5) by (simp add: byte_bits_inject)
  qed
  then show "R' p = R p" by (rule assms(6))
qed

text \<open>What the descent finds at a level: a bucket whose entries represent the routes.\<close>

lemma add_bkt_rep:
  assumes rep: "mt_rep R (Suc n) bs e" and ok: "routes_ok dn s R" and len: "length bs < 32"
    and r: "add_bkt dn 256 e s = (b', e', s')"
  shows "nh_static s' = nh_static s" "entry_prefix_len e' = entry_prefix_len e"
    "b' = None \<and> nh_fault s' \<or> (\<exists>b. b' = Some b \<and> length b = 256 \<and> (\<forall>x<256. mt_rep R n (bs @ [x]) (b ! x)))"
proof -
  show "nh_static s' = nh_static s" "entry_prefix_len e' = entry_prefix_len e"
    "b' = None \<and> nh_fault s' \<or> (\<exists>b. b' = Some b \<and> length b = 256 \<and> (\<forall>x<256. mt_rep R n (bs @ [x]) (b ! x)))"
    using rep
  proof (atomize(full), cases rule: mt_repE)
    case (leaf k d)
    have d: "leaf_ok dn s d" by (rule routes_ok_lpm [OF ok leaf(1)])
    have k: "k < 256" using leaf(1) len by (simp add: lpm_iff)
    obtain ob s1 where a: "mtrie_alloc_bucket dn 256 (mk_leaf k d) s = (ob, s1)"
      by (cases "mtrie_alloc_bucket dn 256 (mk_leaf k d) s")
    note al = alloc_bucket_copy [OF d k a]
    have r1: "add_bkt dn 256 e s = (case ob of None \<Rightarrow> (None, e, s1)
        | Some b \<Rightarrow> (case set_entry_to_bucket e b s1 of (ent, s) \<Rightarrow> (Some b, ent, s)))"
      using a leaf(2) leaf_ok_not_bucket [OF d]
      by (auto simp: add_bkt_def split: entry_data.split option.split)
    obtain e1 s2 where sb: "set_entry_to_bucket e (replicate 256 e) s1 = (e1, s2)"
      by (cases "set_entry_to_bucket e (replicate 256 e) s1")
    then have "nh_static s2 = nh_static s1 \<and> entry_prefix_len e1 = entry_prefix_len e"
      by (auto simp: set_entry_to_bucket_def nh_static_put split: entry_data.split)
    moreover have "mt_rep R n (bs @ [x]) e" for x by (intro mt_rep_leafI mt_leaf_child leaf(3))
    ultimately show "(nh_static s' = nh_static s) \<and> (entry_prefix_len e' = entry_prefix_len e) \<and>
       (b' = None \<and> nh_fault s' \<or> (\<exists>b. b' = Some b \<and> length b = 256 \<and> (\<forall>x<256. mt_rep R n (bs @ [x]) (b ! x))))"
      using r r1 al leaf(2) sb by auto
  next
    case (bucket m b k d)
    then show "(nh_static s' = nh_static s) \<and> (entry_prefix_len e' = entry_prefix_len e) \<and>
       (b' = None \<and> nh_fault s' \<or> (\<exists>b. b' = Some b \<and> length b = 256 \<and> (\<forall>x<256. mt_rep R n (bs @ [x]) (b ! x))))"
      using r by (auto simp: add_bkt_def)
  qed
qed

text \<open>The entry that leads to the place of the route keeps its prefix length.\<close>

lemma lpm_path:
  assumes "lpm R (8 * length bs) (addr_bits bs) = Some (k, d)"
    and "8 * length bs < length P \<or> P = [] \<and> bs = []" "\<And>p. p \<noteq> P \<Longrightarrow> R' p = R p" "R' [] \<noteq> None"
  shows "\<exists>d'. lpm R' (8 * length bs) (addr_bits bs) = Some (k, d')"
proof (cases "8 * length bs < length P")
  case True
  have "lpm R' (8 * length bs) (addr_bits bs) = lpm R (8 * length bs) (addr_bits bs)"
    using True by (intro lpm_cong assms(3)) auto
  then show ?thesis using assms(1) by simp
next
  case False
  then have "bs = []" using assms(2) by simp
  then show ?thesis using assms(1,4) by (auto split: option.splits)
qed

text \<open>The last loop of an addition, over the entries of one bucket.\<close>

lemma add_level_rep:
  assumes v: "rt_valid rt" "rt_masked rt" and l: "level < ip_bkt_get_max_level (rtr_family rt)"
    and q: "rtr_prefix_len rt \<le> 8 * int (Suc level)" "8 * int level < rtr_prefix_len rt \<or> level = 0"
    and ok: "routes_ok dn s R" "leaf_ok dn s (rt_leaf dn rt)"
    and b: "length b = 256" "\<And>x. x < 256 \<Longrightarrow> mt_rep R n (take level (rt_bytes rt) @ [x]) (b ! x)"
    and r: "upd_st (add_to_tree n rt)
          (add_indices rt (ip_bkt_info_get (rtr_family rt) ! level) (rt_to_index rt level)) b s = (c, s')"
  shows "length c = 256 \<and> nh_static s' = nh_static s \<and>
     (\<forall>x<256. mt_rep (R(rt_key rt \<mapsto> rt_leaf dn rt)) n (take level (rt_bytes rt) @ [x]) (c ! x))"
proof -
  let ?bs = "take level (rt_bytes rt)" and ?P = "rt_key rt" and ?R = "R(rt_key rt \<mapsto> rt_leaf dn rt)"
  let ?is = "add_indices rt (ip_bkt_info_get (rtr_family rt) ! level) (rt_to_index rt level)"
  have P: "rtr_prefix_len rt = int (length ?P)" "length ?P < 256" using rt_valid_simps [OF v(1)] by auto
  have lbs: "length ?bs = level" using l rt_valid_simps(1) [OF v(1)] by auto
  note cov = add_indices_covered [OF v l q]
  have lt: "x < length b" if "x \<in> set ?is" for x using that cov(2) b(1) by simp
  have step: "mt_rep ?R n (?bs @ [x]) (fst (add_to_tree n rt (b ! x) s3)) \<and>
      nh_static (snd (add_to_tree n rt (b ! x) s3)) = nh_static s"
    if "x \<in> set ?is" "nh_static s3 = nh_static s" for x s3
    using that cov(2) b(2) ok routes_ok_static [OF that(2)] leaf_ok_static [OF that(2)] P
      add_to_tree_rep [of R n "?bs @ [x]" "b ! x" dn s3 rt ?P]
    by (simp del: fun_upd_apply)
  note post = upd_st_post [of ?is b nh_static s "\<lambda>x c. mt_rep ?R n (?bs @ [x]) c" "add_to_tree n rt",
      OF cov(1) lt step, unfolded r fst_conv snd_conv b(1)]
  have "mt_rep ?R n (?bs @ [x]) (c ! x)" if "x < 256" for x
  proof (cases "x \<in> set ?is")
    case True
    then show ?thesis using post by blast
  next
    case False
    then have c: "c ! x = b ! x" and n: "\<not> prefix ?P (addr_bits (?bs @ [x]))"
      using post cov(2) that by (blast, simp)
    show ?thesis unfolding c
      by (rule mt_rep_not_covered [OF b(2) [OF that] n]) (use q(1) P(1) lbs in auto)
  qed
  then show ?thesis using post by blast
qed

lemma mtrie_add_loop_rep:
  assumes v: "rt_valid rt" "rt_masked rt"
  shows "mt_rep R n (take level (rt_bytes rt)) e \<Longrightarrow> routes_ok dn s R \<Longrightarrow> leaf_ok dn s (rt_leaf dn rt) \<Longrightarrow>
    level + n = ip_bkt_get_max_level (rtr_family rt) \<Longrightarrow>
    8 * int level < rtr_prefix_len rt \<or> level = 0 \<Longrightarrow>
    mtrie_add_loop n rt dn level e s = (e', s') \<Longrightarrow>
    nh_static s' = nh_static s \<and> (nh_fault s' \<or> mt_rep (R(rt_key rt \<mapsto> rt_leaf dn rt)) n (take level (rt_bytes rt)) e')"
proof (induction n arbitrary: level e s e' s')
  case 0
  then have "ip_bkt_get_max_level (rtr_family rt) = 0" using v(1) by (auto simp: rt_valid_def)
  then show ?case by (simp add: max_level split: if_splits)
next
  case (Suc n)
  let ?M = "ip_bkt_get_max_level (rtr_family rt)" and ?bs = "take level (rt_bytes rt)"
  let ?P = "rt_key rt" and ?R = "R(rt_key rt \<mapsto> rt_leaf dn rt)" and ?i = "rt_bytes rt ! level"
  have l: "level < ?M" and len: "level < length (rt_bytes rt)" and lbs: "length ?bs = level"
    using Suc.prems(4) rt_valid_simps(1) [OF v(1)] by auto
  have q: "rtr_prefix_len rt = int (length ?P)" "length ?P < 256" using rt_valid_simps [OF v(1)] by auto
  have i: "?i < 256" "rt_to_index rt level = ?i" using rt_bytes_less rt_to_index_eq len by auto
  have bsi: "?bs @ [?i] = take (Suc level) (rt_bytes rt)" using len by (simp add: take_Suc_conv_app_nth)
  have R': "p \<noteq> ?P \<Longrightarrow> ?R p = R p" for p by simp
  have lbs32: "length ?bs < 32" using l lbs by (simp add: max_level split: if_splits)
  obtain ob e1 s1 where ab: "add_bkt dn 256 e s = (ob, e1, s1)" by (cases "add_bkt dn 256 e s")
  note abr = add_bkt_rep [OF Suc.prems(1,2) lbs32 ab]
  show ?case
  proof (cases ob)
    case None
    then have "nh_fault s1" using abr(3) by auto
    then show ?thesis using Suc.prems(6) abr(1) None ab by (simp add: bkt_info_get [OF l])
  next
    case (Some b)
    then have b: "length b = 256" "\<And>x. x < 256 \<Longrightarrow> mt_rep R n (?bs @ [x]) (b ! x)" using abr(3) by auto
    have ok1: "routes_ok dn s1 R" "leaf_ok dn s1 (rt_leaf dn rt)"
      using Suc.prems(2,3) routes_ok_static [OF abr(1)] leaf_ok_static [OF abr(1)] by simp_all
    obtain k d where k: "lpm R (8 * length ?bs) (addr_bits ?bs) = Some (k, d)" "entry_prefix_len e = int k"
      using mt_rep_len [OF Suc.prems(1)] by blast
    have pth: "8 * length ?bs < length ?P \<or> ?P = [] \<and> ?bs = []"
      using Suc.prems(5) q(1) lbs by auto
    have "?R [] \<noteq> None" using Suc.prems(2) by (simp add: routes_ok_def)
    with lpm_path [OF k(1) pth R'] obtain d' where k': "lpm ?R (8 * length ?bs) (addr_bits ?bs) = Some (k, d')"
      by blast
    have plen: "entry_prefix_len (set_data (Bucket c) e1) = int k" for c using abr(2) k(2) by simp
    have bucket: "mt_rep ?R (Suc n) ?bs (set_data (Bucket c) e1)"
      if "length c = 256" "\<And>x. x < 256 \<Longrightarrow> mt_rep ?R n (?bs @ [x]) (c ! x)" for c
      using that plen by (intro mt_rep_bucketI [OF _ _ k']) simp_all
    show ?thesis
    proof (cases "rtr_prefix_len rt > 8 * int (Suc level)")
      case True
      obtain c s2 where r: "mtrie_add_loop n rt dn (Suc level) (b ! ?i) s1 = (c, s2)"
        by (cases "mtrie_add_loop n rt dn (Suc level) (b ! ?i) s1")
      have res: "e' = set_data (Bucket (b[?i := c])) e1" "s' = s2"
        using Suc.prems(6) ab Some True r by (simp_all add: bkt_info_get [OF l] i(2) Let_def)
      have IH: "nh_static s2 = nh_static s1 \<and> (nh_fault s2 \<or> mt_rep ?R n (?bs @ [?i]) c)"
        using Suc.IH [of "Suc level" "b ! ?i" s1 c s2] b(2) [OF i(1)] ok1 Suc.prems(4) True r bsi
        by (simp del: fun_upd_apply)
      have "prefix (addr_bits (?bs @ [?i])) ?P"
        using True q(1) unfolding bsi rt_key_def
        by (simp add: addr_bits_split [OF len] take_Suc_conv_app_nth [OF len])
      then have "mt_rep ?R n (?bs @ [x]) (b ! x)" if "x < 256" "x \<noteq> ?i" for x
        using that b(2) i(1) by (intro mt_rep_other_child [OF b(2) _ _ _ _ R']) simp_all
      then have "mt_rep ?R (Suc n) ?bs e'" if "\<not> nh_fault s2"
        using IH that b(1) i(1) unfolding res by (intro bucket) (auto simp: nth_list_update_if)
      then show ?thesis using IH abr(1) unfolding res by (metis (no_types))
    next
      case False
      let ?is = "add_indices rt (ip_bkt_info_get (rtr_family rt) ! level) (rt_to_index rt level)"
      obtain c s2 where r: "upd_st (add_to_tree n rt) ?is b s1 = (c, s2)"
        by (cases "upd_st (add_to_tree n rt) ?is b s1")
      have res: "e' = set_data (Bucket c) e1" "s' = s2"
        using Suc.prems(6) ab Some False r by (simp_all add: bkt_info_get [OF l] Let_def)
      from add_level_rep [OF v l _ Suc.prems(5) ok1 b r] show ?thesis
        using False abr(1) unfolding res by (simp add: bucket del: fun_upd_apply)
    qed
  qed
qed

end
