(* ===== verification/VR_Mtrie_Del.thy ===== *)
theory VR_Mtrie_Del
  imports VR_Mtrie_LPM
begin

text \<open>
  Deleting a route from the trie of \<open>VR_Mtrie\<close> is deleting it from the represented set of
  routes, as long as no bucket is given up whose entries belong to longer routes.
\<close>

section \<open>Deleting a route\<close>

text \<open>
  A deletion carries what takes the place of the route: the length and the data of the
  next shorter route for its prefix.
\<close>

definition rt_replaces :: "bool \<Rightarrow> vr_route_req \<Rightarrow> (bool list \<rightharpoonup> rleaf) \<Rightarrow> bool" where
  "rt_replaces dn rt R \<longleftrightarrow> rt_key rt \<noteq> [] \<and> 0 \<le> rtr_replace_plen rt \<and>
     lpm R (length (rt_key rt) - 1) (rt_key rt) = Some (nat (rtr_replace_plen rt), rt_leaf dn rt)"

text \<open>
  A bucket whose entries became equal is given up. That loses routes when the entries belong to
  routes longer than the path of the bucket: no path may be covered by such routes of one length with the same data.
\<close>

definition no_merge :: "(bool list \<rightharpoonup> rleaf) \<Rightarrow> bool" where
  "no_merge R \<longleftrightarrow> (\<forall>bs k d. 8 * length bs < k \<longrightarrow>
     (\<exists>x<256. lpm R (8 * length (bs @ [x])) (addr_bits (bs @ [x])) \<noteq> Some (k, d)))"

lemma lpm_remove_cover:
  assumes "lpm R K a = Some (length P, d)" "prefix P a" "P \<noteq> []" "K \<le> length a"
    and "lpm R (length P - 1) P = Some (j, d')"
  shows "lpm (R(P := None)) K a = Some (j, d')"
proof -
  obtain c where a: "a = P @ c" using assms(2) by (elim prefixE)
  have j: "j < length P" "R (take j P) = Some d'" "\<And>i. j < i \<Longrightarrow> i < length P \<Longrightarrow> R (take i P) = None"
    using assms(3,5) by (auto simp: lpm_iff neq_Nil_conv)
  have "(R(P := None)) (take i a) = None" if "j < i" "i \<le> K" for i
    using that j(3) [of i] assms(1) by (cases "i < length P"; cases "i = length P") (auto simp: lpm_iff a)
  moreover have "take j a \<noteq> P" using j(1) by (auto simp: a)
  ultimately show ?thesis using j(1,2) assms(1) by (auto simp: lpm_iff a)
qed

lemma del_replace_eq:
  assumes "leaf_ok dn (ms_nh st) d" "leaf_ok dn (ms_nh st) (rt_leaf dn rt)"
    "0 \<le> rtr_replace_plen rt" "rtr_replace_plen rt < 256"
  shows "fst (del_replace rt (mk_leaf k d) st) = mk_leaf (nat (rtr_replace_plen rt)) (rt_leaf dn rt)"
    "nh_static (ms_nh (snd (del_replace rt (mk_leaf k d) st))) = nh_static (ms_nh st)"
  using rt_set_leaf_eq [OF assms, of k] rt_set_leaf_static
  by (auto simp: del_replace_def split: prod.splits) (metis snd_conv)

lemma mk_leaf_inject: "mk_leaf k d = mk_leaf k' d' \<longleftrightarrow> k = k' \<and> d = d'"
  by (cases d; cases d') auto

lemma mtrie_free_entry_static: "nh_static (mtrie_free_entry e s) = nh_static s"
proof (induction e s rule: mtrie_free_entry.induct)
  case (3 b p f l bi s)
  have "set es \<subseteq> set b \<Longrightarrow> nh_static (fold mtrie_free_entry es s') = nh_static s'" for es s'
    using 3 by (induction es arbitrary: s') auto
  then show ?case by simp
qed (simp_all add: nh_static_put)

lemma mtrie_free_bkt_static: "nh_static (mtrie_free_bkt b s) = nh_static s"
  unfolding mtrie_free_bkt_def by (induction b arbitrary: s) (simp_all add: mtrie_free_entry_static)

lemma mtrie_delete_bkt_eq:
  assumes "leaf_ok dn (ms_nh st) d" "b ! 0 = mk_leaf k d" "k < 256"
  shows "fst (mtrie_delete_bkt dd dn ent b st) = mk_leaf k d"
    "nh_static (ms_nh (snd (mtrie_delete_bkt dd dn ent b st))) = nh_static (ms_nh st)"
proof -
  obtain e1 s1 where r: "set_entry_leaf dn ent (entry_ptr (mk_leaf k d)) (ms_nh st) = (e1, s1)"
    by (cases "set_entry_leaf dn ent (entry_ptr (mk_leaf k d)) (ms_nh st)")
  have e1: "e1 = set_data (leaf_data d) ent" and s1: "nh_static s1 = nh_static (ms_nh st)"
    using set_entry_leaf_eq [OF assms(1), of ent] r by (metis fst_conv, metis snd_conv)
  have na: "nh_static (snd (next_alloc s)) = nh_static s" for s
    by (simp add: next_alloc_def nh_static_def)
  show "fst (mtrie_delete_bkt dd dn ent b st) = mk_leaf k d"
    using r e1 copy_entry_leaf [OF assms(3)] assms(2)
    by (simp add: mtrie_delete_bkt_def Let_def split: prod.split)
  show "nh_static (ms_nh (snd (mtrie_delete_bkt dd dn ent b st))) = nh_static (ms_nh st)"
    using r s1 assms(2) na [of s1]
    by (auto simp: mtrie_delete_bkt_def Let_def mtrie_free_bkt_defer_def mtrie_free_bkt_static split: prod.splits)
qed

text \<open>Giving up a bucket keeps what it represents.\<close>

lemma mt_rep_not_bucket:
  assumes "mt_rep R n bs e" "\<not> ENTRY_IS_BUCKET e"
  shows "mt_leaf R bs e"
  using assms by (cases rule: mt_repE) (auto simp: set_plen_nexthop)

lemma bkt_uniform_leaf:
  assumes "bkt_uniform b" "length b = 256" "x < 256"
  shows "b ! x = b ! 0" "\<not> ENTRY_IS_BUCKET (b ! 0)"
proof -
  have same: "entry_same (b ! y) (b ! 0)" if "0 < y" "y < 256" for y
  proof -
    have "b ! y = tl b ! (y - 1)" "y - 1 < length (tl b)" using that assms(2) by (simp_all add: nth_tl)
    then have "b ! y \<in> set (tl b)" by (metis nth_mem)
    then show ?thesis using assms(1) by (simp add: bkt_uniform_def)
  qed
  show "b ! x = b ! 0" using same [of x] assms(3) by (cases "x = 0") (auto simp: entry_same_def)
  show "\<not> ENTRY_IS_BUCKET (b ! 0)" using same [of 1] unfolding entry_same_def by auto
qed

lemma mt_leaf_merge:
  assumes leaf: "\<And>x. x < 256 \<Longrightarrow> mt_leaf R (bs @ [x]) (mk_leaf k d)" and k: "k \<le> 8 * length bs"
  shows "mt_leaf R bs (mk_leaf k d)"
proof -
  have l: "lpm R (8 * length (bs @ [x])) (addr_bits (bs @ [x])) = Some (k, d)" if "x < 256" for x
    using leaf [OF that] by (auto simp: mt_leaf_def mk_leaf_inject)
  have "lpm R (8 * length bs) (addr_bits bs) = Some (k, d)"
    using l [of 0] k by (auto simp: lpm_iff)
  moreover have "length p \<le> 8 * length bs" if p: "R p \<noteq> None" "prefix (addr_bits bs) p" for p
  proof (rule ccontr)
    assume n: "\<not> length p \<le> 8 * length bs"
    obtain c where c: "p = addr_bits bs @ c" using p(2) by (elim prefixE)
    then have "length (take 8 c @ replicate (8 - length c) False) = 8" by simp
    then obtain x where x: "x < 256" "byte_bits x = take 8 c @ replicate (8 - length c) False"
      using ex_byte_bits by metis
    show False
    proof (cases "length c \<le> 8")
      case True
      then have "take (length p) (addr_bits (bs @ [x])) = p" using x(2) c by simp
      moreover have "length p \<le> 8 * length (bs @ [x])" using True c by simp
      moreover have "k < length p" using n k by simp
      ultimately show False using l [OF x(1)] p(1) unfolding lpm_iff by metis
    next
      case False
      then have "prefix (addr_bits (bs @ [x])) p" using x(2) c by (simp add: take_is_prefix)
      then have "length p \<le> 8 * length (bs @ [x])" using leaf [OF x(1)] p(1) by (auto simp: mt_leaf_def)
      then show False using False c by simp
    qed
  qed
  ultimately show ?thesis by (auto simp: mt_leaf_def)
qed

text \<open>The end of a deletion at a bucket: its entries represent the routes, and so does the entry.\<close>

lemma del_finish_rep:
  assumes b: "length b = 256" "\<And>x. x < 256 \<Longrightarrow> mt_rep R n (bs @ [x]) (b ! x)"
    and ent: "lpm R (8 * length bs) (addr_bits bs) = Some (k, d)" "entry_prefix_len ent = int k"
    and nm: "no_merge R" and ok: "routes_ok dn (ms_nh st) R" and len: "length bs < 32"
  shows "mt_rep R (Suc n) bs (fst (del_finish dd dn ent (b, st))) \<and>
     nh_static (ms_nh (snd (del_finish dd dn ent (b, st)))) = nh_static (ms_nh st)"
proof (cases "bkt_uniform b")
  case False
  have "mt_rep R (Suc n) bs (set_data (Bucket b) ent)"
    using b ent(2) by (intro mt_rep_bucketI [OF _ _ ent(1)]) simp_all
  then show ?thesis using False by (simp add: del_finish_def Let_def)
next
  case True
  note u = bkt_uniform_leaf [OF True b(1)]
  have leaf: "mt_leaf R (bs @ [x]) (b ! 0)" if "x < 256" for x
    using mt_rep_not_bucket [OF b(2) [OF that]] u [OF that] by simp
  obtain k0 d0 where l0: "lpm R (8 * length (bs @ [0])) (addr_bits (bs @ [0])) = Some (k0, d0)" "b ! 0 = mk_leaf k0 d0"
    using leaf [of 0] by (auto simp: mt_leaf_def)
  have same: "lpm R (8 * length (bs @ [x])) (addr_bits (bs @ [x])) = Some (k0, d0)" if "x < 256" for x
    using leaf [OF that] l0(2) by (auto simp: mt_leaf_def mk_leaf_inject)
  have k0: "k0 \<le> 8 * length bs"
  proof (rule ccontr)
    assume "\<not> k0 \<le> 8 * length bs"
    then obtain x where "x < 256" "lpm R (8 * length (bs @ [x])) (addr_bits (bs @ [x])) \<noteq> Some (k0, d0)"
      using nm [unfolded no_merge_def, rule_format, of bs k0 d0] by auto
    with same show False by blast
  qed
  have m: "mt_leaf R bs (mk_leaf k0 d0)"
    by (rule mt_leaf_merge [OF _ k0]) (use leaf l0(2) in simp)
  have "k0 < 256" using k0 len by simp
  then show ?thesis
    using mtrie_delete_bkt_eq [OF routes_ok_lpm [OF ok l0(1)] l0(2)] m True
    by (simp add: del_finish_def Let_def mt_rep_leafI)
qed

text \<open>An entry the route covers.\<close>

lemma rt_replaces_less: "rt_replaces dn rt R \<Longrightarrow> rt_valid rt \<Longrightarrow> rtr_replace_plen rt < 256 \<and> 0 \<le> rtr_replace_plen rt"
  using rt_valid_simps(3) [of rt] by (auto simp: rt_replaces_def lpm_iff)

lemma routes_ok_remove: "routes_ok dn s R \<Longrightarrow> P \<noteq> [] \<Longrightarrow> routes_ok dn s (R(P := None))"
  by (auto simp: routes_ok_def)

lemma del_covered_rep:
  assumes rep: "mt_rep R n bs e" and ok: "routes_ok dn (ms_nh st) R" "leaf_ok dn (ms_nh st) (rt_leaf dn rt)"
    and v: "rt_valid rt" "rt_replaces dn rt R" and P: "prefix (rt_key rt) (addr_bits bs)"
    and sub: "\<And>m b e1. n = Suc m \<Longrightarrow> entry_data e1 = Bucket b \<Longrightarrow> length b = 256 \<Longrightarrow>
      (\<And>x. x < 256 \<Longrightarrow> mt_rep R m (bs @ [x]) (b ! x)) \<Longrightarrow>
      lpm (R(rt_key rt := None)) (8 * length bs) (addr_bits bs) = Some (nat (rtr_replace_plen rt), rt_leaf dn rt) \<Longrightarrow>
      entry_prefix_len e1 = rtr_replace_plen rt \<Longrightarrow>
      mt_rep (R(rt_key rt := None)) n bs (fst (sub e1 st)) \<and> nh_static (ms_nh (snd (sub e1 st))) = nh_static (ms_nh st)"
  shows "mt_rep (R(rt_key rt := None)) n bs (fst (del_covered sub rt e st)) \<and>
     nh_static (ms_nh (snd (del_covered sub rt e st))) = nh_static (ms_nh st)"
proof -
  let ?P = "rt_key rt" and ?R = "R(rt_key rt := None)"
  have q: "rtr_prefix_len rt = int (length ?P)" using rt_valid_simps(2) [OF v(1)] .
  have P0: "?P \<noteq> []" "lpm R (length ?P - 1) ?P = Some (nat (rtr_replace_plen rt), rt_leaf dn rt)"
    using v(2) by (auto simp: rt_replaces_def)
  note r = rt_replaces_less [OF v(2,1)]
  have le: "length ?P \<le> 8 * length bs" using prefix_length_le [OF P] by simp
  obtain k d where k: "lpm R (8 * length bs) (addr_bits bs) = Some (k, d)" "entry_prefix_len e = int k"
    using mt_rep_len [OF rep] by blast
  consider (longer) "length ?P < k" | (same) "k = length ?P" | (shorter) "k < length ?P" by linarith
  then show ?thesis
  proof cases
    case longer
    then have "mt_rep ?R n bs e" by (intro mt_rep_longer [OF rep k(1)]) auto
    then show ?thesis using longer k(2) q by (simp add: del_covered_def)
  next
    case shorter
    have "take (length ?P) (addr_bits bs) = ?P" using P by (metis append_eq_conv_conj prefixE)
    then have "R ?P = None" using k(1) shorter le unfolding lpm_iff by metis
    then have "?R = R" by (simp add: fun_upd_idem_iff)
    then show ?thesis using rep shorter k(2) q by (simp add: del_covered_def)
  next
    case same
    have l: "lpm ?R (8 * length bs) (addr_bits bs) = Some (nat (rtr_replace_plen rt), rt_leaf dn rt)"
      using k(1) same by (intro lpm_remove_cover [OF _ P P0(1) _ P0(2)]) simp_all
    show ?thesis using rep
    proof (cases rule: mt_repE)
      case (leaf k' d')
      have d: "leaf_ok dn (ms_nh st) d'" by (rule routes_ok_lpm [OF ok(1) leaf(1)])
      have "mt_leaf ?R bs (mk_leaf (nat (rtr_replace_plen rt)) (rt_leaf dn rt))"
        using l leaf(3) by (auto simp: mt_leaf_def)
      moreover have "\<not> ENTRY_IS_BUCKET e"
        using leaf(2) leaf_ok_not_bucket [OF d] by (simp add: set_plen_nexthop)
      ultimately show ?thesis
        using del_replace_eq [OF d ok(2) r [THEN conjunct2] r [THEN conjunct1]] leaf(2) same k(2) q
        by (simp add: del_covered_def mt_rep_leafI)
    next
      case (bucket m b k' d')
      let ?e1 = "set_plen (rtr_replace_plen rt) (set_label (ucast (rtr_label_flags rt)) (ucast (rtr_label rt)) e)"
      have e1: "entry_data ?e1 = Bucket b" "entry_prefix_len ?e1 = rtr_replace_plen rt"
        using bucket(2) r by (cases e, simp)+
      have "ENTRY_IS_BUCKET e" using bucket(2) set_plen_nexthop by blast
      then have "del_covered sub rt e st = sub ?e1 st" using same k(2) q by (simp add: del_covered_def)
      then show ?thesis using sub [OF bucket(1) e1(1) bucket(3,6) l e1(2)] by simp
    qed
  qed
qed

text \<open>The entries the loop of a deletion visits.\<close>

lemma del_indices_all:
  assumes "level < ip_bkt_get_max_level (rtr_family rt)" "rtr_prefix_len rt \<le> 8 * int level"
  shows "del_indices rt (ip_bkt_info_get (rtr_family rt) ! level) index = [0..<256]"
  using assms by (simp add: del_indices_def bkt_info_get)

lemma del_indices_covered:
  assumes v: "rt_valid rt" and l: "level < ip_bkt_get_max_level (rtr_family rt)"
    and q: "rtr_prefix_len rt \<le> 8 * int (Suc level)" "8 * int level < rtr_prefix_len rt"
  defines "is \<equiv> del_indices rt (ip_bkt_info_get (rtr_family rt) ! level) (rt_to_index rt level)"
  shows "distinct is"
    "set is = {x. x < 256 \<and> prefix (rt_key rt) (addr_bits (take level (rt_bytes rt) @ [x]))}"
proof -
  let ?q = "nat (rtr_prefix_len rt)" and ?i = "rt_bytes rt ! level"
  let ?j = "8 * Suc level - ?q"
  let ?m = "(2::nat) ^ ?j" and ?base = "?i - ?i mod 2 ^ ?j"
  have len: "level < length (rt_bytes rt)" using l rt_valid_simps(1) [OF v] by simp
  have i: "?i < 256" by (rule rt_bytes_less [OF len])
  have j: "?j \<le> 8" using q by auto
  have j_eq: "nat (int (8 * Suc level) - rtr_prefix_len rt) = ?j"
    and cov: "(rtr_prefix_len rt > int (8 * Suc level) - int 8 \<and> rtr_prefix_len rt \<le> int (8 * Suc level)) = True"
    using q by auto
  have d: "?m dvd ?base" by (simp add: minus_mod_eq_mult_div)
  have i0: "?base div ?m = ?i div ?m" by (simp add: minus_mod_eq_mult_div)
  have i1: "?base < 256" using i less_imp_diff_less by blast
  have le: "?base + ?m \<le> 256"
    using mod_dvd_le [OF d, of 256] le_imp_power_dvd [OF j, of "2::nat"] i1 by simp
  have is_eq: "is = [?base..<?base + ?m]"
    unfolding is_def del_indices_def Let_def bkt_info_get [OF l] rt_to_index_eq [OF len] cov if_True j_eq
      min.absorb1 [OF le] add.commute [of ?m] ..
  then show "distinct is" by simp
  have "set is = {x. x < 256 \<and> x div ?m = ?i div ?m}"
    unfolding is_eq i0 [symmetric] using div_block [OF _ d le] by simp
  then show "set is = {x. x < 256 \<and> prefix (rt_key rt) (addr_bits (take level (rt_bytes rt) @ [x]))}"
    using rt_key_covers [OF len, of _] q by auto
qed

text \<open>A bucket below the place of the route: all its entries are covered.\<close>

lemma delete_loop_covered:
  assumes v: "rt_valid rt" "rt_replaces dn rt R" and nm: "no_merge (R(rt_key rt := None))"
  shows "entry_data e = Bucket b \<Longrightarrow> length b = 256 \<Longrightarrow> (\<And>x. x < 256 \<Longrightarrow> mt_rep R n (bs @ [x]) (b ! x)) \<Longrightarrow>
    lpm (R(rt_key rt := None)) (8 * length bs) (addr_bits bs) = Some (nat (rtr_replace_plen rt), rt_leaf dn rt) \<Longrightarrow>
    entry_prefix_len e = rtr_replace_plen rt \<Longrightarrow> prefix (rt_key rt) (addr_bits bs) \<Longrightarrow>
    length bs + Suc n = ip_bkt_get_max_level (rtr_family rt) \<Longrightarrow>
    routes_ok dn (ms_nh st) R \<Longrightarrow> leaf_ok dn (ms_nh st) (rt_leaf dn rt) \<Longrightarrow>
    mt_rep (R(rt_key rt := None)) (Suc n) bs (fst (mtrie_delete_loop (Suc n) rt dd dn (length bs) e st)) \<and>
    nh_static (ms_nh (snd (mtrie_delete_loop (Suc n) rt dd dn (length bs) e st))) = nh_static (ms_nh st)"
proof (induction n arbitrary: bs e b st rule: less_induct)
  case (less n bs e b st)
  let ?M = "ip_bkt_get_max_level (rtr_family rt)" and ?R = "R(rt_key rt := None)"
  let ?sub = "mtrie_delete_loop n rt dd dn (Suc (length bs))" and ?v = "\<lambda>st. nh_static (ms_nh st)"
  have l: "length bs < ?M" using less.prems(7) by simp
  have q: "rtr_prefix_len rt \<le> 8 * int (length bs)"
    using prefix_length_le [OF less.prems(6)] rt_valid_simps(2) [OF v(1)] by simp
  obtain b' st' where r: "upd_st (del_covered ?sub rt) [0..<256] b st = (b', st')"
    by (cases "upd_st (del_covered ?sub rt) [0..<256] b st")
  have res: "mtrie_delete_loop (Suc n) rt dd dn (length bs) e st = del_finish dd dn e (b', st')"
    using q r less.prems(1) by (simp add: bkt_info_uint [OF l] del_indices_all [OF l] Let_def)
  have step: "mt_rep ?R n (bs @ [x]) (fst (del_covered ?sub rt (b ! x) st2)) \<and>
      ?v (snd (del_covered ?sub rt (b ! x) st2)) = ?v st"
    if "x < 256" "?v st2 = ?v st" for x st2
  proof -
    have ok: "routes_ok dn (ms_nh st2) R" "leaf_ok dn (ms_nh st2) (rt_leaf dn rt)"
      using less.prems(8,9) routes_ok_static [OF that(2)] leaf_ok_static [OF that(2)] by simp_all
    have P: "prefix (rt_key rt) (addr_bits (bs @ [x]))" using less.prems(6) by (simp add: prefix_prefix)
    have "mt_rep ?R n (bs @ [x]) (fst (del_covered ?sub rt (b ! x) st2)) \<and>
        ?v (snd (del_covered ?sub rt (b ! x) st2)) = ?v st2"
    proof (rule del_covered_rep [OF less.prems(3) ok v P])
      fix m c e1
      assume m: "n = Suc m" and c: "entry_data e1 = Bucket c" "length c = 256"
        "\<And>y. y < 256 \<Longrightarrow> mt_rep R m ((bs @ [x]) @ [y]) (c ! y)"
        "lpm ?R (8 * length (bs @ [x])) (addr_bits (bs @ [x])) = Some (nat (rtr_replace_plen rt), rt_leaf dn rt)"
        "entry_prefix_len e1 = rtr_replace_plen rt"
      have "length (bs @ [x]) + Suc m = ?M" using less.prems(7) m by simp
      from less.IH [OF _ c P this ok] m
      show "mt_rep ?R n (bs @ [x]) (fst (?sub e1 st2)) \<and> ?v (snd (?sub e1 st2)) = ?v st2"
        by (simp del: fun_upd_apply mtrie_delete_loop.simps)
    qed (use that in simp)
    then show ?thesis using that(2) by simp
  qed
  note post = upd_st_all [where v = ?v and Q = "\<lambda>x c. mt_rep ?R n (bs @ [x]) c" and f = "del_covered ?sub rt",
      OF less.prems(2) step, unfolded r fst_conv snd_conv]
  have b': "length b' = 256" "\<And>x. x < 256 \<Longrightarrow> mt_rep ?R n (bs @ [x]) (b' ! x)"
    and st': "?v st' = ?v st" using post by blast+
  have k: "entry_prefix_len e = int (nat (rtr_replace_plen rt))"
    using less.prems(5) rt_replaces_less [OF v(2,1)] by simp
  have ok': "routes_ok dn (ms_nh st') ?R"
    unfolding routes_ok_static [OF st'] using less.prems(8) v(2)
    by (intro routes_ok_remove) (simp_all add: rt_replaces_def)
  have "length bs < 32" using l by (simp add: max_level split: if_splits)
  from del_finish_rep [OF b' less.prems(4) k nm ok' this, of dd] st' show ?case unfolding res by (simp del: fun_upd_apply)
qed

text \<open>The loop of a deletion at the bucket where the route has its place.\<close>

lemma del_level_rep:
  assumes v: "rt_valid rt" "rt_replaces dn rt R" and nm: "no_merge (R(rt_key rt := None))"
    and l: "level + Suc n = ip_bkt_get_max_level (rtr_family rt)"
    and q: "rtr_prefix_len rt \<le> 8 * int (Suc level)" "8 * int level < rtr_prefix_len rt"
    and ok: "routes_ok dn (ms_nh st) R" "leaf_ok dn (ms_nh st) (rt_leaf dn rt)"
    and b: "length b = 256" "\<And>x. x < 256 \<Longrightarrow> mt_rep R n (take level (rt_bytes rt) @ [x]) (b ! x)"
    and r: "upd_st (del_covered (mtrie_delete_loop n rt dd dn (Suc level)) rt)
          (del_indices rt (ip_bkt_info_get (rtr_family rt) ! level) (rt_to_index rt level)) b st = (c, st')"
  shows "length c = 256 \<and> nh_static (ms_nh st') = nh_static (ms_nh st) \<and>
     (\<forall>x<256. mt_rep (R(rt_key rt := None)) n (take level (rt_bytes rt) @ [x]) (c ! x))"
proof -
  let ?bs = "take level (rt_bytes rt)" and ?P = "rt_key rt" and ?R = "R(rt_key rt := None)"
  let ?is = "del_indices rt (ip_bkt_info_get (rtr_family rt) ! level) (rt_to_index rt level)"
  let ?v = "\<lambda>st. nh_static (ms_nh st)" and ?sub = "mtrie_delete_loop n rt dd dn (Suc level)"
  have lm: "level < ip_bkt_get_max_level (rtr_family rt)" using l by simp
  have lbs: "length ?bs = level" using lm rt_valid_simps(1) [OF v(1)] by simp
  have P: "rtr_prefix_len rt = int (length ?P)" by (rule rt_valid_simps(2) [OF v(1)])
  note cov = del_indices_covered [OF v(1) lm q]
  have lt: "x < length b" if "x \<in> set ?is" for x using that cov(2) b(1) by simp
  have step: "mt_rep ?R n (?bs @ [x]) (fst (del_covered ?sub rt (b ! x) st2)) \<and>
      ?v (snd (del_covered ?sub rt (b ! x) st2)) = ?v st"
    if x: "x \<in> set ?is" and st2: "?v st2 = ?v st" for x st2
  proof -
    have xp: "x < 256" "prefix ?P (addr_bits (?bs @ [x]))" using x cov(2) by auto
    have ok2: "routes_ok dn (ms_nh st2) R" "leaf_ok dn (ms_nh st2) (rt_leaf dn rt)"
      using ok routes_ok_static [OF st2] leaf_ok_static [OF st2] by simp_all
    have "mt_rep ?R n (?bs @ [x]) (fst (del_covered ?sub rt (b ! x) st2)) \<and>
        ?v (snd (del_covered ?sub rt (b ! x) st2)) = ?v st2"
    proof (rule del_covered_rep [OF b(2) [OF xp(1)] ok2 v xp(2)])
      fix m c e1
      assume m: "n = Suc m" and c: "entry_data e1 = Bucket c" "length c = 256"
        "\<And>y. y < 256 \<Longrightarrow> mt_rep R m ((?bs @ [x]) @ [y]) (c ! y)"
        "lpm ?R (8 * length (?bs @ [x])) (addr_bits (?bs @ [x])) = Some (nat (rtr_replace_plen rt), rt_leaf dn rt)"
        "entry_prefix_len e1 = rtr_replace_plen rt"
      have "length (?bs @ [x]) + Suc m = ip_bkt_get_max_level (rtr_family rt)" using l m lbs by simp
      from delete_loop_covered [OF v nm c xp(2) this ok2, of dd] m lbs
      show "mt_rep ?R n (?bs @ [x]) (fst (?sub e1 st2)) \<and> ?v (snd (?sub e1 st2)) = ?v st2"
        by (simp del: fun_upd_apply mtrie_delete_loop.simps length_take)
    qed
    then show ?thesis using st2 by simp
  qed
  note post = upd_st_post [where v = ?v and Q = "\<lambda>x c. mt_rep ?R n (?bs @ [x]) c" and f = "del_covered ?sub rt",
      OF cov(1) lt step, unfolded r fst_conv snd_conv b(1)]
  have "mt_rep ?R n (?bs @ [x]) (c ! x)" if "x < 256" for x
  proof (cases "x \<in> set ?is")
    case True
    then show ?thesis using post by blast
  next
    case False
    then have c: "c ! x = b ! x" and n: "\<not> prefix ?P (addr_bits (?bs @ [x]))"
      using post cov(2) that by (blast, simp)
    show ?thesis unfolding c
      by (rule mt_rep_not_covered [OF b(2) [OF that] n]) (use q(1) P lbs in auto)
  qed
  then show ?thesis using post by blast
qed

lemma mtrie_delete_loop_rep:
  assumes v: "rt_valid rt" "rt_replaces dn rt R" and nm: "no_merge (R(rt_key rt := None))"
  shows "mt_rep R n (take level (rt_bytes rt)) e \<Longrightarrow> routes_ok dn (ms_nh st) R \<Longrightarrow>
    leaf_ok dn (ms_nh st) (rt_leaf dn rt) \<Longrightarrow> level + n = ip_bkt_get_max_level (rtr_family rt) \<Longrightarrow>
    8 * int level < rtr_prefix_len rt \<Longrightarrow>
    mt_rep (R(rt_key rt := None)) n (take level (rt_bytes rt)) (fst (mtrie_delete_loop n rt dd dn level e st)) \<and>
    nh_static (ms_nh (snd (mtrie_delete_loop n rt dd dn level e st))) = nh_static (ms_nh st)"
proof (induction n arbitrary: level e st)
  case 0
  then show ?case using v(1) by (simp add: rt_valid_def)
next
  case (Suc n)
  let ?M = "ip_bkt_get_max_level (rtr_family rt)" and ?bs = "take level (rt_bytes rt)"
  let ?P = "rt_key rt" and ?R = "R(rt_key rt := None)" and ?i = "rt_bytes rt ! level"
  have l: "level < ?M" and len: "level < length (rt_bytes rt)" and lbs: "length ?bs = level"
    using Suc.prems(4) rt_valid_simps(1) [OF v(1)] by auto
  have q: "rtr_prefix_len rt = int (length ?P)" using rt_valid_simps [OF v(1)] by auto
  have P0: "?P \<noteq> []" using v(2) by (simp add: rt_replaces_def)
  have i: "?i < 256" "rt_to_index rt level = ?i" using rt_bytes_less rt_to_index_eq len by auto
  have bsi: "?bs @ [?i] = take (Suc level) (rt_bytes rt)" using len by (simp add: take_Suc_conv_app_nth)
  have R': "p \<noteq> ?P \<Longrightarrow> ?R p = R p" for p by simp
  show ?case using Suc.prems(1)
  proof (cases rule: mt_repE)
    case (leaf k d)
    have "prefix (addr_bits ?bs) ?P"
      using Suc.prems(5) q lbs unfolding rt_key_def by (simp add: addr_bits_split [OF len])
    then have "R ?P = None" using leaf(3) Suc.prems(5) q lbs by (fastforce simp: mt_leaf_def)
    then have R: "?R = R" by (simp add: fun_upd_idem_iff)
    have "entry_prefix_len e \<noteq> rtr_prefix_len rt"
      using leaf(1,2) Suc.prems(5) lbs by (auto simp: lpm_iff)
    then have "mtrie_delete_loop (Suc n) rt dd dn level e st = (e, st)"
      using leaf(2) leaf_ok_not_bucket [OF routes_ok_lpm [OF Suc.prems(2) leaf(1)]]
      by (auto split: entry_data.split)
    then show ?thesis using Suc.prems(1) R by (simp del: fun_upd_apply)
  next
    case (bucket m b k d)
    have b: "length b = 256" "\<And>x. x < 256 \<Longrightarrow> mt_rep R n (?bs @ [x]) (b ! x)" using bucket(1,3,6) by auto
    have "8 * length ?bs < length ?P \<or> ?P = [] \<and> ?bs = []" using Suc.prems(5) q lbs by simp
    moreover have "?R [] \<noteq> None" using Suc.prems(2) P0 by (simp add: routes_ok_def)
    ultimately obtain d' where k: "lpm ?R (8 * length ?bs) (addr_bits ?bs) = Some (k, d')"
      using lpm_path [OF bucket(4) _ R'] by blast
    have finish: ?thesis
      if res: "mtrie_delete_loop (Suc n) rt dd dn level e st = del_finish dd dn e (c, st')"
        and c: "length c = 256" "\<And>x. x < 256 \<Longrightarrow> mt_rep ?R n (?bs @ [x]) (c ! x)"
        and st': "nh_static (ms_nh st') = nh_static (ms_nh st)" for c st'
    proof -
      have "routes_ok dn (ms_nh st') ?R"
        unfolding routes_ok_static [OF st'] using Suc.prems(2) P0 by (rule routes_ok_remove)
      moreover have "length ?bs < 32" using l lbs by (simp add: max_level split: if_splits)
      ultimately show ?thesis
        using del_finish_rep [OF c k bucket(5) nm, of dn st' dd] st' unfolding res by (simp del: fun_upd_apply)
    qed
    show ?thesis
    proof (cases "rtr_prefix_len rt > 8 * int (Suc level)")
      case False
      obtain c st' where r: "upd_st (del_covered (mtrie_delete_loop n rt dd dn (Suc level)) rt)
          (del_indices rt (ip_bkt_info_get (rtr_family rt) ! level) (rt_to_index rt level)) b st = (c, st')"
        by fastforce
      from del_level_rep [OF v nm Suc.prems(4) _ Suc.prems(5,2,3) b r] False
      show ?thesis using r bucket(2) by (intro finish [of c st']) (auto simp: bkt_info_uint [OF l] Let_def)
    next
      case True
      obtain c st' where r: "mtrie_delete_loop n rt dd dn (Suc level) (b ! ?i) st = (c, st')" by fastforce
      have IH: "nh_static (ms_nh st') = nh_static (ms_nh st) \<and> mt_rep ?R n (?bs @ [?i]) c"
        using Suc.IH [of "Suc level" "b ! ?i" st] b(2) [OF i(1)] Suc.prems(2-4) True r bsi
        by (simp del: fun_upd_apply)
      have "prefix (addr_bits (?bs @ [?i])) ?P"
        using True q unfolding bsi rt_key_def
        by (simp add: addr_bits_split [OF len] take_Suc_conv_app_nth [OF len])
      then have "mt_rep ?R n (?bs @ [x]) (b ! x)" if "x < 256" "x \<noteq> ?i" for x
        using that b(2) i(1) by (intro mt_rep_other_child [OF b(2) _ _ _ _ R']) simp_all
      then show ?thesis
        using IH True r bucket(2) b(1) i
        by (intro finish [of "b[?i := c]" st']) (auto simp: bkt_info_uint [OF l] Let_def nth_list_update_if)
    qed
  qed
qed

end
