(* ===== verification/VR_Mtrie_Lookup.thy ===== *)
theory VR_Mtrie_Lookup
  imports VR_Mtrie_Del
begin

text \<open>
  A lookup of a host address in the trie returns the data of the longest matching route,
  and the trie is a refinement of the set of routes: the properties of the trie.
\<close>

section \<open>Lookup of a host\<close>

lemma mt_leaf_extend: "mt_leaf R bs e \<Longrightarrow> mt_leaf R (bs @ cs) e"
proof (induction cs rule: rev_induct)
  case (snoc x xs)
  then show ?case using mt_leaf_child [of R "bs @ xs" e x] by simp
qed simp

definition leaf_ptr_ok :: "(bool list \<rightharpoonup> rleaf) \<Rightarrow> bool" where
  "leaf_ptr_ok R \<longleftrightarrow> (\<forall>p d. R p = Some d \<longrightarrow>
     (case leaf_data d of Nexthop p \<Rightarrow> p \<noteq> 0 | Vdata v \<Rightarrow> v \<noteq> 0 | Bucket _ \<Rightarrow> False))"

lemma routes_ok_ptr:
  assumes "routes_ok True s R"
  shows "leaf_ptr_ok R"
  unfolding leaf_ptr_ok_def
proof (intro allI impI)
  fix p d
  assume "R p = Some d"
  then have "leaf_ok True s d" using assms by (simp add: routes_ok_def)
  then show "case leaf_data d of Nexthop p \<Rightarrow> p \<noteq> 0 | Vdata v \<Rightarrow> v \<noteq> 0 | Bucket _ \<Rightarrow> False"
    by (auto simp: leaf_ok_def nh_cur_def split: entry_data.splits)
qed

lemma leaf_ptr_ok_entry:
  assumes "leaf_ptr_ok R" "lpm R K a = Some (k, d)"
  shows "entry_ptr (mk_leaf k d) \<noteq> 0" "\<And>b. leaf_data d \<noteq> Bucket b"
proof -
  have "R (take k a) = Some d" using assms(2) by (simp add: lpm_iff)
  with assms(1) have c: "case leaf_data d of Nexthop p \<Rightarrow> p \<noteq> 0 | Vdata v \<Rightarrow> v \<noteq> 0 | Bucket _ \<Rightarrow> False"
    unfolding leaf_ptr_ok_def by blast
  then show "\<And>b. leaf_data d \<noteq> Bucket b" by auto
  from c show "entry_ptr (mk_leaf k d) \<noteq> 0" by (cases d) (auto split: entry_data.splits)
qed

text \<open>A request for a host: all bits of the address count.\<close>

definition rt_host :: "vr_route_req \<Rightarrow> bool" where
  "rt_host rt \<longleftrightarrow> length (rtr_prefix rt) = ip_bkt_get_max_level (rtr_family rt) \<and>
     rtr_prefix_len rt = 8 * int (ip_bkt_get_max_level (rtr_family rt))"

lemma lookup_loop_leaf:
  assumes "bkt ! index = mk_leaf k d" "index < 256" "0 < limit" "int k \<le> rtr_prefix_len rt"
    and "\<And>b. leaf_data d \<noteq> Bucket b"
  shows "lookup_loop sub bkt limit index (0 # is) rt = (entry_ptr (mk_leaf k d), rt_from_leaf (mk_leaf k d) rt)"
  using assms by (auto simp: Let_def rt_from_leaf_def split: entry_data.split)

lemma lookup_loop_bucket:
  assumes "entry_data (bkt ! index) = Bucket b" "index < 256" "sub b rt = (rtr_nh r, r)" "rtr_nh r \<noteq> 0"
  shows "lookup_loop sub bkt limit index (0 # is) rt = (rtr_nh r, r)"
  using assms by simp

lemma mtrie_lookup_bkt_rep:
  assumes ok: "leaf_ptr_ok R" and h: "rt_host rt"
    and full: "lpm R (8 * ip_bkt_get_max_level (rtr_family rt)) (addr_bits (rt_bytes rt)) = Some (k, d)"
  shows "(\<And>x. x < 256 \<Longrightarrow> mt_rep R n (take level (rt_bytes rt) @ [x]) (b ! x)) \<Longrightarrow>
    level + Suc n = ip_bkt_get_max_level (rtr_family rt) \<Longrightarrow>
    mtrie_lookup_bkt (Suc n) level b rt = (entry_ptr (mk_leaf k d), rt_from_leaf (mk_leaf k d) rt)"
proof (induction n arbitrary: level b rule: less_induct)
  case (less n level b)
  let ?M = "ip_bkt_get_max_level (rtr_family rt)" and ?i = "rt_bytes rt ! level"
  have l: "level < ?M" using less.prems(2) by simp
  have lenM: "length (rt_bytes rt) = ?M" using h by (simp add: rt_host_def rt_bytes_def)
  then have len: "level < length (rt_bytes rt)" using l by simp
  have i: "?i < 256" "rt_to_index rt level = ?i" using rt_bytes_less rt_to_index_eq len by auto
  have bsi: "take level (rt_bytes rt) @ [?i] = take (Suc level) (rt_bytes rt)"
    using len by (simp add: take_Suc_conv_app_nth)
  have rep: "mt_rep R n (take (Suc level) (rt_bytes rt)) (b ! ?i)" using less.prems(1) [OF i(1)] bsi by simp
  let ?r = "rt_from_leaf (mk_leaf k d) rt"
  have ptr: "rtr_nh ?r = entry_ptr (mk_leaf k d)" by (simp add: rt_from_leaf_def)
  have up: "[0..<256] = 0 # [Suc 0..<256]" by (rule upt_conv_Cons) simp
  let ?limit = "if rtr_prefix_len rt > int (8 * Suc level) then 256
      else (2::nat) ^ nat (int (8 * Suc level) - rtr_prefix_len rt)"
  have lim: "0 < ?limit" by simp
  have "lookup_loop (mtrie_lookup_bkt n (Suc level)) b ?limit ?i (0 # [Suc 0..<256]) rt = (entry_ptr (mk_leaf k d), ?r)"
    using rep
  proof (cases rule: mt_repE)
    case (leaf k' d')
    have "mt_leaf R (rt_bytes rt) (mk_leaf k' d')"
      using mt_leaf_extend [OF leaf(3), of "drop (Suc level) (rt_bytes rt)"] leaf(2) by simp
    then have "k' = k" "d' = d" using full lenM by (auto simp: mt_leaf_def mk_leaf_inject)
    moreover have "int k \<le> rtr_prefix_len rt" using full h by (auto simp: rt_host_def lpm_iff)
    ultimately show ?thesis
      using leaf(2) leaf_ptr_ok_entry(2) [OF ok full] lim i(1) by (intro lookup_loop_leaf) simp_all
  next
    case (bucket m c k' d')
    have "mtrie_lookup_bkt n (Suc level) c rt = (rtr_nh ?r, ?r)"
      unfolding ptr using less.IH [of m "Suc level" c] bucket(1,6) less.prems(2) by simp
    from lookup_loop_bucket [where sub = "mtrie_lookup_bkt n (Suc level)", OF bucket(2) i(1) this]
    show ?thesis using leaf_ptr_ok_entry(1) [OF ok full] unfolding ptr by blast
  qed
  then show ?case unfolding mtrie_lookup_bkt.simps Let_def bkt_info_get [OF l] i(2) up .
qed

end
