(* ===== verification/VR_Nexthop_Exact.thy ===== *)
theory VR_Nexthop_Exact
  imports VR_Nexthop_Inv
begin

text \<open>
  The invariant \<open>nh_inv\<close> makes a nexthop safe to use: it counts at least the references that are held.
  Here the other half: taking and dropping a reference keeps the counts exact, so that a client that
  forgets to drop a reference is told apart from one that drops it, and a nexthop nobody refers to is
  released.
\<close>

section \<open>Exact counts\<close>

text \<open>The users of a nexthop are the table, the nexthops that point to it, and \<open>ext\<close>.\<close>

definition nh_exact :: "nh_state \<Rightarrow> (nh_ptr \<Rightarrow> nat) \<Rightarrow> bool" where
  "nh_exact s ext \<longleftrightarrow> (\<forall>p. 0 < p \<and> p < length (nh_heap s) \<longrightarrow>
     unat (nh_users (nh_heap s ! p)) = nh_in_tbl s p + nh_links (nh_heap s) p + ext p)"

lemma nh_exactD:
  "nh_exact s ext \<Longrightarrow> 0 < p \<Longrightarrow> p < length (nh_heap s) \<Longrightarrow>
   unat (nh_users (nh_heap s ! p)) = nh_in_tbl s p + nh_links (nh_heap s) p + ext p"
  by (simp add: nh_exact_def)

text \<open>References that are counted, but held by nobody, can be put down to somebody.\<close>

lemma nh_exact_slack:
  assumes "nh_inv s ext"
  obtains slack where "nh_inv s (\<lambda>q. ext q + slack q)" "nh_exact s (\<lambda>q. ext q + slack q)"
proof -
  define slack where "slack q = (if 0 < q \<and> q < length (nh_heap s)
      then unat (nh_users (nh_heap s ! q)) - (nh_in_tbl s q + nh_links (nh_heap s) q + ext q) else 0)" for q
  have le: "nh_in_tbl s q + nh_links (nh_heap s) q + ext q \<le> unat (nh_users (nh_heap s ! q))" if "q < length (nh_heap s)" for q
    using nh_inv_users_le [OF assms that] .
  have "nh_exact s (\<lambda>q. ext q + slack q)"
    unfolding nh_exact_def slack_def
  proof (intro allI impI)
    fix q assume "0 < q \<and> q < length (nh_heap s)"
    with le [of q] show "unat (nh_users (nh_heap s ! q)) = nh_in_tbl s q + nh_links (nh_heap s) q + (ext q + (if 0 < q \<and> q < length (nh_heap s)
      then unat (nh_users (nh_heap s ! q)) - (nh_in_tbl s q + nh_links (nh_heap s) q + ext q) else 0))" by simp
  qed
  moreover have le': "nh_in_tbl s q + nh_links (nh_heap s) q + (ext q + slack q) \<le> unat (nh_users (nh_heap s ! q))"
    if "q < length (nh_heap s)" for q
    using le [OF that] by (simp add: slack_def)
  have "slack q = 0" if "q = 0 \<or> length (nh_heap s) \<le> q" for q using that by (auto simp: slack_def)
  then have "nh_inv s (\<lambda>q. ext q + slack q)"
    using assms le' unfolding nh_inv_def by simp
  ultimately show thesis by (rule that [rotated])
qed

lemma nh_exact_static:
  assumes "nh_exact s ext" "nh_static s' = nh_static s"
    and "\<And>q. 0 < q \<Longrightarrow> q < length (nh_heap s) \<Longrightarrow>
      unat (nh_users (nh_heap s' ! q)) + nh_links (nh_heap s) q + ext q =
      unat (nh_users (nh_heap s ! q)) + nh_links (nh_heap s') q + ext' q"
  shows "nh_exact s' ext'"
  unfolding nh_exact_def
proof (intro allI impI, elim conjE)
  fix q assume q: "0 < q" "q < length (nh_heap s')"
  then have l: "q < length (nh_heap s)" using nh_static_length [OF assms(2)] by simp
  show "unat (nh_users (nh_heap s' ! q)) = nh_in_tbl s' q + nh_links (nh_heap s') q + ext' q"
    using nh_exactD [OF assms(1) q(1) l] assms(3) [OF q(1) l] nh_in_tbl_static [OF assms(2) l] by simp
qed

section \<open>Taking a reference\<close>

lemma nh_exact_get:
  assumes ex: "nh_exact s ext" and inv: "nh_inv s ext" and room: "nh_room s (Suc n)"
    and r: "vrouter_get_nexthop i s = (p, s')" and p: "p \<noteq> 0"
  shows "nh_exact s' (\<lambda>q. ext q + of_bool (q = p))"
proof (rule nh_exact_static [OF ex])
  show "nh_static s' = nh_static s" using nh_static_get [of i s] r by simp
  note len = nh_room_get(3) [OF inv room r p]
  have u: "unat (nh_users (nh_heap s ! p)) + Suc n < 2 ^ 32" using room len by (simp add: nh_room_def)
  then have ne: "nh_users (nh_heap s ! p) + 1 \<noteq> 0"
    by (auto simp: eq_neg_iff_add_eq_0 [symmetric] unsigned_minus_1_eq_mask mask_eq_exp_minus_1)
  have s': "s' = nh_upd p (nh_users_update (\<lambda>u. u + 1)) s" by (rule nh_inv_get(4) [OF inv r p ne])
  have "unat (nh_users (nh_heap s ! p) + 1) = Suc (unat (nh_users (nh_heap s ! p)))"
    using ne by (metis Suc_eq_plus1 add.commute unatSuc)
  moreover have "nh_links (nh_heap s') q = nh_links (nh_heap s) q" for q
    using nh_links_update [OF len, of "nh_users_update (\<lambda>u. u + 1) (nh_heap s ! p)" q] by (simp add: s')
  ultimately show "unat (nh_users (nh_heap s' ! q)) + nh_links (nh_heap s) q + ext q =
      unat (nh_users (nh_heap s ! q)) + nh_links (nh_heap s') q + (ext q + of_bool (q = p))"
    if "q < length (nh_heap s)" for q
    using len that by (cases "q = p") (simp_all add: s')
qed

section \<open>Dropping a reference\<close>

lemma count_out_unlink_eq:
  "count_list (nh_out nh) q = count_list (nh_out (nh_unlink nh)) q + count_list (nh_children nh) q"
  by (auto simp: nh_out_def nh_unlink_def nh_children_def)

text \<open>What waits to be released has given up its components.\<close>

definition nh_wexact :: "nh_work list \<Rightarrow> nh_state \<Rightarrow> (nh_ptr \<Rightarrow> nat) \<Rightarrow> bool" where
  "nh_wexact w s ext \<longleftrightarrow> nh_exact s (\<lambda>q. ext q + count_list (nh_puts w) q) \<and>
     (\<forall>p\<in>set (nh_frees w). nh_type (nh_heap s ! p) = NH_COMPOSITE \<longrightarrow> nh_component_nh (nh_heap s ! p) = [])"

lemma nh_wexact_put1:
  assumes w: "nh_wexact (NhPut p # w) s ext" and wi: "nh_winv (NhPut p # w) s ext" and r: "nh_put1 p s = (w', s')"
  shows "nh_wexact (w' @ w) s' ext"
proof -
  let ?e = "\<lambda>q. ext q + count_list (nh_puts w) q"
  note p = nh_winv_put1(2,3) [OF wi r]
  have ex: "nh_exact s (\<lambda>q. ext q + count_list (p # nh_puts w) q)"
    and fr: "\<forall>q\<in>set (nh_frees w). nh_type (nh_heap s ! q) = NH_COMPOSITE \<longrightarrow> nh_component_nh (nh_heap s ! q) = []"
    using w by (simp_all add: nh_wexact_def)
  let ?u = "nh_users (nh_heap s ! p)" and ?g = "\<lambda>u::u32. if u = 0 then 0 else u - 1"
  let ?s1 = "nh_upd p (nh_users_update ?g) s"
  have "unat ?u \<noteq> 0" using nh_exactD [OF ex p] by simp
  then have u: "Suc (unat (?g ?u)) = unat ?u" by (auto simp: unat_minus_one)
  have st1: "nh_static ?s1 = nh_static s" by (rule nh_static_upd) simp
  have l1: "nh_links (nh_heap ?s1) q = nh_links (nh_heap s) q" for q
    using nh_links_update [OF p(2), of "nh_users_update ?g (nh_heap s ! p)" q] by simp
  have ex1: "nh_exact ?s1 ?e"
  proof (rule nh_exact_static [OF ex st1])
    show "unat (nh_users (nh_heap ?s1 ! q)) + nh_links (nh_heap s) q + (ext q + count_list (p # nh_puts w) q) =
      unat (nh_users (nh_heap s ! q)) + nh_links (nh_heap ?s1) q + ?e q" if "q < length (nh_heap s)" for q
      unfolding l1 using u p(2) that by (cases "q = p") simp_all
  qed
  have fr1: "\<forall>q\<in>set (nh_frees w). nh_type (nh_heap ?s1 ! q) = NH_COMPOSITE \<longrightarrow> nh_component_nh (nh_heap ?s1 ! q) = []"
    using fr p(2) by (auto simp: nth_list_update_if split: if_split_asm)
  show ?thesis
  proof (cases "nh_users (nh_heap ?s1 ! p) = 0")
    case False
    then have "w' = []" "s' = ?s1" using r by (simp_all add: nh_put1_def Let_def)
    then show ?thesis using ex1 fr1 by (simp add: nh_wexact_def)
  next
    case True
    then have w': "w' = map NhPut (nh_children (nh_heap ?s1 ! p)) @ [NhFree p]" "s' = nh_upd p nh_unlink ?s1"
      using r by (simp_all add: nh_put1_def Let_def)
    have st: "nh_static s' = nh_static ?s1" unfolding w'(2) by (rule nh_static_upd) (simp add: nh_unlink_def)
    have len: "p < length (nh_heap ?s1)" using p(2) by simp
    have "nh_exact s' (\<lambda>q. ?e q + count_list (nh_children (nh_heap ?s1 ! p)) q)"
    proof (rule nh_exact_static [OF ex1 st])
      show "unat (nh_users (nh_heap s' ! q)) + nh_links (nh_heap ?s1) q + ?e q =
        unat (nh_users (nh_heap ?s1 ! q)) + nh_links (nh_heap s') q + (?e q + count_list (nh_children (nh_heap ?s1 ! p)) q)"
        if "q < length (nh_heap ?s1)" for q
      proof -
        have "nh_users (nh_heap s' ! q) = nh_users (nh_heap ?s1 ! q)"
          unfolding w'(2) using len by (simp add: nth_list_update_if nh_unlink_def)
        moreover have "nh_links (nh_heap ?s1) q = nh_links (nh_heap s') q + count_list (nh_children (nh_heap ?s1 ! p)) q"
          using nh_links_update [OF len, of "nh_unlink (nh_heap ?s1 ! p)" q] count_out_unlink_eq [of "nh_heap ?s1 ! p" q]
          unfolding w'(2) by simp
        ultimately show ?thesis by simp
      qed
    qed
    then have "nh_exact s' (\<lambda>q. ext q + count_list (nh_puts (w' @ w)) q)"
      by (simp add: w'(1) ac_simps)
    moreover have "\<forall>q\<in>set (nh_frees (w' @ w)). nh_type (nh_heap s' ! q) = NH_COMPOSITE \<longrightarrow> nh_component_nh (nh_heap s' ! q) = []"
    proof
      fix q assume q: "q \<in> set (nh_frees (w' @ w))"
      show "nh_type (nh_heap s' ! q) = NH_COMPOSITE \<longrightarrow> nh_component_nh (nh_heap s' ! q) = []"
      proof (cases "q = p")
        case True
        then show ?thesis unfolding w'(2) using len by (simp add: nh_unlink_def)
      next
        case False
        then have fw: "q \<in> set (nh_frees w)" and eq: "nh_heap s' ! q = nh_heap ?s1 ! q" using q by (simp_all add: w')
        show ?thesis unfolding eq by (rule bspec [OF fr1 fw])
      qed
    qed
    ultimately show ?thesis unfolding nh_wexact_def by (rule conjI)
  qed
qed

lemma nh_clear_components:
  "nh_type (nh_clear n) = nh_type n"
  "nh_component_nh (nh_clear n) = (if nh_type n = NH_COMPOSITE then [] else nh_component_nh n)"
  by (simp_all add: nh_clear_def)

lemma nh_wexact_free:
  assumes w: "nh_wexact (NhFree p # w) s ext"
  shows "nh_wexact w (nh_release p s) ext"
proof -
  let ?s = "nh_release p s" and ?e = "\<lambda>q. ext q + count_list (nh_puts w) q"
  have ex: "nh_exact s ?e" and fr: "\<forall>q\<in>set (p # nh_frees w). nh_type (nh_heap s ! q) = NH_COMPOSITE \<longrightarrow> nh_component_nh (nh_heap s ! q) = []"
    using w by (simp_all add: nh_wexact_def)
  have out: "nh_out (nh_clear (nh_heap s ! p)) = nh_out (nh_heap s ! p)" using fr by (simp add: nh_out_def nh_clear_def)
  have links: "nh_links (nh_heap ?s) q = nh_links (nh_heap s) q" for q
  proof (cases "p < length (nh_heap s)")
    case True
    from nh_links_update [OF this, of "nh_clear (nh_heap s ! p)" q] show ?thesis
      using nh_release_frame(1) [of p s] by (auto simp: out)
  qed (use nh_release_frame(1) [of p s] in \<open>auto simp: list_update_beyond\<close>)
  have "nh_exact ?s ?e"
    by (rule nh_exact_static [OF ex nh_static_release]) (simp add: links nh_release_users)
  moreover have "\<forall>q\<in>set (nh_frees w). nh_type (nh_heap ?s ! q) = NH_COMPOSITE \<longrightarrow> nh_component_nh (nh_heap ?s ! q) = []"
    using fr nh_release_frame(1) [of p s]
    by (cases "p < length (nh_heap s)") (auto simp: nth_list_update_if nh_clear_components list_update_beyond split: if_split_asm)
  ultimately show ?thesis by (simp add: nh_wexact_def)
qed

lemma nh_run_exact: "nh_wexact w s ext \<Longrightarrow> nh_winv w s ext \<Longrightarrow> nh_exact (nh_run w s) ext"
proof (induction w s rule: nh_run.induct)
  case (1 s)
  then show ?case by (simp add: nh_wexact_def)
next
  case (2 p w s)
  obtain w' s' where r: "nh_put1 p s = (w', s')" by (cases "nh_put1 p s")
  note wi = nh_winv_put1 [OF "2.prems"(2) r] and we = nh_wexact_put1 [OF "2.prems" r]
  with "2.IH"(3) r show ?case by (simp add: nh_run.simps)
next
  case (3 p w s)
  then show ?case by (simp add: nh_run.simps nh_winv_free nh_wexact_free)
qed

lemma nh_exact_put:
  assumes "nh_exact s (\<lambda>q. ext q + of_bool (q = p))" "nh_inv s (\<lambda>q. ext q + of_bool (q = p))"
  shows "nh_exact (vrouter_put_nexthop p s) ext"
proof -
  have e: "count_list (nh_puts [NhPut p]) q = of_bool (q = p)" for q by simp
  show ?thesis unfolding vrouter_put_nexthop_def
    by (rule nh_run_exact) (use assms in \<open>simp_all only: nh_wexact_def nh_winv_def e, simp_all\<close>)
qed

section \<open>The table after its start\<close>

lemma nh_table_init_exact:
  assumes "\<And>i j. page i = page j \<Longrightarrow> page i \<noteq> None \<Longrightarrow> i = j" "unat nmax < 2 ^ 29"
    and "nh_table_init zok page nmax (nh_boot sched vifs) = (RetOk, s)"
  shows "nh_exact s (\<lambda>_. 0)"
proof -
  have n: "nh_tbl s = (\<lambda>_. 0)(NH_DISCARD_ID := 1)"
    "nh_heap s = [zero_nexthop 0, (zero_nexthop 0)\<lparr>nh_type := NH_DISCARD, nh_reach_nh := Rdiscard,
       nh_flags := NH_FLAG_VALID, nh_family := AF_INET, nh_users := 1\<rparr>]"
    by (rule nh_table_init_inv [OF _ assms(2,3)]; fact assms(1))+
  show ?thesis unfolding nh_exact_def n(2)
    by (auto simp: less_Suc_eq nh_in_tbl_def n nh_links_def nh_out_def zero_nexthop_def NH_DISCARD_ID_def)
qed

lemmas nh_ex_exact = nh_table_init_exact [OF _ _ nh_ex_init, simplified]

end
