(* ===== verification/VR_Nh_Refs.thy ===== *)
theory VR_Nh_Refs
  imports VR_Nexthop_Exact
begin

text \<open>
  The nexthop table as its clients see it: they look a nexthop up by its number and get a reference
  with it, keep the pointer in a table of their own, and drop the reference when they overwrite the
  pointer. The locale \<open>ref_store\<close> is that contract; its interpretation shows that the reference
  counts of \<^verbatim>\<open>vr_nexthop.c\<close> meet it. Inside the locale, what the clients need for one slot and for
  an array of slots is proved once.
\<close>

section \<open>Allocations\<close>

text \<open>All allocations to come succeed.\<close>

definition sched_ok :: "nh_state \<Rightarrow> bool" where
  "sched_ok s \<longleftrightarrow> (\<forall>n. vr_sched s n)"

lemma sched_run: "sched_ok s \<Longrightarrow> sched_ok (nh_run w s)"
proof (induction w s rule: nh_run.induct)
  case (2 p w s)
  have "vr_sched (snd (nh_put1 p s)) = vr_sched s" by (simp add: nh_put1_def Let_def nh_upd_def)
  then have "sched_ok s' = sched_ok s" if "nh_put1 p s = (w', s')" for w' s' using that by (simp add: sched_ok_def)
  with 2 show ?case by (auto simp: nh_run.simps sched_ok_def split: prod.split)
next
  case (3 p w s)
  have "vr_sched (nh_release p s) = vr_sched s \<or> vr_sched (nh_release p s) = (\<lambda>n. vr_sched s (Suc n))"
    by (auto simp: nh_release_def vrouter_free_nexthop_def vrouter_free_nexthop_defer_def next_alloc_def Let_def nh_upd_def)
  then have "sched_ok (nh_release p s)" using 3(2) by (auto simp: sched_ok_def)
  then show ?case using 3 by (simp add: nh_run.simps)
qed simp

lemma sched_put: "sched_ok s \<Longrightarrow> sched_ok (vrouter_put_nexthop p s)"
  by (simp add: vrouter_put_nexthop_def sched_run)

lemma sched_get: "sched_ok s \<Longrightarrow> sched_ok (snd (vrouter_get_nexthop i s))"
  by (auto simp: vrouter_get_nexthop_def get_nexthop_raw_def nh_upd_def sched_ok_def split: prod.split option.split)

section \<open>Taking and dropping one reference\<close>

text \<open>
  The counts are exactly the references of the table, of the nexthops and the \<open>ext\<close> of the clients, and
  have room for \<open>n\<close> more; the discard nexthop is in the table. \<open>L\<close> is the size of the heap, and tells
  whether all allocations succeed. A reference that is counted although nobody holds it violates the
  invariant just as one that is held but not counted.
\<close>

definition nh_good :: "nat \<times> bool \<Rightarrow> nh_state \<Rightarrow> (nh_ptr \<Rightarrow> nat) \<Rightarrow> nat \<Rightarrow> bool" where
  "nh_good L s ext n \<longleftrightarrow> length (nh_heap s) = fst L \<and> (snd L \<longrightarrow> sched_ok s) \<and> nh_inv s ext \<and>
     nh_exact s ext \<and> nh_room s n \<and> nh_tbl s NH_DISCARD_ID \<noteq> 0"

lemma nh_good_mono: "nh_good L s ext n \<Longrightarrow> m \<le> n \<Longrightarrow> nh_good L s ext m"
  using nh_room_mono by (auto simp: nh_good_def)

lemma nh_good_get:
  assumes g: "nh_good L s ext (Suc n)" and r: "vrouter_get_nexthop i s = (p, s')" and p: "p \<noteq> 0"
  shows "nh_good L s' (\<lambda>q. ext q + of_bool (q = p)) n" "p < fst L"
proof -
  have inv: "nh_inv s ext" and room: "nh_room s (Suc n)" using g by (simp_all add: nh_good_def)
  note get = nh_room_get [OF inv room r p]
  have "nh_static s' = nh_static s" using nh_static_get [of i s] r by simp
  then show "nh_good L s' (\<lambda>q. ext q + of_bool (q = p)) n"
    using g get(1,2) nh_exact_get [OF _ inv room r p] nh_static_tbl [of s' s] nh_static_length [of s' s] sched_get [of s i] r by (simp add: nh_good_def)
  show "p < fst L" using get(3) g by (simp add: nh_good_def)
qed

lemma nh_good_put:
  assumes "nh_good L s (\<lambda>q. ext q + of_bool (q = p)) n"
  shows "nh_good L (vrouter_put_nexthop p s) ext n"
  using assms nh_inv_put1 [of s ext p] nh_exact_put [of s ext p] nh_room_put [of s n p] nh_static_length [OF nh_static_put [of p s]]
    nh_static_tbl [OF nh_static_put [of p s]] sched_put [of s p]
  by (simp add: nh_good_def)

lemma nh_good_valid: "nh_good L s ext n \<Longrightarrow> 0 < ext p \<Longrightarrow> 0 < p \<and> p < fst L"
  using nh_inv_valid [of s ext p] by (auto simp: nh_good_def)

section \<open>The contract\<close>

text \<open>
  \<open>good s ext n\<close>: the state \<open>s\<close> counts the references \<open>ext\<close> that clients hold, neither more nor fewer, and has
  room for \<open>n\<close> more.
\<close>

locale ref_store =
  fixes good :: "'s \<Rightarrow> (nat \<Rightarrow> nat) \<Rightarrow> nat \<Rightarrow> bool"
    and lookup :: "'s \<Rightarrow> 'i \<Rightarrow> nat"
    and get :: "'i \<Rightarrow> 's \<Rightarrow> nat \<times> 's"
    and put :: "nat \<Rightarrow> 's \<Rightarrow> 's"
  assumes get_fst: "fst (get i s) = lookup s i"
    and get_null: "good s ext n \<Longrightarrow> get i s = (0, s') \<Longrightarrow> s' = s"
    and get_good: "good s ext (Suc n) \<Longrightarrow> get i s = (p, s') \<Longrightarrow> p \<noteq> 0 \<Longrightarrow> good s' (\<lambda>q. ext q + of_bool (q = p)) n"
    and get_lookup: "lookup (snd (get i s)) = lookup s"
    and put_good: "good s (\<lambda>q. ext q + of_bool (q = p)) n \<Longrightarrow> good (put p s) ext n"
    and put_lookup: "lookup (put p s) = lookup s"
    and good_mono: "good s ext n \<Longrightarrow> m \<le> n \<Longrightarrow> good s ext m"
begin

text \<open>The reference a slot holds; a slot may be empty.\<close>

definition slot :: "nat \<Rightarrow> nat \<Rightarrow> nat" where
  "slot p q = of_bool (p \<noteq> 0 \<and> q = p)"

lemma get_slot:
  assumes "good s ext (Suc n)" "get i s = (p, s')"
  shows "good s' (\<lambda>q. ext q + slot p q) n" "p = lookup s i" "lookup s' = lookup s"
proof -
  show "p = lookup s i" "lookup s' = lookup s" using assms(2) get_fst [of i s] get_lookup [of i s] by simp_all
  show "good s' (\<lambda>q. ext q + slot p q) n"
  proof (cases "p = 0")
    case True
    then have "s' = s" using assms get_null by blast
    then show ?thesis using True good_mono [OF assms(1), of n] by (simp add: slot_def)
  qed (use get_good [OF assms] in \<open>simp add: slot_def\<close>)
qed

lemma put_slot:
  assumes "good s (\<lambda>q. ext q + slot p q) n"
  shows "good (if p = 0 then s else put p s) ext n"
  using assms put_good [of s ext p n] by (cases "p = 0") (simp_all add: slot_def)

text \<open>Overwriting a slot: the new reference is taken first, the old one dropped last.\<close>

lemma swap_slot:
  assumes "good s (\<lambda>q. ext q + slot old q) (Suc n)" "get i s = (p, s1)"
  shows "good (if old = 0 then s1 else put old s1) (\<lambda>q. ext q + slot p q) n"
proof -
  have "good s1 (\<lambda>q. (ext q + slot p q) + slot old q) n" using get_slot(1) [OF assms] by (simp add: ac_simps)
  then show ?thesis by (rule put_slot)
qed

lemma put_swap_lookup: "lookup (if old = 0 then s else put old s) = lookup s"
  by (simp add: put_lookup)

text \<open>An array of slots.\<close>

definition slots :: "nat list \<Rightarrow> nat \<Rightarrow> nat" where
  "slots ps q = of_bool (q \<noteq> 0) * count_list ps q"

lemma slots_update:
  assumes "i < length ps"
  shows "slots (ps[i := p]) q + slot (ps ! i) q = slots ps q + slot p q"
proof -
  have "count_list ps q = count_list (take i ps @ ps ! i # drop (Suc i) ps) q"
    using id_take_nth_drop [OF assms] by (rule arg_cong)
  then have "count_list ps q = count_list (take i ps) q + of_bool (ps ! i = q) + count_list (drop (Suc i) ps) q"
    unfolding count_list_append by simp
  moreover have "count_list (ps[i := p]) q = count_list (take i ps) q + of_bool (p = q) + count_list (drop (Suc i) ps) q"
    using assms by (simp add: upd_conv_take_nth_drop)
  ultimately show ?thesis by (auto simp: slots_def slot_def)
qed

text \<open>Overwriting one slot of an array.\<close>

lemma swap_slots:
  assumes g: "good s (\<lambda>q. ext q + slots ps q) (Suc n)" and k: "k < length ps" and r: "get i s = (p, s1)"
  shows "good (if ps ! k = 0 then s1 else put (ps ! k) s1) (\<lambda>q. ext q + slots (ps[k := p]) q) n"
proof -
  have "slots ps q = (slots (ps[k := 0]) q) + slot (ps ! k) q" for q
    using slots_update [OF k, of 0 q] by (simp add: slot_def)
  then have "good s (\<lambda>q. (ext q + slots (ps[k := 0]) q) + slot (ps ! k) q) (Suc n)" using g by (simp add: ac_simps)
  from swap_slot [OF this r]
  have "good (if ps ! k = 0 then s1 else put (ps ! k) s1) (\<lambda>q. (ext q + slots (ps[k := 0]) q) + slot p q) n" .
  moreover have "slots (ps[k := 0]) q + slot p q = slots (ps[k := p]) q" for q
    using slots_update [of k "ps[k := 0]" p q] k by (simp add: slot_def)
  ultimately show ?thesis by (simp add: add.assoc)
qed

text \<open>Emptying one slot of an array.\<close>

lemma clear_slots:
  assumes g: "good s (\<lambda>q. ext q + slots ps q) n" and k: "k < length ps"
  shows "good (if ps ! k = 0 then s else put (ps ! k) s) (\<lambda>q. ext q + slots (ps[k := 0]) q) n"
proof -
  have "slots ps q = (slots (ps[k := 0]) q) + slot (ps ! k) q" for q
    using slots_update [OF k, of 0 q] by (simp add: slot_def)
  then have "good s (\<lambda>q. (ext q + slots (ps[k := 0]) q) + slot (ps ! k) q) n" using g by (simp add: ac_simps)
  then show ?thesis by (rule put_slot)
qed

end

interpretation nhr: ref_store "nh_good L" nh_tbl vrouter_get_nexthop vrouter_put_nexthop for L
proof
  fix s s' :: nh_state and ext :: "nh_ptr \<Rightarrow> nat" and i p n m
  show "fst (vrouter_get_nexthop i s) = nh_tbl s i" by (rule fst_get_nexthop)
  show "nh_good L s ext n \<Longrightarrow> vrouter_get_nexthop i s = (0, s') \<Longrightarrow> s' = s"
    using get_nexthop_null(1) by (auto simp: nh_good_def)
  show "nh_good L s ext (Suc n) \<Longrightarrow> vrouter_get_nexthop i s = (p, s') \<Longrightarrow> p \<noteq> 0 \<Longrightarrow> nh_good L s' (\<lambda>q. ext q + of_bool (q = p)) n"
    by (rule nh_good_get(1))
  show "nh_tbl (snd (vrouter_get_nexthop i s)) = nh_tbl s" by (rule nh_static_tbl [OF nh_static_get])
  show "nh_good L s (\<lambda>q. ext q + of_bool (q = p)) n \<Longrightarrow> nh_good L (vrouter_put_nexthop p s) ext n" by (rule nh_good_put)
  show "nh_tbl (vrouter_put_nexthop p s) = nh_tbl s" by (rule nh_static_tbl [OF nh_static_put])
  show "nh_good L s ext n \<Longrightarrow> m \<le> n \<Longrightarrow> nh_good L s ext m" by (rule nh_good_mono)
qed

text \<open>The freshly set up table meets it.\<close>

lemma nh_ex_good: "nh_good (2, True) nh_ex (\<lambda>_. 0) 1000"
  using nh_ex_inv(1,2) nh_ex_exact
  by (auto simp: nh_good_def sched_ok_def nh_ex_fields nh_room_def nh_ex_inv(4) less_Suc_eq zero_nexthop_def)

end
