(* ===== verification/VR_Mtrie_Refs.thy ===== *)
theory VR_Mtrie_Refs
  imports VR_Mtrie_LPM VR_Nh_Refs
begin

text \<open>
  The nexthop references of a trie. Every leaf of a trie of nexthops holds one reference, and
  so does every leaf of a bucket that waits to be freed: the operations of the trie keep the
  reference counts right, so that no nexthop is released while a route leads to it.
\<close>

section \<open>The references of a trie\<close>

primrec refs :: "ip_bucket_entry \<Rightarrow> nh_ptr \<Rightarrow> nat" and refs_data :: "entry_data \<Rightarrow> nh_ptr \<Rightarrow> nat" where
  "refs (Entry d p f l b) q = refs_data d q"
| "refs_data (Nexthop p) q = of_bool (q = p)"
| "refs_data (Vdata v) q = 0"
| "refs_data (Bucket b) q = sum_list (map (\<lambda>e. refs e q) b)"

definition refs_l :: "ip_bucket_entry list \<Rightarrow> nh_ptr \<Rightarrow> nat" where
  "refs_l b q = sum_list (map (\<lambda>e. refs e q) b)"

text \<open>The leaves of a trie of nexthops hold nexthops, and its buckets have 256 entries.\<close>

primrec live :: "ip_bucket_entry \<Rightarrow> bool" and live_data :: "entry_data \<Rightarrow> bool" where
  "live (Entry d p f l b) = live_data d"
| "live_data (Nexthop p) = (p \<noteq> 0)"
| "live_data (Vdata v) = False"
| "live_data (Bucket b) = (length b = 256 \<and> list_all live b)"

text \<open>The number of entries of a trie.\<close>

primrec msize :: "ip_bucket_entry \<Rightarrow> nat" and msize_data :: "entry_data \<Rightarrow> nat" where
  "msize (Entry d p f l b) = msize_data d"
| "msize_data (Nexthop p) = 1"
| "msize_data (Vdata v) = 1"
| "msize_data (Bucket b) = Suc (sum_list (map msize b))"

lemma refs_eq: "refs e = refs_data (entry_data e)" and live_eq: "live e = live_data (entry_data e)"
  and msize_eq: "msize e = msize_data (entry_data e)"
  by (cases e, simp add: fun_eq_iff)+

lemma refs_bucket: "refs_data (Bucket b) = refs_l b"
  by (simp add: refs_l_def fun_eq_iff)

lemma refs_l_simps [simp]:
  "refs_l [] q = 0" "refs_l (e # b) q = refs e q + refs_l b q" "refs_l (b @ c) q = refs_l b q + refs_l c q"
  by (simp_all add: refs_l_def)

lemma refs_l_split: "i < length b \<Longrightarrow> refs_l b q = refs (b ! i) q + refs_l (take i b @ drop (Suc i) b) q"
  by (subst id_take_nth_drop [of i b]) simp_all

lemma refs_l_update: "i < length b \<Longrightarrow> refs_l (b[i := e]) q = refs e q + refs_l (take i b @ drop (Suc i) b) q"
  by (simp add: upd_conv_take_nth_drop)

lemma set_fields_data [simp]:
  "entry_data (set_label f l e) = entry_data e" "entry_data (set_bridge_index i e) = entry_data e"
  "entry_data (copy_entry x e) = entry_data e"
  by (cases e, simp add: copy_entry_def)+

section \<open>One entry\<close>

lemma nh_good_choose:
  assumes g: "nh_good L s ext (2 + n)" and p: "p \<noteq> 0"
    and r: "(case vrouter_get_nexthop i s of (t, s1) \<Rightarrow>
       if t \<noteq> p then vrouter_get_nexthop NH_DISCARD_ID (if t \<noteq> 0 then vrouter_put_nexthop t s1 else s1)
       else (p, s1)) = (p', s2)"
  shows "p' \<noteq> 0 \<and> nh_good L s2 (\<lambda>q. ext q + of_bool (q = p')) n"
proof -
  obtain t s1 where t: "vrouter_get_nexthop i s = (t, s1)" by fastforce
  have get: "nh_good L s1 (\<lambda>q. ext q + of_bool (q = t)) (Suc n)" if "t \<noteq> 0"
    using nh_good_get(1) [OF _ t that] g by simp
  show ?thesis
  proof (cases "t = p")
    case True
    then show ?thesis using get r t p nh_good_mono [of L s1 _ "Suc n" n] by auto
  next
    case False
    define s3 where "s3 = (if t \<noteq> 0 then vrouter_put_nexthop t s1 else s1)"
    have "nh_good L s3 ext (Suc n)"
    proof (cases "t = 0")
      case True
      then show ?thesis
        using get_nexthop_null [of s ext i s1] g t nh_good_mono [OF g, of "Suc n"] by (simp add: s3_def nh_good_def)
    qed (use get nh_good_put in \<open>auto simp: s3_def\<close>)
    moreover have d: "vrouter_get_nexthop NH_DISCARD_ID s3 = (p', s2)" using r t False by (simp add: s3_def)
    moreover have "p' \<noteq> 0"
      using calculation fst_get_nexthop [of NH_DISCARD_ID s3] by (simp add: nh_good_def)
    ultimately show ?thesis using nh_good_get(1) by blast
  qed
qed

text \<open>The reference a leaf holds itself.\<close>

definition leaf_refs :: "ip_bucket_entry \<Rightarrow> nh_ptr \<Rightarrow> nat" where
  "leaf_refs e q = (case entry_data e of Nexthop old \<Rightarrow> of_bool (q = old) | _ \<Rightarrow> 0)"

lemma set_entry_to_nh_good:
  assumes g: "nh_good L s (\<lambda>q. leaf_refs e q + ext q) (2 + n)"
    and e: "entry_data e \<noteq> Nexthop 0"
    and p: "p \<noteq> 0" and r: "set_entry_to_nh e p s = (e', s')"
  shows "\<exists>p'. p' \<noteq> 0 \<and> e' = set_data (Nexthop p') e \<and> nh_good L s' (\<lambda>q. of_bool (q = p') + ext q) n"
proof -
  obtain t s1 where t: "vrouter_get_nexthop (nh_id (nh_heap s ! p)) s = (t, s1)" by fastforce
  obtain p' s2 where c: "(if t \<noteq> p then vrouter_get_nexthop NH_DISCARD_ID
       (if t \<noteq> 0 then vrouter_put_nexthop t s1 else s1) else (p, s1)) = (p', s2)" by (metis surj_pair)
  have p': "p' \<noteq> 0" "nh_good L s2 (\<lambda>q. leaf_refs e q + ext q + of_bool (q = p')) n"
    using nh_good_choose [OF g p, of "nh_id (nh_heap s ! p)" p' s2] t c by auto
  have res: "e' = set_data (Nexthop p') e"
    "s' = (case entry_data e of Nexthop old \<Rightarrow> if old = 0 then s2 else vrouter_put_nexthop old s2 | _ \<Rightarrow> s2)"
    using r p unfolding set_entry_to_nh_def t prod.case c by auto
  have "nh_good L s' (\<lambda>q. of_bool (q = p') + ext q) n"
  proof (cases "entry_data e")
    case (Nexthop old)
    have "nh_good L s2 (\<lambda>q. (of_bool (q = p') + ext q) + of_bool (q = old)) n"
      using p'(2) Nexthop by (simp add: leaf_refs_def ac_simps)
    from nh_good_put [OF this] show ?thesis using res(2) Nexthop e by simp
  qed (use p' res in \<open>auto simp: leaf_refs_def ac_simps\<close>)
  then show ?thesis using p'(1) res(1) by blast
qed

text \<open>
  An operation on an entry is balanced when it keeps the reference counts right; it takes at
  most \<open>c e\<close> references on the way (\<open>good s ext n\<close> says that the state \<open>s\<close> counts exactly the
  references \<open>ext\<close> and has room for \<open>n\<close> more), and relates the old and the new entry by \<open>Q\<close>.
\<close>

definition balanced ::
  "('s \<Rightarrow> (nh_ptr \<Rightarrow> nat) \<Rightarrow> nat \<Rightarrow> bool) \<Rightarrow> (ip_bucket_entry \<Rightarrow> 's \<Rightarrow> ip_bucket_entry \<times> 's) \<Rightarrow> (ip_bucket_entry \<Rightarrow> nat) \<Rightarrow>
   (ip_bucket_entry \<Rightarrow> bool) \<Rightarrow> (ip_bucket_entry \<Rightarrow> ip_bucket_entry \<Rightarrow> bool) \<Rightarrow> bool" where
  "balanced good f c P Q \<longleftrightarrow> (\<forall>e s ext n. P e \<longrightarrow> good s (\<lambda>q. refs e q + ext q) (c e + n) \<longrightarrow>
     Q e (fst (f e s)) \<and> good (snd (f e s)) (\<lambda>q. refs (fst (f e s)) q + ext q) n)"

lemma balancedD:
  assumes "balanced good f c P Q" "P e" "good s (\<lambda>q. refs e q + ext q) (c e + n)" "f e s = (e', s')"
  shows "Q e e'" "good s' (\<lambda>q. refs e' q + ext q) n"
  using assms(1) [unfolded balanced_def, rule_format, OF assms(2,3)] assms(4) by simp_all

lemma map_st_balanced:
  assumes "balanced good f c P Q"
  shows "list_all P b \<Longrightarrow> good s (\<lambda>q. refs_l b q + ext q) (sum_list (map c b) + n) \<Longrightarrow>
    map_st f b s = (b', s') \<Longrightarrow> list_all2 Q b b' \<and> good s' (\<lambda>q. refs_l b' q + ext q) n"
proof (induction b arbitrary: s ext b' s')
  case (Cons e b)
  obtain e' s1 where e: "f e s = (e', s1)" by fastforce
  obtain c' s2 where c': "map_st f b s1 = (c', s2)" by fastforce
  have "good s (\<lambda>q. refs e q + (refs_l b q + ext q)) (c e + (sum_list (map c b) + n))"
    using Cons.prems(2) by (simp add: ac_simps)
  from balancedD [OF assms _ this e] Cons.prems(1)
  have q: "Q e e'" and g: "good s1 (\<lambda>q. refs e' q + (refs_l b q + ext q)) (sum_list (map c b) + n)" by simp_all
  have "good s1 (\<lambda>q. refs_l b q + (refs e' q + ext q)) (sum_list (map c b) + n)" using g by (simp add: ac_simps)
  from Cons.IH [OF _ this c'] Cons.prems(1)
  show ?case using q Cons.prems(3) e c' by (auto simp: ac_simps)
qed simp

lemma sum_list_map_le_nth: "i < length xs \<Longrightarrow> f (xs ! i) \<le> sum_list (map f xs)" for f :: "'a \<Rightarrow> nat"
  by (auto intro: member_le_sum_list)

lemma upd_st_balanced:
  assumes "balanced good f c P Q"
  shows "distinct is \<Longrightarrow> \<forall>i\<in>set is. i < length b \<and> P (b ! i) \<Longrightarrow>
    good s (\<lambda>q. refs_l b q + ext q) (sum_list (map (\<lambda>i. c (b ! i)) is) + n) \<Longrightarrow>
    upd_st f is b s = (b', s') \<Longrightarrow> length b' = length b \<and> (\<forall>i<length b. if i \<in> set is then Q (b ! i) (b' ! i) else b' ! i = b ! i) \<and>
      good s' (\<lambda>q. refs_l b' q + ext q) n"
proof (induction "is" arbitrary: b s)
  case (Cons i "is")
  obtain e' s1 where e: "f (b ! i) s = (e', s1)" by fastforce
  let ?b = "b[i := e']" and ?r = "take i b @ drop (Suc i) b"
  have i: "i < length b" "P (b ! i)" "i \<notin> set is" using Cons.prems(1,2) by auto
  have "good s (\<lambda>q. refs (b ! i) q + (refs_l ?r q + ext q)) (c (b ! i) + (sum_list (map (\<lambda>i. c (b ! i)) is) + n))"
    using Cons.prems(3) by (simp add: refs_l_split [OF i(1)] ac_simps)
  from balancedD [OF assms i(2) this e]
  have q: "Q (b ! i) e'" and g: "good s1 (\<lambda>q. refs_l ?b q + ext q) (sum_list (map (\<lambda>i. c (b ! i)) is) + n)"
    by (simp_all add: refs_l_update [OF i(1)] ac_simps)
  have same: "?b ! j = b ! j" if "j \<noteq> i" for j using that by simp
  have "map (\<lambda>i. c (?b ! i)) is = map (\<lambda>i. c (b ! i)) is" 
    using i(3) by (intro map_cong refl) (metis same)
  with g have g': "good s1 (\<lambda>q. refs_l ?b q + ext q) (sum_list (map (\<lambda>i. c (?b ! i)) is) + n)"
    by (simp only:)
  have "\<forall>j\<in>set is. j < length ?b \<and> P (?b ! j)"
  proof
    fix j
    assume j: "j \<in> set is"
    then have "?b ! j = b ! j" using i(3) by (intro same) blast
    then show "j < length ?b \<and> P (?b ! j)" using j Cons.prems(2) by simp
  qed
  from Cons.IH [OF _ this g'] Cons.prems(1,4) e
  have r: "length b' = length ?b \<and> (\<forall>j<length ?b. if j \<in> set is then Q (?b ! j) (b' ! j) else b' ! j = ?b ! j) \<and>
      good s' (\<lambda>q. refs_l b' q + ext q) n" by simp
  then have "if j \<in> set (i # is) then Q (b ! j) (b' ! j) else b' ! j = b ! j" if "j < length b" for j
    using that q i same [of j] by (cases "j = i") auto
  then show ?case using r by simp
qed simp

section \<open>Adding\<close>

lemma rt_set_leaf_balanced:
  assumes "rtr_nh rt \<noteq> 0"
  shows "balanced (nh_good L) (rt_set_leaf rt) (\<lambda>_. 2) (\<lambda>e. live e \<and> \<not> ENTRY_IS_BUCKET e) (\<lambda>e e'. live e' \<and> msize e' = 1)"
  unfolding balanced_def
proof (intro allI impI, elim conjE)
  fix e s ext n
  assume e: "live e" "\<not> ENTRY_IS_BUCKET e" and g: "nh_good L s (\<lambda>q. refs e q + ext q) (2 + n)"
  then obtain p where p: "entry_data e = Nexthop p" "p \<noteq> 0"
    by (cases e rule: ENTRY_IS_BUCKET.cases) auto
  obtain e1 s1 where r: "set_entry_to_nh e (rtr_nh rt) s = (e1, s1)" by fastforce
  have "nh_good L s (\<lambda>q. leaf_refs e q + ext q) (2 + n)" using g p(1) by (simp add: leaf_refs_def refs_eq)
  from set_entry_to_nh_good [OF this _ assms r] p
  show "(live (fst (rt_set_leaf rt e s)) \<and> msize (fst (rt_set_leaf rt e s)) = 1) \<and>
      nh_good L (snd (rt_set_leaf rt e s)) (\<lambda>q. refs (fst (rt_set_leaf rt e s)) q + ext q) n"
    using r by (auto simp: rt_set_leaf_def live_eq msize_eq refs_eq)
qed

lemma live_bucket: "live e \<Longrightarrow> entry_data e = Bucket b \<Longrightarrow> length b = 256 \<and> list_all live b"
  by (simp add: live_eq)

lemma add_to_entry_balanced:
  assumes "rtr_nh rt \<noteq> 0"
    and down: "\<And>b s ext n b' s'. list_all live b \<Longrightarrow> nh_good L s (\<lambda>q. refs_l b q + ext q) (2 * sum_list (map msize b) + n) \<Longrightarrow>
      down b s = (b', s') \<Longrightarrow> list_all2 (\<lambda>e e'. live e' \<and> msize e' = msize e) b b' \<and> nh_good L s' (\<lambda>q. refs_l b' q + ext q) n"
  shows "balanced (nh_good L) (add_to_entry down rt) (\<lambda>e. 2 * msize e) live (\<lambda>e e'. live e' \<and> msize e' = msize e)"
  unfolding balanced_def
proof (intro allI impI)
  fix e s ext n
  assume e: "live e" and g: "nh_good L s (\<lambda>q. refs e q + ext q) (2 * msize e + n)"
  let ?e = "set_plen (rtr_prefix_len rt) e"
  let ?Q = "\<lambda>e' s'. (live e' \<and> msize e' = msize e) \<and> nh_good L s' (\<lambda>q. refs e' q + ext q) n"
  have "?Q e s" using e nh_good_mono [OF g] by simp
  moreover have "?Q (fst (rt_set_leaf rt ?e s)) (snd (rt_set_leaf rt ?e s))" if "\<forall>b. entry_data e \<noteq> Bucket b"
    using rt_set_leaf_balanced [OF assms(1), of L, unfolded balanced_def, rule_format, of ?e s ext n] e g that
    by (cases "entry_data e") (auto simp: live_eq refs_eq msize_eq set_plen_nexthop)
  moreover have "?Q (set_data (Bucket b') ?e) s'" if b: "entry_data e = Bucket b" and d: "down b s = (b', s')" for b b' s'
  proof -
    have "nh_good L s (\<lambda>q. refs_l b q + ext q) (2 * sum_list (map msize b) + n)"
      using nh_good_mono [OF g, of "2 * sum_list (map msize b) + n"] b by (simp add: refs_eq refs_bucket msize_eq)
    from down [OF live_bucket [OF e b, THEN conjunct2] this d]
    have r: "list_all2 (\<lambda>e e'. live e' \<and> msize e' = msize e) b b'" "nh_good L s' (\<lambda>q. refs_l b' q + ext q) n" by auto
    have "map msize b' = map msize b" using r(1) by (auto simp: list_all2_conv_all_nth intro: nth_equalityI)
    moreover have "list_all live b'" using r(1) by (auto simp: list_all2_conv_all_nth list_all_length)
    ultimately show ?thesis
      using r(2) b live_bucket [OF e b] list_all2_lengthD [OF r(1)] by (simp add: live_eq msize_eq refs_eq refs_bucket)
  qed
  ultimately show "?Q (fst (add_to_entry down rt e s)) (snd (add_to_entry down rt e s))"
    by (auto simp: add_to_entry_def Let_def split: entry_data.split prod.split)
qed

lemma sum_list_double: "sum_list (map (\<lambda>x. 2 * f x) xs) = 2 * sum_list (map f xs)" for f :: "'a \<Rightarrow> nat"
  by (induction xs) auto

lemma add_to_tree_balanced:
  assumes "rtr_nh rt \<noteq> 0"
  shows "balanced (nh_good L) (add_to_tree n rt) (\<lambda>e. 2 * msize e) live (\<lambda>e e'. live e' \<and> msize e' = msize e)"
proof (induction n)
  case 0
  show ?case unfolding add_to_tree.simps
    by (rule add_to_entry_balanced [OF assms])
      (auto simp: list_all2_conv_all_nth list_all_length intro: nh_good_mono)
next
  case (Suc n)
  show ?case unfolding add_to_tree.simps
    using map_st_balanced [OF Suc] by (intro add_to_entry_balanced [OF assms]) (simp add: sum_list_double)
qed

lemma next_alloc_good: "nh_good L s ext n \<Longrightarrow> nh_good L (snd (next_alloc s)) ext n"
proof -
  have "nh_static (snd (next_alloc s)) = nh_static s" by (simp add: nh_static_def next_alloc_def)
  note st = nh_static_tbl [OF this] nh_table_ok_static [OF this] nh_in_tbl_static [OF this]
  assume "nh_good L s ext n"
  then show ?thesis using st(1,2,3) by (auto simp: nh_good_def nh_inv_def nh_exact_def nh_room_def next_alloc_def sched_ok_def)
qed

lemma alloc_bucket_balanced:
  assumes g: "nh_good L s ext (512 + n)" and ok: "vr_sched s 0" and e: "entry_data e = Nexthop p" "p \<noteq> 0"
    and r: "mtrie_alloc_bucket True 256 e s = (ob, s')"
  obtains b where "ob = Some b" "list_all (\<lambda>e. live e \<and> msize e = 1) b" "length b = 256"
    "nh_good L s' (\<lambda>q. refs_l b q + ext q) n"
proof -
  let ?f = "\<lambda>ent s. case set_entry_leaf True ent (entry_ptr e) s of (ent, s) \<Rightarrow> (copy_entry e ent, s)"
  have ptr: "entry_ptr e = p" using e(1) by (cases e) simp
  have bal: "balanced (nh_good L) ?f (\<lambda>_. 2) (\<lambda>x. x = zero_entry) (\<lambda>_ e. live e \<and> msize e = 1)"
    unfolding balanced_def
  proof (intro allI impI)
    fix x s ext n
    assume x: "x = zero_entry" and g: "nh_good L s (\<lambda>q. refs x q + ext q) (2 + n)"
    obtain e1 s1 where r: "set_entry_to_nh zero_entry p s = (e1, s1)" by fastforce
    have "nh_good L s (\<lambda>q. leaf_refs zero_entry q + ext q) (2 + n)"
      using g x by (simp add: leaf_refs_def zero_entry_def)
    from set_entry_to_nh_good [OF this _ e(2) r]
    show "(live (fst (?f x s)) \<and> msize (fst (?f x s)) = 1) \<and> nh_good L (snd (?f x s)) (\<lambda>q. refs (fst (?f x s)) q + ext q) n"
      using r x by (auto simp: set_entry_leaf_def ptr live_eq msize_eq refs_eq zero_entry_def)
  qed
  define s1 where "s1 = snd (next_alloc s)"
  obtain b s2 where b: "map_st ?f (replicate 256 zero_entry) s1 = (b, s2)" by fastforce
  have z: "refs_l (replicate k zero_entry) q = 0" for k q by (induction k) (simp_all add: zero_entry_def)
  have "nh_good L s1 (\<lambda>q. refs_l (replicate 256 zero_entry) q + ext q) (sum_list (map (\<lambda>_. 2) (replicate 256 zero_entry)) + n)"
    using next_alloc_good [OF g] by (simp add: s1_def z sum_list_replicate)
  from map_st_balanced [OF bal _ this b]
  have "list_all2 (\<lambda>_ e. live e \<and> msize e = 1) (replicate 256 zero_entry) b" "nh_good L s2 (\<lambda>q. refs_l b q + ext q) n"
    by (simp_all add: list_all_length)
  moreover have "ob = Some b" "s' = s2"
    using r b ok by (auto simp: mtrie_alloc_bucket_def next_alloc_def s1_def split: prod.splits)
  ultimately show thesis
    by (intro that [of b]) (auto simp: list_all2_conv_all_nth list_all_length)
qed

lemma add_bkt_balanced:
  assumes g: "nh_good L s (\<lambda>q. refs e q + ext q) (512 + n)" and ok: "vr_sched s 0" and e: "live e"
    and r: "add_bkt True 256 e s = (ob, e1, s1)"
  obtains b where "ob = Some b" "entry_data e1 = Bucket b" "list_all live b" "length b = 256"
    "nh_good L s1 (\<lambda>q. refs_l b q + ext q) n"
    "b = (case entry_data e of Bucket b' \<Rightarrow> b' | _ \<Rightarrow> b)" "(\<exists>b'. entry_data e = Bucket b') \<or> (\<forall>x\<in>set b. msize x = 1)"
proof (cases "entry_data e")
  case (Bucket b)
  then show ?thesis
    using r e nh_good_mono [OF g, of n] live_bucket [OF e Bucket]
    by (intro that [of b]) (auto simp: add_bkt_def refs_eq refs_bucket)
next
  case (Vdata v)
  then show ?thesis using e by (simp add: live_eq)
next
  case (Nexthop p)
  obtain ob' s2 where a: "mtrie_alloc_bucket True 256 e s = (ob', s2)" by fastforce
  from Nexthop e have p: "p \<noteq> 0" by (simp add: live_eq)
  obtain b where b: "ob' = Some b" "list_all (\<lambda>e. live e \<and> msize e = 1) b" "length b = 256"
    "nh_good L s2 (\<lambda>q. refs_l b q + (refs e q + ext q)) n" by (rule alloc_bucket_balanced [OF g ok Nexthop p a])
  have "nh_good L s2 (\<lambda>q. (refs_l b q + ext q) + of_bool (q = p)) n"
    using b(4) Nexthop by (simp add: refs_eq ac_simps)
  note put = nh_good_put [OF this]
  show ?thesis
    using r a Nexthop p b put
    by (intro that [of b]) (auto simp: add_bkt_def set_entry_to_bucket_def list_all_iff)
qed

lemma sum_list_indices:
  fixes c :: "'a \<Rightarrow> nat"
  assumes "distinct is" "\<forall>i\<in>set is. i < length b"
  shows "sum_list (map (\<lambda>i. c (b ! i)) is) \<le> sum_list (map c b)"
proof -
  have "sum_list (map (\<lambda>i. c (b ! i)) is) = (\<Sum>i\<in>set is. c (b ! i))"
    using assms(1) by (rule sum_list_distinct_conv_sum_set)
  also have "\<dots> \<le> (\<Sum>i\<in>{..<length b}. c (b ! i))" using assms(2) by (intro sum_mono2) auto
  also have "\<dots> = sum_list (map c b)" by (simp add: sum_list_sum_nth atLeast0LessThan)
  finally show ?thesis .
qed

lemma msize_pos: "0 < msize e"
  by (cases e; cases "entry_data e") simp_all

lemma add_bkt_msize:
  assumes "b = (case entry_data e of Bucket b' \<Rightarrow> b' | _ \<Rightarrow> b)" "length b = 256"
    "(\<exists>b'. entry_data e = Bucket b') \<or> (\<forall>x\<in>set b. msize x = 1)"
  shows "2 * sum_list (map msize b) \<le> 512 + 2 * msize e" "i < 256 \<Longrightarrow> msize (b ! i) \<le> msize e"
proof -
  have "sum_list (map msize b) \<le> msize e \<and> (\<forall>i<256. msize (b ! i) \<le> msize e) \<or> (\<forall>x\<in>set b. msize x = 1)"
  proof (cases "entry_data e")
    case (Bucket b')
    then have "sum_list (map msize b) \<le> msize e" using assms(1) by (simp add: msize_eq)
    then show ?thesis using order_trans [OF sum_list_map_le_nth [of _ b msize]] assms(2) by simp
  qed (use assms(3) in auto)
  moreover have "sum_list (map msize b) = 256" if "\<forall>x\<in>set b. msize x = 1"
  proof -
    have "map msize b = replicate 256 1" using that assms(2) by (intro nth_equalityI) auto
    then show ?thesis by (simp add: sum_list_replicate)
  qed
  ultimately show "2 * sum_list (map msize b) \<le> 512 + 2 * msize e" "i < 256 \<Longrightarrow> msize (b ! i) \<le> msize e"
    using assms(2) msize_pos [of e] by (auto simp: Suc_le_eq)
qed

lemma mtrie_add_loop_balanced:
  assumes v: "rt_valid rt" "rt_masked rt" "rtr_nh rt \<noteq> 0" and L: "snd L"
  shows "live e \<Longrightarrow> nh_good L s (\<lambda>q. refs e q + ext q) (1024 * n + 2 * msize e + m) \<Longrightarrow>
    level + n = ip_bkt_get_max_level (rtr_family rt) \<Longrightarrow> 8 * int level < rtr_prefix_len rt \<or> level = 0 \<Longrightarrow>
    mtrie_add_loop n rt True level e s = (e', s') \<Longrightarrow> live e' \<and> nh_good L s' (\<lambda>q. refs e' q + ext q) m"
proof (induction n arbitrary: level e s ext e' s')
  case 0
  then show ?case using nh_good_mono [of L s _ _ m] by simp
next
  case (Suc n)
  let ?M = "ip_bkt_get_max_level (rtr_family rt)" and ?i = "rt_to_index rt level"
  let ?is = "add_indices rt (ip_bkt_info_get (rtr_family rt) ! level) ?i"
  have l: "level < ?M" using Suc.prems(3) by simp
  have len: "level < length (rt_bytes rt)" using l rt_valid_simps(1) [OF v(1)] by simp
  have i: "?i < 256" using rt_to_index_eq [OF len] rt_bytes_less [OF len] by simp
  obtain ob e1 s1 where ab: "add_bkt True 256 e s = (ob, e1, s1)" by (cases "add_bkt True 256 e s")
  have g0: "nh_good L s (\<lambda>q. refs e q + ext q) (512 + (512 + 1024 * n + 2 * msize e + m))"
    by (rule nh_good_mono [OF Suc.prems(2)]) simp
  have ok: "vr_sched s 0" using g0 L by (simp add: nh_good_def sched_ok_def)
  obtain b where b: "ob = Some b" "entry_data e1 = Bucket b" "list_all live b" "length b = 256"
    "nh_good L s1 (\<lambda>q. refs_l b q + ext q) (512 + 1024 * n + 2 * msize e + m)"
    and sz: "b = (case entry_data e of Bucket b' \<Rightarrow> b' | _ \<Rightarrow> b)"
      "(\<exists>b'. entry_data e = Bucket b') \<or> (\<forall>x\<in>set b. msize x = 1)"
    by (rule add_bkt_balanced [OF g0 ok Suc.prems(1) ab]) blast
  note msz = add_bkt_msize [OF sz(1) b(4) sz(2)]
  have lb: "x < 256 \<Longrightarrow> live (b ! x)" for x using b(3,4) by (simp add: list_all_length)
  show ?case
  proof (cases "rtr_prefix_len rt > 8 * int (Suc level)")
    case True
    obtain c s2 where c: "mtrie_add_loop n rt True (Suc level) (b ! ?i) s1 = (c, s2)" by fastforce
    let ?r = "take ?i b @ drop (Suc ?i) b"
    have "nh_good L s1 (\<lambda>q. refs (b ! ?i) q + (refs_l ?r q + ext q)) (1024 * n + 2 * msize (b ! ?i) + m)"
      using nh_good_mono [OF b(5), of "1024 * n + 2 * msize (b ! ?i) + m"] msz(2) [OF i] i b(4)
      by (simp add: refs_l_split [of ?i b] ac_simps)
    from Suc.IH [OF lb [OF i] this _ _ c] True Suc.prems(3)
    have r: "live c" "nh_good L s2 (\<lambda>q. refs c q + (refs_l ?r q + ext q)) m" by simp_all
    have "live (set_data (Bucket (b[?i := c])) e1)"
      using r(1) b(3,4) lb i by (auto simp: live_eq list_all_length nth_list_update)
    then show ?thesis
      using Suc.prems(5) ab b(1,4) c True r(2) i
      by (auto simp: bkt_info_get [OF l] bkt_info_uint [OF l] Let_def refs_eq refs_bucket refs_l_update ac_simps)
  next
    case False
    have "rtr_prefix_len rt \<le> 8 * int (Suc level)" using False by simp
    note cov = add_indices_covered [OF v(1,2) l this Suc.prems(4)]
    obtain c s2 where c: "upd_st (add_to_tree n rt) ?is b s1 = (c, s2)" by fastforce
    have "sum_list (map (\<lambda>i. 2 * msize (b ! i)) ?is) \<le> 512 + 2 * msize e"
      using sum_list_indices [OF cov(1), of b msize] cov(2) b(4) msz(1) by (simp add: sum_list_double)
    then have "nh_good L s1 (\<lambda>q. refs_l b q + ext q) (sum_list (map (\<lambda>i. 2 * msize (b ! i)) ?is) + m)"
      by (intro nh_good_mono [OF b(5)]) simp
    from upd_st_balanced [OF add_to_tree_balanced [OF v(3)] cov(1) _ this c] cov(2) b(4) lb
    have r: "length c = 256" "\<forall>i<256. if i \<in> set ?is then live (c ! i) \<and> msize (c ! i) = msize (b ! i) else c ! i = b ! i"
      "nh_good L s2 (\<lambda>q. refs_l c q + ext q) m" by simp_all
    have "live (c ! i)" if "i < 256" for i using r(2) lb that by (metis (full_types))
    then have "live (set_data (Bucket c) e1)" using r(1) by (simp add: live_eq list_all_length)
    then show ?thesis
      using Suc.prems(5) ab b(1,4) c False r(3)
      by (auto simp: bkt_info_get [OF l] bkt_info_uint [OF l] Let_def refs_eq refs_bucket)
  qed
qed

section \<open>Freeing\<close>

lemma mtrie_free_entry_good:
  "live e \<Longrightarrow> nh_good L s (\<lambda>q. refs e q + ext q) n \<Longrightarrow> nh_good L (mtrie_free_entry e s) ext n"
proof (induction e s arbitrary: ext rule: mtrie_free_entry.induct)
  case (1 p a b c d s)
  then have "nh_good L s (\<lambda>q. ext q + of_bool (q = p)) n" by (simp add: ac_simps)
  then show ?case using nh_good_put by simp
next
  case (3 b a c d f s)
  have "nh_good L (fold mtrie_free_entry b' s) ext n"
    if "set b' \<subseteq> set b" "list_all live b'" "nh_good L s (\<lambda>q. refs_l b' q + ext q) n" for b' s
    using that
  proof (induction b' arbitrary: s)
    case (Cons e b')
    have "nh_good L s (\<lambda>q. refs e q + (refs_l b' q + ext q)) n" using Cons.prems(3) by (simp add: ac_simps)
    then have "nh_good L (mtrie_free_entry e s) (\<lambda>q. refs_l b' q + ext q) n"
      using Cons.prems(1,2) by (intro "3.IH") simp_all
    then show ?case using Cons by simp
  qed simp
  then show ?case using "3.prems" by (simp add: refs_l_def [symmetric])
qed simp

lemma mtrie_free_bkt_good:
  assumes "length b = 256" "list_all live b" "nh_good L s (\<lambda>q. refs_l b q + ext q) n"
  shows "nh_good L (mtrie_free_bkt b s) ext n"
  using mtrie_free_entry_good [of "Entry (Bucket b) 0 0 0 0" L s ext n] assms
  by (simp add: mtrie_free_bkt_def refs_l_def)

text \<open>The buckets that wait to be freed hold references too.\<close>

definition refs_d :: "ip_bucket_entry list list \<Rightarrow> nh_ptr \<Rightarrow> nat" where
  "refs_d bs q = sum_list (map (\<lambda>b. refs_l b q) bs)"

definition mt_good :: "nat \<times> bool \<Rightarrow> mt_state \<Rightarrow> (nh_ptr \<Rightarrow> nat) \<Rightarrow> nat \<Rightarrow> bool" where
  "mt_good L st ext n \<longleftrightarrow> nh_good L (ms_nh st) (\<lambda>q. refs_d (ms_defer st) q + ext q) n \<and>
     (\<forall>b\<in>set (ms_defer st). length b = 256 \<and> list_all live b)"

lemma mt_good_mono: "mt_good L st ext n \<Longrightarrow> m \<le> n \<Longrightarrow> mt_good L st ext m"
  unfolding mt_good_def using nh_good_mono by blast

lemma mtrie_free_bkt_cb_good: "mt_good L st ext n \<Longrightarrow> mt_good L (mtrie_free_bkt_cb st) ext n"
proof (cases "ms_defer st")
  case (Cons b bs)
  assume g: "mt_good L st ext n"
  then have "nh_good L (mtrie_free_bkt b (ms_nh st)) (\<lambda>q. refs_d bs q + ext q) n"
    using Cons by (intro mtrie_free_bkt_good) (simp_all add: mt_good_def refs_d_def ac_simps)
  then show ?thesis using g Cons by (simp add: mtrie_free_bkt_cb_def mt_good_def)
qed (simp add: mtrie_free_bkt_cb_def)

lemma mtrie_free_bkt_defer_good:
  assumes g: "mt_good L st (\<lambda>q. refs_l b q + ext q) n" and b: "length b = 256" "list_all live b"
    and r: "mtrie_free_bkt_defer b st = (ok, st')"
  shows "ok \<Longrightarrow> mt_good L st' ext n" "\<not> ok \<Longrightarrow> mt_good L st' (\<lambda>q. refs_l b q + ext q) n"
proof -
  have "nh_good L (snd (next_alloc (ms_nh st))) (\<lambda>q. refs_d (ms_defer st) q + (refs_l b q + ext q)) n"
    using g by (intro next_alloc_good) (simp add: mt_good_def)
  then show "ok \<Longrightarrow> mt_good L st' ext n" "\<not> ok \<Longrightarrow> mt_good L st' (\<lambda>q. refs_l b q + ext q) n"
    using r g b by (auto simp: mtrie_free_bkt_defer_def mt_good_def refs_d_def ac_simps split: prod.splits if_splits)
qed

lemma mtrie_delete_bkt_good:
  assumes g: "mt_good L st (\<lambda>q. refs_l b q + ext q) (2 + n)" and dd: "dd \<longrightarrow> snd L" and b: "length b = 256" "list_all live b"
    and e: "entry_data e = Bucket b" and u: "\<not> ENTRY_IS_BUCKET (b ! 0)"
    and r: "mtrie_delete_bkt dd True e b st = (e', st')"
  shows "live e' \<and> msize e' = 1 \<and> mt_good L st' (\<lambda>q. refs e' q + ext q) n"
proof -
  have "live (b ! 0)" using b by (simp add: list_all_length)
  then obtain p where p: "entry_ptr (b ! 0) = p" "p \<noteq> 0" using u by (cases "b ! 0" rule: ENTRY_IS_BUCKET.cases) auto
  obtain e1 s1 where r1: "set_entry_to_nh e p (ms_nh st) = (e1, s1)" by fastforce
  have "nh_good L (ms_nh st) (\<lambda>q. leaf_refs e q + (refs_d (ms_defer st) q + (refs_l b q + ext q))) (2 + n)"
    using g e by (simp add: mt_good_def leaf_refs_def)
  from set_entry_to_nh_good [OF this _ p(2) r1] e
  obtain p' where p': "p' \<noteq> 0" "e1 = set_data (Nexthop p') e"
    "nh_good L s1 (\<lambda>q. of_bool (q = p') + (refs_d (ms_defer st) q + (refs_l b q + ext q))) n" by auto
  let ?st = "st\<lparr>ms_nh := s1\<rparr>" and ?ext = "\<lambda>q. of_bool (q = p') + ext q"
  have g1: "mt_good L ?st (\<lambda>q. refs_l b q + ?ext q) n" using p'(3) g by (simp add: mt_good_def ac_simps)
  have fin: "mt_good L (st2\<lparr>ms_nh := mtrie_free_bkt b (ms_nh st2)\<rparr>) ?ext n"
    if "mt_good L st2 (\<lambda>q. refs_l b q + ?ext q) n" for st2
    using that b mtrie_free_bkt_good [of b L "ms_nh st2" "\<lambda>q. refs_d (ms_defer st2) q + ?ext q" n]
    by (simp add: mt_good_def ac_simps)
  obtain ok st2 where d: "mtrie_free_bkt_defer b ?st = (ok, st2)" by fastforce
  note dg = mtrie_free_bkt_defer_good [OF g1 b d]
  have ok: "ok" if "snd L"
    using p'(3) that d by (auto simp: mtrie_free_bkt_defer_def nh_good_def sched_ok_def next_alloc_def split: prod.splits if_splits)
  have "e' = copy_entry (b ! 0) e1" "mt_good L st' ?ext n"
    using r r1 d dg dd ok fin [OF g1] fin [of st2]
    by (auto simp: mtrie_delete_bkt_def set_entry_leaf_def p(1) Let_def split: if_splits)
  then show ?thesis using p' by (simp add: live_eq msize_eq refs_eq)
qed

section \<open>Deleting\<close>

text \<open>At most \<open>n\<close> levels of buckets.\<close>

primrec fits :: "nat \<Rightarrow> ip_bucket_entry \<Rightarrow> bool" where
  "fits 0 e = (\<not> ENTRY_IS_BUCKET e)"
| "fits (Suc n) e = (case entry_data e of Bucket b \<Rightarrow> list_all (fits n) b | _ \<Rightarrow> True)"

lemma fits_cong: "entry_data e = entry_data e' \<Longrightarrow> fits n e = fits n e'"
  by (cases n) (auto simp: set_plen_nexthop)

definition shrinks :: "ip_bucket_entry \<Rightarrow> ip_bucket_entry \<Rightarrow> bool" where
  "shrinks e e' \<longleftrightarrow> live e' \<and> msize e' \<le> msize e"

lemma del_replace_balanced:
  assumes "rtr_nh rt \<noteq> 0"
  shows "balanced (mt_good L) (del_replace rt) (\<lambda>e. 2 * msize e) (\<lambda>e. live e \<and> \<not> ENTRY_IS_BUCKET e) shrinks"
  unfolding balanced_def
proof (intro allI impI, elim conjE)
  fix e st ext n
  assume e: "live e" "\<not> ENTRY_IS_BUCKET e" and g: "mt_good L st (\<lambda>q. refs e q + ext q) (2 * msize e + n)"
  let ?e = "set_plen (rtr_replace_plen rt) e"
  obtain e' s' where r: "rt_set_leaf rt ?e (ms_nh st) = (e', s')" by fastforce
  have e1: "live ?e \<and> \<not> ENTRY_IS_BUCKET ?e" using e by (simp add: live_eq set_plen_nexthop)
  have "2 \<le> 2 * msize e" using msize_pos [of e] by simp
  then have "nh_good L (ms_nh st) (\<lambda>q. refs ?e q + (refs_d (ms_defer st) q + ext q)) (2 + n)"
    using mt_good_mono [OF g, of "2 + n"] by (simp add: mt_good_def refs_eq ac_simps)
  from balancedD [OF rt_set_leaf_balanced [OF assms] e1 this r]
  have "live e'" "msize e' = 1" "nh_good L s' (\<lambda>q. refs e' q + (refs_d (ms_defer st) q + ext q)) n" by auto
  then show "shrinks e (fst (del_replace rt e st)) \<and>
      mt_good L (snd (del_replace rt e st)) (\<lambda>q. refs (fst (del_replace rt e st)) q + ext q) n"
    using g r msize_pos [of e] by (simp add: del_replace_def shrinks_def mt_good_def ac_simps)
qed

lemma del_covered_balanced:
  assumes "rtr_nh rt \<noteq> 0" "balanced (mt_good L) sub (\<lambda>e. 2 * msize e) (\<lambda>e. live e \<and> fits n e) shrinks"
  shows "balanced (mt_good L) (del_covered sub rt) (\<lambda>e. 2 * msize e) (\<lambda>e. live e \<and> fits n e) shrinks"
  unfolding balanced_def
proof (intro allI impI, elim conjE)
  fix e st ext m
  assume e: "live e" "fits n e" and g: "mt_good L st (\<lambda>q. refs e q + ext q) (2 * msize e + m)"
  let ?Q = "\<lambda>e' st'. shrinks e e' \<and> mt_good L st' (\<lambda>q. refs e' q + ext q) m"
  let ?e = "set_plen (rtr_replace_plen rt) (set_label (ucast (rtr_label_flags rt)) (ucast (rtr_label rt)) e)"
  have "?Q e st" using e(1) mt_good_mono [OF g] by (simp add: shrinks_def)
  moreover have "?Q (fst (del_replace rt e st)) (snd (del_replace rt e st))" if "\<not> ENTRY_IS_BUCKET e"
    using del_replace_balanced [OF assms(1)] that e(1) g unfolding balanced_def by blast
  moreover have "live ?e \<and> fits n ?e" using e fits_cong [of ?e e n] by (simp add: live_eq)
  then have "?Q (fst (sub ?e st)) (snd (sub ?e st))"
    using assms(2) [unfolded balanced_def, rule_format, of ?e st ext m] g
    by (simp add: refs_eq msize_eq shrinks_def)
  ultimately show "?Q (fst (del_covered sub rt e st)) (snd (del_covered sub rt e st))"
    by (simp add: del_covered_def)
qed

lemma del_finish_good:
  assumes g: "mt_good L st (\<lambda>q. refs_l c q + ext q) (2 + n)" and dd: "dd \<longrightarrow> snd L" and c: "length c = 256" "list_all live c"
    and r: "del_finish dd True e (c, st) = (e', st')"
  shows "live e' \<and> msize e' \<le> Suc (sum_list (map msize c)) \<and> mt_good L st' (\<lambda>q. refs e' q + ext q) n"
proof (cases "bkt_uniform c")
  case True
  have "tl c \<noteq> []" using c(1) by (cases c; cases "tl c") auto
  then obtain x where "x \<in> set (tl c)" by (meson list.set_sel(1))
  then have "\<not> ENTRY_IS_BUCKET (c ! 0)" using True by (auto simp: bkt_uniform_def entry_same_def)
  from mtrie_delete_bkt_good [OF g dd c _ this, of "set_data (Bucket c) e" e' st'] r True
  show ?thesis by (simp add: del_finish_def Let_def)
next
  case False
  then show ?thesis
    using r c mt_good_mono [OF g, of n]
    by (auto simp: del_finish_def Let_def live_eq msize_eq refs_eq refs_bucket)
qed

lemma mtrie_delete_loop_balanced:
  assumes "rtr_nh rt \<noteq> 0" "dd \<longrightarrow> snd L"
  shows "level + n \<le> ip_bkt_get_max_level (rtr_family rt) \<Longrightarrow>
    balanced (mt_good L) (mtrie_delete_loop n rt dd True level) (\<lambda>e. 2 * msize e) (\<lambda>e. live e \<and> fits n e) shrinks"
proof (induction n arbitrary: level)
  case 0
  show ?case unfolding balanced_def
  proof (intro allI impI, elim conjE)
    fix e st ext m
    assume e: "live e" "fits 0 e" and g: "mt_good L st (\<lambda>q. refs e q + ext q) (2 * msize e + m)"
    then show "shrinks e (fst (mtrie_delete_loop 0 rt dd True level e st)) \<and>
        mt_good L (snd (mtrie_delete_loop 0 rt dd True level e st))
          (\<lambda>q. refs (fst (mtrie_delete_loop 0 rt dd True level e st)) q + ext q) m"
      using del_replace_balanced [OF assms(1), of L, unfolded balanced_def, rule_format, OF _ g] mt_good_mono [OF g, of m]
      by (simp add: shrinks_def)
  qed
next
  case (Suc n)
  let ?sub = "mtrie_delete_loop n rt dd True (Suc level)"
  have l: "level < ip_bkt_get_max_level (rtr_family rt)" using Suc.prems by simp
  have sub: "balanced (mt_good L) ?sub (\<lambda>e. 2 * msize e) (\<lambda>e. live e \<and> fits n e) shrinks"
    using Suc.prems by (intro Suc.IH) simp
  note cov = del_covered_balanced [OF assms(1) sub]
  show ?case unfolding balanced_def
  proof (intro allI impI, elim conjE)
    fix e st ext m
    assume e: "live e" "fits (Suc n) e" and g: "mt_good L st (\<lambda>q. refs e q + ext q) (2 * msize e + m)"
    let ?Q = "\<lambda>e' st'. shrinks e e' \<and> mt_good L st' (\<lambda>q. refs e' q + ext q) m"
    have loop: "?Q (fst (del_finish dd True e (upd_st f is b st))) (snd (del_finish dd True e (upd_st f is b st)))"
      if b: "entry_data e = Bucket b" and f: "balanced (mt_good L) f (\<lambda>e. 2 * msize e) (\<lambda>e. live e \<and> fits n e) shrinks"
        and "is": "distinct is" "\<forall>i\<in>set is. i < 256" for b f "is"
    proof -
      note lb = live_bucket [OF e(1) b]
      have fb: "list_all (fits n) b" using e(2) b by simp
      obtain c st1 where c: "upd_st f is b st = (c, st1)" by fastforce
      have le: "2 * sum_list (map (\<lambda>i. msize (b ! i)) is) + 2 \<le> 2 * msize e"
        using sum_list_indices [OF "is"(1), of b msize] "is"(2) lb b by (simp add: msize_eq)
      have g1: "mt_good L st (\<lambda>q. refs_l b q + ext q) (sum_list (map (\<lambda>i. 2 * msize (b ! i)) is) + (2 + m))"
        using mt_good_mono [OF g, of "2 * sum_list (map (\<lambda>i. msize (b ! i)) is) + (2 + m)"] le b
        by (simp add: sum_list_double refs_eq refs_bucket)
      have "\<forall>i\<in>set is. i < length b \<and> live (b ! i) \<and> fits n (b ! i)"
        using "is"(2) lb fb by (simp add: list_all_length)
      from upd_st_balanced [OF f "is"(1) this g1 c] lb
      have r: "length c = 256" "\<forall>i<256. if i \<in> set is then shrinks (b ! i) (c ! i) else c ! i = b ! i"
        "mt_good L st1 (\<lambda>q. refs_l c q + ext q) (2 + m)" by simp_all
      have nth: "live (c ! i) \<and> msize (c ! i) \<le> msize (b ! i)" if "i < 256" for i
        using r(2) that lb by (metis list_all_length order_refl shrinks_def)
      then have "list_all live c" using r(1) by (simp add: list_all_length)
      moreover have "sum_list (map msize c) \<le> sum_list (map msize b)"
        using nth r(1) lb by (intro sum_list_mono2) auto
      ultimately show ?thesis
        using del_finish_good [OF r(3) assms(2) r(1)] c b by (simp add: shrinks_def msize_eq [of e] del: fst_conv snd_conv) (metis Suc_le_mono le_trans prod.collapse)
    qed
    have idx: "rt_to_index rt level < 256"
      unfolding rt_to_index_def using unsigned_less [of "rtr_prefix rt ! level", where 'a = nat] by simp
    have "distinct (del_indices rt (ip_bkt_info_get (rtr_family rt) ! level) (rt_to_index rt level))"
      "\<forall>i\<in>set (del_indices rt (ip_bkt_info_get (rtr_family rt) ! level) (rt_to_index rt level)). i < 256"
      by (auto simp: del_indices_def Let_def bkt_info_get(3) [OF l])
    note both = loop [OF _ sub, of _ "[rt_to_index rt level]"] loop [OF _ cov this]
    have leaf: "?Q (fst (del_replace rt e st)) (snd (del_replace rt e st))" if "\<not> ENTRY_IS_BUCKET e"
      using del_replace_balanced [OF assms(1)] that e(1) g unfolding balanced_def by blast
    have "?Q e st" using e(1) mt_good_mono [OF g] by (simp add: shrinks_def)
    then show "?Q (fst (mtrie_delete_loop (Suc n) rt dd True level e st)) (snd (mtrie_delete_loop (Suc n) rt dd True level e st))"
      using both leaf idx by (cases "entry_data e") (auto simp: Let_def set_plen_nexthop)
  qed
qed

end
