(* ===== verification/VR_Checksum.thy ===== *)
theory VR_Checksum
  imports VR_Prelude
begin

text \<open>
  The internet checksum code: the checksum of an IPv4 header (\<^verbatim>\<open>dp-core/vr_proto_ip.c\<close>) and its
  incremental update when a field changes (\<^verbatim>\<open>include/vr_packet.h\<close>). A header is a record of its
  fields; its 16 bit words are those a little endian machine reads. Checksums are sums modulo 65535:
  the lemmas carry every addition with an end around carry to that arithmetic.
\<close>

section \<open>Headers\<close>

text \<open>The options of the header are words of their own.\<close>

record vr_ip =
  ip_version :: u8
  ip_hl :: u8
  ip_tos :: u8
  ip_len :: u16
  ip_id :: u16
  ip_frag_off :: u16
  ip_ttl :: u8
  ip_proto :: u8
  ip_csum :: u16
  ip_saddr :: u32
  ip_daddr :: u32
  ip_opts :: "u16 list"

definition byte_pair :: "u8 \<Rightarrow> u8 \<Rightarrow> u16" where
  "byte_pair lo hi = ucast lo OR push_bit 8 (ucast hi)"

definition ip_words :: "vr_ip \<Rightarrow> u16 list" where
  "ip_words ip =
     [byte_pair ((ip_hl ip AND 15) OR push_bit 4 (ip_version ip)) (ip_tos ip), ip_len ip, ip_id ip, ip_frag_off ip,
      byte_pair (ip_ttl ip) (ip_proto ip), ip_csum ip, ucast (ip_saddr ip), ucast (drop_bit 16 (ip_saddr ip)),
      ucast (ip_daddr ip), ucast (drop_bit 16 (ip_daddr ip))] @ ip_opts ip"

section \<open>The checksum code\<close>

definition vr_ip_csum :: "vr_ip \<Rightarrow> u16 \<times> vr_ip" where
  "vr_ip_csum ip =
     (let ip = ip\<lparr>ip_csum := 0\<rparr>;
          sum = fold (\<lambda>w s. s + ucast w) (take (2 * unat (ip_hl ip)) (ip_words ip)) (0 :: u32);
          sum = drop_bit 16 sum + (sum AND 0xFFFF);
          sum = sum + drop_bit 16 sum
      in (ucast (NOT sum), ip))"

definition vr_incremental_diff :: "u32 \<Rightarrow> u32 \<Rightarrow> u32 \<Rightarrow> u32" where
  "vr_incremental_diff oldval newval diff =
     (let tmp = NOT oldval + newval;
          tmp = (if tmp < newval then tmp + 1 else tmp);
          diff = diff + tmp
      in if diff < tmp then diff + 1 else diff)"

definition csum_apply :: "u16 \<Rightarrow> u32 \<Rightarrow> u16" where
  "csum_apply c diff =
     (let diff = drop_bit 16 diff + (diff AND 0xFFFF);
          diff = (if drop_bit 16 diff \<noteq> 0 then (diff AND 0xFFFF) + 1 else diff);
          csum = NOT (ucast c) AND 0xFFFF;
          csum = csum + diff;
          csum = drop_bit 16 csum + (csum AND 0xFFFF);
          csum = (if drop_bit 16 csum \<noteq> 0 then (csum AND 0xFFFF) + 1 else csum)
      in ucast (NOT csum AND 0xFFFF))"

definition vr_ip_incremental_csum :: "vr_ip \<Rightarrow> u32 \<Rightarrow> vr_ip" where
  "vr_ip_incremental_csum ip diff = ip\<lparr>ip_csum := csum_apply (ip_csum ip) diff\<rparr>"

definition vr_inet_get_tos :: "vr_ip \<Rightarrow> u8" where
  "vr_inet_get_tos iph = drop_bit 2 (ip_tos iph AND 0xFC)"

definition vr_inet_set_tos :: "vr_ip \<Rightarrow> u8 \<Rightarrow> vr_ip" where
  "vr_inet_set_tos iph tos =
     (if ip_tos iph = tos then iph
      else vr_ip_incremental_csum (iph\<lparr>ip_tos := tos\<rparr>)
             (vr_incremental_diff (push_bit 8 (ucast (ip_tos iph))) (push_bit 8 (ucast tos)) 0))"

text \<open>The subtraction is one of integers, so it gives -1 for a time to live of 0.\<close>

definition vr_ip_decrement_ttl :: "vr_ip \<Rightarrow> u8 \<times> vr_ip" where
  "vr_ip_decrement_ttl ip =
     (let diff = vr_incremental_diff (ucast (ip_ttl ip)) (ucast (ip_ttl ip) - 1) 0;
          ip = vr_ip_incremental_csum (ip\<lparr>ip_ttl := ip_ttl ip - 1\<rparr>) diff
      in (ip_ttl ip, ip))"

text \<open>
  \<open>vr_ip_update_csum\<close>: the header checksum by \<open>ip_inc\<close> and the checksum of the TCP or UDP header by
  \<open>inc\<close>. \<open>part\<close> is the flag for a partial checksum, whose actual value is stored rather than its
  complement.
\<close>

definition VR_IP_PROTO_TCP :: u8 where "VR_IP_PROTO_TCP = 6"
definition VR_IP_PROTO_UDP :: u8 where "VR_IP_PROTO_UDP = 17"
definition VR_IP_FRAG_OFFSET_MASK :: u16 where "VR_IP_FRAG_OFFSET_MASK = 0x1FFF"

definition ntohs :: "u16 \<Rightarrow> u16" where
  "ntohs x = push_bit 8 x OR drop_bit 8 x"

definition vr_ip_is_ip4 :: "vr_ip \<Rightarrow> bool" where
  "vr_ip_is_ip4 iph \<longleftrightarrow> ip_version iph AND 0xF = 4"

definition vr_ip_transport_header_valid :: "vr_ip \<Rightarrow> bool" where
  "vr_ip_transport_header_valid iph \<longleftrightarrow>
     (if \<not> vr_ip_is_ip4 iph then True else ntohs (ip_frag_off iph) AND VR_IP_FRAG_OFFSET_MASK = 0)"

definition l4_csum_apply :: "bool \<Rightarrow> u32 \<Rightarrow> u32 \<Rightarrow> u16 \<Rightarrow> u16" where
  "l4_csum_apply part ip_inc inc c =
     (let inc = (if part then ip_inc else inc);
          csum = (if part then ucast c AND 0xFFFF else NOT (ucast c) AND 0xFFFF);
          csum = csum + inc;
          csum = (if csum < inc then csum + 1 else csum);
          csum = (csum AND 0xFFFF) + drop_bit 16 csum;
          csum = (if drop_bit 16 csum \<noteq> 0 then (csum AND 0xFFFF) + 1 else csum)
      in if part then ucast (csum AND 0xFFFF) else ucast (NOT csum AND 0xFFFF))"

definition vr_ip_update_csum :: "bool \<Rightarrow> u32 \<Rightarrow> u32 \<Rightarrow> vr_ip \<times> u16 \<Rightarrow> vr_ip \<times> u16" where
  "vr_ip_update_csum part ip_inc inc = (\<lambda>(ip, csum).
     let ip = (if ip_inc \<noteq> 0 then vr_ip_incremental_csum ip ip_inc else ip)
     in if ip_proto ip = VR_IP_PROTO_TCP \<or> ip_proto ip = VR_IP_PROTO_UDP \<and> csum \<noteq> 0
        then (ip, if vr_ip_transport_header_valid ip then l4_csum_apply part ip_inc inc csum else csum)
        else (ip, csum))"

text \<open>
  \<open>vr_sum\<close> of \<^verbatim>\<open>dp-core/vr_proto_ip6.c\<close>: \<open>buf\<close> are the bytes from the pointer on that may be read. The length is
  rounded up to words, so that an odd length reads one byte more.
\<close>

function vr_sum_fold :: "u32 \<Rightarrow> u32" where
  "vr_sum_fold t = (if t AND 0xFFFF0000 = 0 then t else vr_sum_fold (drop_bit 16 t + (t AND 0xFFFF)))"
  by auto

definition vr_sum :: "u8 list \<Rightarrow> u32 \<Rightarrow> u16 exec" where
  "vr_sum buf len =
     (let num_words = unat ((len + 1) div 2)
      in if length buf < 2 * num_words then Fault
         else let total = fold (\<lambda>i t. t + ucast (byte_pair (buf ! (2 * i)) (buf ! (2 * i + 1)))) [0..<num_words] 0
              in Done (ucast (vr_sum_fold total)))"

section \<open>Sums modulo 65535\<close>

abbreviation wsum :: "u16 list \<Rightarrow> nat" where
  "wsum ws \<equiv> sum_list (map unat ws)"

text \<open>The sum of the words of a header with a right checksum is zero in one's complement.\<close>

definition csum_ok :: "vr_ip \<Rightarrow> bool" where
  "csum_ok ip \<longleftrightarrow> wsum (ip_words ip) mod 65535 = 0"

lemma unat_and_ffff: "unat ((x :: u32) AND 0xFFFF) = unat x mod 65536"
  using unat_and_mask_u32 [of x 16] by (simp add: mask_eq_exp_minus_1)

lemma unat_drop16: "unat (drop_bit 16 (x :: u32)) = unat x div 65536"
  by (simp add: unat_drop_bit_u32)

lemma unat_fold16: "unat (drop_bit 16 x + (x AND 0xFFFF) :: u32) = unat x div 65536 + unat x mod 65536"
proof -
  have "unat x div 65536 < 65536" by (simp add: less_mult_imp_div_less)
  then show ?thesis by (simp add: unat_word_ariths unat_drop16 unat_and_ffff)
qed

lemma high_bits_zero: "(x :: u32) AND 0xFFFF0000 = 0 \<longleftrightarrow> unat x < 65536"
proof -
  have m: "(0xFFFF0000 :: u32) = push_bit 16 (mask 16)" by (simp add: mask_eq_exp_minus_1 push_bit_eq_mult)
  have "x AND 0xFFFF0000 = 0 \<longleftrightarrow> x AND mask 16 = x"
    unfolding m by (auto simp: bit_eq_iff bit_and_iff bit_push_bit_iff bit_mask_iff dest: bit_imp_le_length)
  also have "\<dots> \<longleftrightarrow> unat (x AND mask 16) = unat x" by (simp add: word_unat_eq_iff)
  also have "\<dots> \<longleftrightarrow> unat x < 65536" unfolding unat_and_mask_u32 by (simp add: mod_eq_self_iff_div_eq_0 div_eq_0_iff)
  finally show ?thesis .
qed

termination vr_sum_fold
proof (relation "measure unat", goal_cases)
  case (2 t)
  then have "65536 \<le> unat t" by (simp add: high_bits_zero)
  moreover have "unat t = 65536 * (unat t div 65536) + unat t mod 65536" by simp
  ultimately have "unat t div 65536 + unat t mod 65536 < unat t" by linarith
  then show ?case by (simp add: unat_fold16)
qed simp

declare vr_sum_fold.simps [simp del]

text \<open>Folding a sum twice leaves 16 bits and keeps it modulo 65535.\<close>

lemma fold16_twice:
  fixes x :: u32
  defines "y \<equiv> drop_bit 16 x + (x AND 0xFFFF)"
  defines "z \<equiv> (if drop_bit 16 y \<noteq> 0 then (y AND 0xFFFF) + 1 else y)"
  shows "unat z < 65536" "unat z mod 65535 = unat x mod 65535"
proof -
  have y: "unat y = unat x div 65536 + unat x mod 65536" by (simp add: y_def unat_fold16)
  have q: "unat x div 65536 < 65536" by (simp add: less_mult_imp_div_less)
  have "(drop_bit 16 y \<noteq> 0) = (unat y \<ge> 65536)"
    using unat_drop16 [of y] by (auto simp: unat_eq_zero [symmetric] simp del: unat_eq_zero)
  moreover have "unat ((y AND 0xFFFF) + 1) = unat y mod 65536 + 1" if "unat y \<ge> 65536"
    using y q that by (simp add: unat_word_ariths unat_and_ffff)
  ultimately have z: "unat z = (if unat y \<ge> 65536 then unat y mod 65536 + 1 else unat y)" by (simp add: z_def)
  have "unat x mod 65536 < 65536" by simp
  then have yb: "unat y \<le> 131070" using y q by linarith
  then have ym: "unat y mod 65536 = unat y - 65536" if "unat y \<ge> 65536" using that by (simp add: le_mod_geq)
  have x: "unat x = 65536 * (unat x div 65536) + unat x mod 65536" by simp
  show "unat z < 65536" using z yb ym by auto
  have "\<exists>k. unat z + 65535 * k = unat x"
    using z y x ym by (intro exI [of _ "unat x div 65536 + of_bool (unat y \<ge> 65536)"]) auto
  then show "unat z mod 65535 = unat x mod 65535" by (metis mod_mult_self2)
qed

text \<open>An addition on 32 bits with the carry added in again.\<close>

lemma eac_u32:
  fixes a b :: u32
  shows "\<exists>k. unat (if a + b < b then a + b + 1 else a + b) + 65535 * k = unat a + unat b"
proof (cases "unat a + unat b < 4294967296")
  case True
  then have u: "unat (a + b) = unat a + unat b" by (simp add: unat_add_u32)
  then have "\<not> a + b < b" by (simp add: word_less_nat_alt)
  then show ?thesis using u by (intro exI [of _ 0]) simp
next
  case False
  have a: "unat a < 4294967296" "unat b < 4294967296" by (rule unat_u32_less)+
  then have "unat a + unat b - 4294967296 < 4294967296" by linarith
  then have u: "unat (a + b) = unat a + unat b - 4294967296"
    using False by (simp add: unat_word_ariths le_mod_geq)
  then have lt: "a + b < b" using a False unfolding word_less_nat_alt by linarith
  have "unat (a + b) < 4294967295" using u a False by linarith
  then have "unat (a + b + 1) = unat (a + b) + 1" using unat_add_u32 [of "a + b" 1] by simp
  then show ?thesis using u lt False by (intro exI [of _ 65537]) simp
qed

lemma unat_not_u32: "unat (NOT x :: u32) + unat x = 4294967295"
proof -
  have "NOT x = - 1 - x" by (simp add: not_eq_complement)
  moreover have "unat (- 1 - x) = unat (- 1 :: u32) - unat x"
    by (rule unat_sub) (simp add: word_le_nat_alt unsigned_minus_1_eq_mask mask_eq_exp_minus_1 less_Suc_eq_le [symmetric])
  ultimately have "unat (NOT x) = 4294967295 - unat x" by (simp add: unsigned_minus_1_eq_mask mask_eq_exp_minus_1)
  then show ?thesis using unat_u32_less [of x] by linarith
qed

lemma unat_not_u16: "unat (NOT x :: u16) + unat x = 65535"
proof -
  have l: "unat x < 65536" using unsigned_less [of x] by simp
  have "NOT x = - 1 - x" by (simp add: not_eq_complement)
  moreover have "unat (- 1 - x) = unat (- 1 :: u16) - unat x"
    by (rule unat_sub) (use l in \<open>simp add: word_le_nat_alt unsigned_minus_1_eq_mask mask_eq_exp_minus_1\<close>)
  ultimately show ?thesis using l by (simp add: unsigned_minus_1_eq_mask mask_eq_exp_minus_1)
qed

text \<open>Equal modulo 65535.\<close>

definition cg :: "nat \<Rightarrow> nat \<Rightarrow> bool" where
  "cg x y \<longleftrightarrow> (\<exists>k. int x = int y + 65535 * k)"

lemma cgI: "x mod 65535 = y mod 65535 \<Longrightarrow> cg x y"
proof -
  assume "x mod 65535 = y mod 65535"
  then have "int (x mod 65535) = int (y mod 65535)" by simp
  then have "int x mod 65535 = int y mod 65535" by (simp add: zmod_int)
  then have "65535 dvd int x - int y" by (simp add: mod_eq_dvd_iff)
  then obtain k where "int x - int y = 65535 * k" by blast
  then show "cg x y" unfolding cg_def by (intro exI [of _ k]) simp
qed

lemma cgD: "cg x y \<Longrightarrow> x mod 65535 = y mod 65535"
proof -
  assume "cg x y"
  then obtain k where "int x = int y + 65535 * k" by (auto simp: cg_def)
  then have "int x mod 65535 = int y mod 65535" by simp
  then have "int (x mod 65535) = int (y mod 65535)" by (simp add: zmod_int)
  then show ?thesis by simp
qed

lemma cg_eac: "cg (unat (if (a :: u32) + b < b then a + b + 1 else a + b)) (unat a + unat b)"
proof -
  obtain k where "unat (if a + b < b then a + b + 1 else a + b) + 65535 * k = unat a + unat b" using eac_u32 [of a b] by blast
  then have "int (unat (if a + b < b then a + b + 1 else a + b)) = int (unat a + unat b) + 65535 * (- int k)" by linarith
  then show ?thesis unfolding cg_def by blast
qed

text \<open>The difference that is carried to the checksum.\<close>

lemma vr_incremental_diff_cg: "cg (unat (vr_incremental_diff a b d) + unat a) (unat d + unat b)"
proof -
  let ?t = "if NOT a + b < b then NOT a + b + 1 else NOT a + b"
  obtain k1 where k1: "int (unat ?t) = int (unat (NOT a) + unat b) + 65535 * k1" using cg_eac [of "NOT a" b] unfolding cg_def by blast
  have v: "vr_incremental_diff a b d = (if d + ?t < ?t then d + ?t + 1 else d + ?t)" by (simp add: vr_incremental_diff_def Let_def)
  obtain k2 where k2: "int (unat (vr_incremental_diff a b d)) = int (unat d + unat ?t) + 65535 * k2"
    using cg_eac [of d ?t] unfolding cg_def v by blast
  have "int (unat (NOT a)) + int (unat a) = 65535 * 65537" using unat_not_u32 [of a] by linarith
  then show ?thesis unfolding cg_def using k1 k2 by (intro exI [of _ "k1 + k2 + 65537"]) simp
qed

lemma csum_apply_cg: "cg (unat (csum_apply c diff) + unat diff) (unat c)"
proof -
  define d1 :: u32 where "d1 = drop_bit 16 diff + (diff AND 0xFFFF)"
  define d2 where "d2 = (if drop_bit 16 d1 \<noteq> 0 then (d1 AND 0xFFFF) + 1 else d1)"
  define c0 :: u32 where "c0 = NOT (ucast c) AND 0xFFFF"
  define c1 where "c1 = drop_bit 16 (c0 + d2) + (c0 + d2 AND 0xFFFF)"
  define c2 where "c2 = (if drop_bit 16 c1 \<noteq> 0 then (c1 AND 0xFFFF) + 1 else c1)"
  have r: "csum_apply c diff = ucast (NOT c2 AND 0xFFFF)"
    unfolding csum_apply_def Let_def d1_def [symmetric] d2_def [symmetric] c0_def [symmetric] c1_def [symmetric] c2_def [symmetric] ..
  have d: "unat d2 < 65536" "unat d2 mod 65535 = unat diff mod 65535"
    using fold16_twice [of diff] unfolding d1_def [symmetric] d2_def [symmetric] by blast+
  have cl: "unat c < 65536" using unsigned_less [of c] by simp
  have "unat (NOT (ucast c :: u32)) = 65535 - unat c + 65535 * 65536"
    using unat_not_u32 [of "ucast c"] cl unfolding unat_ucast_u16_u32 by linarith
  then have c0: "unat c0 = 65535 - unat c" unfolding c0_def unat_and_ffff by (simp only: mod_mult_self1) simp
  have s: "unat (c0 + d2) = 65535 - unat c + unat d2" using c0 d(1) by (simp add: unat_word_ariths)
  have c: "unat c2 < 65536" "unat c2 mod 65535 = unat (c0 + d2) mod 65535"
    using fold16_twice [of "c0 + d2"] unfolding c1_def [symmetric] c2_def [symmetric] by blast+
  have "unat (NOT c2) = 65535 - unat c2 + 65535 * 65536" using unat_not_u32 [of c2] c(1) by linarith
  then have "unat (NOT c2 AND 0xFFFF) = 65535 - unat c2" unfolding unat_and_ffff by (simp only: mod_mult_self1) simp
  then have res: "unat (csum_apply c diff) = 65535 - unat c2" unfolding r by (simp add: unsigned_ucast_eq take_bit_nat_eq_self)
  obtain k1 where "int (unat d2) = int (unat diff) + 65535 * k1" using cgI [OF d(2)] unfolding cg_def by blast
  moreover obtain k2 where "int (unat c2) = int (unat (c0 + d2)) + 65535 * k2" using cgI [OF c(2)] unfolding cg_def by blast
  ultimately show ?thesis unfolding cg_def using res s c(1) cl by (intro exI [of _ "- k1 - k2"]) simp
qed

lemma cg_trans: "cg x y \<Longrightarrow> cg y z \<Longrightarrow> cg x z"
  using cgD [of x y] cgD [of y z] by (intro cgI) simp

lemma unat_byte_pair: "unat (byte_pair lo hi) = unat lo + 256 * unat hi"
proof -
  have l: "unat lo < 256" "unat hi < 256" using unsigned_less [of lo] unsigned_less [of hi] by simp_all
  have "byte_pair lo hi = ucast lo + push_bit 8 (ucast hi)"
    unfolding byte_pair_def
    by (rule disjunctive_add [symmetric]) (auto simp: bit_push_bit_iff bit_ucast_iff dest: bit_imp_le_length)
  moreover have "unat (ucast lo :: u16) = unat lo" "unat (ucast hi :: u16) = unat hi"
    using l by (simp_all add: unsigned_ucast_eq take_bit_nat_eq_self)
  moreover have "unat (push_bit 8 (ucast hi :: u16)) = 256 * unat hi"
    using l calculation(3) by (simp add: push_bit_eq_mult unat_word_ariths)
  ultimately show ?thesis using l by (simp add: unat_word_ariths)
qed

lemma unat_push8: "unat (push_bit 8 (ucast (x :: u8)) :: u32) = 256 * unat x"
proof -
  have l: "unat x < 256" using unsigned_less [of x] by simp
  then have "unat (ucast x :: u32) = unat x" by (simp add: unsigned_ucast_eq take_bit_nat_eq_self)
  then show ?thesis using l by (simp add: push_bit_eq_mult unat_word_ariths)
qed

lemma cg_combine:
  assumes "w1 + a = w + b" "w' + c = w1 + c'" "cg (d + a) b" "cg (c' + d) c"
  shows "cg w' w"
proof -
  obtain k1 k2 where "int d + int a = int b + 65535 * k1" "int c' + int d = int c + 65535 * k2"
    using assms(3,4) unfolding cg_def of_nat_add by blast
  moreover have "int w1 + int a = int w + int b" "int w' + int c = int w1 + int c'"
    using assms(1,2) by (simp_all flip: of_nat_add)
  ultimately have "int w' = int w + 65535 * k2 - 65535 * k1" by linarith
  then have "int w' = int w + 65535 * (k2 - k1)" by simp
  then show ?thesis unfolding cg_def by blast
qed

lemma csum_update:
  assumes ok: "csum_ok ip" and w: "wsum (ip_words ip1) + unat a = wsum (ip_words ip) + unat b" and c: "ip_csum ip1 = ip_csum ip"
  shows "csum_ok (vr_ip_incremental_csum ip1 (vr_incremental_diff a b 0))"
proof -
  let ?d = "vr_incremental_diff a b 0" and ?c = "csum_apply (ip_csum ip) (vr_incremental_diff a b 0)"
  have w1: "wsum (ip_words (vr_ip_incremental_csum ip1 ?d)) + unat (ip_csum ip) = wsum (ip_words ip1) + unat ?c"
    by (simp add: vr_ip_incremental_csum_def ip_words_def c)
  have "cg (wsum (ip_words (vr_ip_incremental_csum ip1 ?d))) (wsum (ip_words ip))"
    by (rule cg_combine [OF w w1 _ csum_apply_cg]) (use vr_incremental_diff_cg [of a b 0] in simp)
  then show ?thesis using cgD ok unfolding csum_ok_def by metis
qed

lemma cg_complement:
  assumes "cg x (65535 - c + i)" "x < 65536" "c < 65536"
  shows "cg (65535 - x + i) c"
proof -
  obtain k where "int x = int (65535 - c + i) + 65535 * k" using assms(1) unfolding cg_def by blast
  then have "int (65535 - x + i) = int c + 65535 * (- k)" using assms(2,3) by linarith
  then show ?thesis unfolding cg_def by blast
qed

lemma l4_csum_apply_cg:
  "if part then cg (unat (l4_csum_apply part ip_inc inc c)) (unat c + unat ip_inc)
   else cg (unat (l4_csum_apply part ip_inc inc c) + unat inc) (unat c)"
proof -
  define i where "i = (if part then ip_inc else inc)"
  define c0 :: u32 where "c0 = (if part then ucast c AND 0xFFFF else NOT (ucast c) AND 0xFFFF)"
  define c1 where "c1 = (if c0 + i < i then c0 + i + 1 else c0 + i)"
  define c2 where "c2 = (c1 AND 0xFFFF) + drop_bit 16 c1"
  define c3 where "c3 = (if drop_bit 16 c2 \<noteq> 0 then (c2 AND 0xFFFF) + 1 else c2)"
  have r: "l4_csum_apply part ip_inc inc c = (if part then ucast (c3 AND 0xFFFF) else ucast (NOT c3 AND 0xFFFF))"
    unfolding l4_csum_apply_def Let_def i_def [symmetric] c0_def [symmetric] c1_def [symmetric] c2_def [symmetric] c3_def [symmetric] ..
  have c2: "c2 = drop_bit 16 c1 + (c1 AND 0xFFFF)" by (simp add: c2_def)
  have c3: "unat c3 < 65536" "unat c3 mod 65535 = unat c1 mod 65535"
    using fold16_twice [of c1] unfolding c2 [symmetric] c3_def [symmetric] by blast+
  have cl: "unat c < 65536" using unsigned_less [of c] by simp
  have "unat (NOT (ucast c :: u32)) = 65535 - unat c + 65535 * 65536"
    using unat_not_u32 [of "ucast c"] cl unfolding unat_ucast_u16_u32 by linarith
  then have "unat (NOT (ucast c :: u32) AND 0xFFFF) = 65535 - unat c" unfolding unat_and_ffff by (simp only: mod_mult_self1) simp
  then have c0: "unat c0 = (if part then unat c else 65535 - unat c)" using cl by (simp add: c0_def unat_and_ffff)
  have "unat (NOT c3) = 65535 - unat c3 + 65535 * 65536" using unat_not_u32 [of c3] c3(1) by linarith
  then have "unat (NOT c3 AND 0xFFFF) = 65535 - unat c3" unfolding unat_and_ffff by (simp only: mod_mult_self1) simp
  then have res: "unat (l4_csum_apply part ip_inc inc c) = (if part then unat c3 else 65535 - unat c3)"
    unfolding r using c3(1) by (simp add: unsigned_ucast_eq take_bit_nat_eq_self unat_and_ffff)
  have "cg (unat c3) (unat c0 + unat i)" using cg_trans [OF cgI [OF c3(2)] cg_eac [of c0 i, folded c1_def]] .
  then show ?thesis
    using cg_complement [of "unat c3" "unat c" "unat inc", OF _ c3(1) cl] unfolding res c0 i_def by (cases part) simp_all
qed

lemma wsum_le: "wsum ws \<le> 65535 * length ws"
proof (induction ws)
  case (Cons w ws)
  have "unat w < 65536" using unsigned_less [of w] by simp
  then show ?case using Cons by simp
qed simp

lemma vr_sum_fold_mod: "unat (vr_sum_fold t) < 65536 \<and> unat (vr_sum_fold t) mod 65535 = unat t mod 65535"
proof (induction t rule: vr_sum_fold.induct)
  case (1 t)
  show ?case
  proof (cases "t AND 0xFFFF0000 = 0")
    case True
    then show ?thesis using high_bits_zero [of t] by (simp add: vr_sum_fold.simps)
  next
    case False
    have "unat t = 65535 * (unat t div 65536) + (unat t div 65536 + unat t mod 65536)" by simp
    then have "unat t mod 65535 = (unat t div 65536 + unat t mod 65536) mod 65535" by (metis mod_mult_self4)
    then show ?thesis using 1 [OF False] False by (simp add: vr_sum_fold.simps [of t] unat_fold16)
  qed
qed

lemma fold_sum:
  assumes "s + wsum ws < 2 ^ 32" "unat t = s"
  shows "unat (fold (\<lambda>w t. t + ucast w) ws (t :: u32)) = s + wsum ws"
  using assms
proof (induction ws arbitrary: s t)
  case (Cons w ws)
  have "unat (t + ucast w) = s + unat w" using Cons.prems by (simp add: unat_word_ariths)
  then show ?case using Cons.IH [of "s + unat w" "t + ucast w"] Cons.prems by (simp add: add.assoc)
qed simp

text \<open>The two folds and the complement of \<open>vr_ip_csum\<close>.\<close>

lemma fold_complement:
  fixes h l n :: nat
  assumes "h < 65536" "l < 65536" "n + (h + l + (h + l) div 65536) = 4294967295"
  shows "(n mod 65536 + (65536 * h + l)) mod 65535 = 0"
proof (cases "h + l < 65536")
  case True
  then have n: "n = 65535 - (h + l) + 65536 * 65535" using assms(3) by simp
  have "n mod 65536 = 65535 - (h + l)" unfolding n by (simp only: mod_mult_self2) simp
  then have "n mod 65536 + (65536 * h + l) = 65535 * (h + 1)" using True by simp
  then show ?thesis by (simp only: mod_mult_self1_is_0)
next
  case False
  then have "(h + l) div 65536 = 1" using assms(1,2) by simp
  then have n: "n = 131070 - (h + l) + 65536 * 65534" using assms by simp
  have "n mod 65536 = 131070 - (h + l)" unfolding n using False by (simp only: mod_mult_self2) simp
  then have "n mod 65536 + (65536 * h + l) = 65535 * (h + 2)" using assms(1,2) by simp
  then show ?thesis by (simp only: mod_mult_self1_is_0)
qed

section \<open>Properties\<close>

definition ex_ip :: vr_ip where
  "ex_ip = \<lparr>ip_version = 4, ip_hl = 5, ip_tos = 0, ip_len = 0x5400, ip_id = 1, ip_frag_off = 0, ip_ttl = 64, ip_proto = 6,
     ip_csum = 0xA265, ip_saddr = 0x0100000A, ip_daddr = 0x0200000A, ip_opts = []\<rparr>"

lemma ex_ip_ok: "csum_ok ex_ip"
  by (simp add: csum_ok_def ip_words_def ex_ip_def unat_byte_pair)

text \<open>C36: The checksum that is computed for a header makes it right: with it the words of the header
  sum up to zero in one's complement.\<close>

theorem vr_ip_csum_correct:
  assumes "5 \<le> unat (ip_hl ip)" "unat (ip_hl ip) \<le> 15" "length (ip_opts ip) = 2 * unat (ip_hl ip) - 10"
    "vr_ip_csum ip = (c, ip')"
  shows "csum_ok (ip'\<lparr>ip_csum := c\<rparr>)"
proof -
  let ?ws = "ip_words (ip\<lparr>ip_csum := 0\<rparr>)"
  define S :: u32 where "S = fold (\<lambda>w s. s + ucast w) ?ws 0"
  have len: "length ?ws = 2 * unat (ip_hl ip)" using assms(1,3) by (simp add: ip_words_def)
  have b: "wsum ?ws \<le> 65535 * 30" using wsum_le [of ?ws] len assms(2) by simp
  have S: "unat S = wsum ?ws" unfolding S_def using fold_sum [of 0 ?ws 0] b by simp
  define T where "T = drop_bit 16 S + (S AND 0xFFFF)"
  have T: "unat T = wsum ?ws div 65536 + wsum ?ws mod 65536" unfolding T_def unat_fold16 S ..
  have q: "wsum ?ws div 65536 \<le> 29" using b by (simp add: div_le_mono [of _ "65535 * 30" 65536, simplified])
  have T2: "unat (T + drop_bit 16 T) = unat T + unat T div 65536"
    using T q by (simp add: unat_word_ariths unat_drop16)
  have c: "c = ucast (NOT (T + drop_bit 16 T))" "ip' = ip\<lparr>ip_csum := 0\<rparr>"
    using assms(4) len by (auto simp: vr_ip_csum_def Let_def S_def T_def)
  have "unat (NOT (T + drop_bit 16 T)) + unat (T + drop_bit 16 T) = 4294967295" by (rule unat_not_u32)
  moreover have "unat c = unat (NOT (T + drop_bit 16 T)) mod 65536" unfolding c(1) by (simp add: unsigned_ucast_eq take_bit_eq_mod)
  ultimately have "(unat c + wsum ?ws) mod 65535 = 0"
    using fold_complement [of "wsum ?ws div 65536" "wsum ?ws mod 65536" "unat (NOT (T + drop_bit 16 T))"] T2 T q by simp
  then show ?thesis unfolding csum_ok_def c(2) by (simp add: ip_words_def add.assoc add.commute add.left_commute)
qed

theorem vr_ip_csum_correct_witness: "csum_ok ((snd (vr_ip_csum ex_ip))\<lparr>ip_csum := fst (vr_ip_csum ex_ip)\<rparr>)"
  using vr_ip_csum_correct [of ex_ip "fst (vr_ip_csum ex_ip)" "snd (vr_ip_csum ex_ip)"] by (simp add: ex_ip_def)

text \<open>C37: Changing the type of service of a header with a right checksum leaves it with a right
  checksum.\<close>

theorem vr_inet_set_tos_csum:
  assumes "csum_ok ip"
  shows "csum_ok (vr_inet_set_tos ip tos) \<and> ip_tos (vr_inet_set_tos ip tos) = tos"
proof (cases "ip_tos ip = tos")
  case True
  then show ?thesis using assms by (simp add: vr_inet_set_tos_def)
next
  case False
  have "csum_ok (vr_inet_set_tos ip tos)"
    unfolding vr_inet_set_tos_def if_not_P [OF False]
    by (rule csum_update [OF assms]) (simp_all add: ip_words_def unat_byte_pair unat_push8)
  then show ?thesis using False by (simp add: vr_inet_set_tos_def vr_ip_incremental_csum_def)
qed

theorem vr_inet_set_tos_csum_witness: "csum_ok ex_ip \<and> csum_ok (vr_inet_set_tos ex_ip 8)"
  using vr_inet_set_tos_csum [OF ex_ip_ok, of 8] ex_ip_ok by simp

text \<open>C38: Decrementing the time to live of a header with a right checksum leaves it with a right
  checksum, if the time to live was not zero.\<close>

theorem vr_ip_decrement_ttl_csum:
  assumes "csum_ok ip" "ip_ttl ip \<noteq> 0" "vr_ip_decrement_ttl ip = (t, ip')"
  shows "csum_ok ip' \<and> t = ip_ttl ip - 1 \<and> ip_ttl ip' = ip_ttl ip - 1"
proof -
  let ?d = "vr_incremental_diff (ucast (ip_ttl ip)) (ucast (ip_ttl ip) - 1) 0"
  have r: "ip' = vr_ip_incremental_csum (ip\<lparr>ip_ttl := ip_ttl ip - 1\<rparr>) ?d" "t = ip_ttl ip - 1"
    using assms(3) by (auto simp: vr_ip_decrement_ttl_def Let_def vr_ip_incremental_csum_def)
  have l: "unat (ip_ttl ip) < 256" using unsigned_less [of "ip_ttl ip"] by simp
  have u: "unat (ucast (ip_ttl ip) :: u32) = unat (ip_ttl ip)" using l by (simp add: unsigned_ucast_eq take_bit_nat_eq_self)
  have p: "unat (ip_ttl ip) \<noteq> 0" using assms(2) by (simp add: unat_eq_zero)
  then have "unat (ip_ttl ip - 1) = unat (ip_ttl ip) - 1" "unat (ucast (ip_ttl ip) - 1 :: u32) = unat (ip_ttl ip) - 1"
    using assms(2) u by (simp_all add: unat_minus_one unat_eq_zero [symmetric] del: unat_eq_zero)
  then have "csum_ok ip'" unfolding r(1) using u p
    by (intro csum_update [OF assms(1)]) (simp_all add: ip_words_def unat_byte_pair)
  then show ?thesis using r by (simp add: vr_ip_incremental_csum_def)
qed

theorem vr_ip_decrement_ttl_csum_witness: "csum_ok (snd (vr_ip_decrement_ttl ex_ip)) \<and> fst (vr_ip_decrement_ttl ex_ip) = 63"
  using vr_ip_decrement_ttl_csum [OF ex_ip_ok, of "fst (vr_ip_decrement_ttl ex_ip)" "snd (vr_ip_decrement_ttl ex_ip)"]
  by (simp add: ex_ip_def)

text \<open>C39: When a word that a TCP checksum covers changes from \<open>a\<close> to \<open>b\<close>, and the words the checksum
  covers summed up to zero with it before, they do so with the updated checksum.\<close>

theorem vr_ip_update_csum_tcp:
  assumes "ip_proto ip = VR_IP_PROTO_TCP" "vr_ip_transport_header_valid ip" "(T + unat c) mod 65535 = 0" "T' + unat a = T + unat b"
    "vr_ip_update_csum False ip_inc (vr_incremental_diff a b 0) (ip, c) = (ip', c')"
  shows "(T' + unat c') mod 65535 = 0"
proof -
  let ?d = "vr_incremental_diff a b 0"
  have "c' = l4_csum_apply False ip_inc ?d c"
    using assms(1,2,5)
    by (auto simp: vr_ip_update_csum_def Let_def vr_ip_incremental_csum_def vr_ip_transport_header_valid_def vr_ip_is_ip4_def split: if_splits)
  then have c: "cg (unat c' + unat ?d) (unat c)" using l4_csum_apply_cg [of False ip_inc ?d c] by simp
  have d: "cg (unat ?d + unat a) (unat b)" using vr_incremental_diff_cg [of a b 0] by simp
  have w: "T' + unat c + unat a = T + unat c + unat b" "T' + unat c' + unat c = T' + unat c + unat c'" using assms(4) by simp_all
  have "cg (T' + unat c') (T + unat c)" by (rule cg_combine [OF w d c])
  then show ?thesis using cgD assms(3) by metis
qed

theorem vr_ip_update_csum_tcp_witness:
  "(300 + unat (snd (vr_ip_update_csum False 0 (vr_incremental_diff 100 200 0) (ex_ip, 65335)))) mod 65535 = 0"
  using vr_ip_update_csum_tcp [of ex_ip 200 65335 300 100 200 0 "fst (vr_ip_update_csum False 0 (vr_incremental_diff 100 200 0) (ex_ip, 65335))"
      "snd (vr_ip_update_csum False 0 (vr_incremental_diff 100 200 0) (ex_ip, 65335))"]
  by (simp add: ex_ip_def VR_IP_PROTO_TCP_def vr_ip_transport_header_valid_def ntohs_def)

text \<open>C40: The sum over a buffer reads as many 16 bit words as its length rounded up takes, and goes wrong if
  the buffer has not that many; else its folding loop ends with 16 bits that are equal to the sum of
  these words modulo 65535, for up to 65536 words.\<close>

theorem vr_sum_correct:
  assumes "n = unat ((len + 1) div 2)" "n \<le> 65536"
  shows "if length buf < 2 * n then vr_sum buf len = Fault
    else \<exists>s. vr_sum buf len = Done s \<and>
      unat s mod 65535 = wsum (map (\<lambda>i. byte_pair (buf ! (2 * i)) (buf ! (2 * i + 1))) [0..<n]) mod 65535"
proof -
  let ?ws = "map (\<lambda>i. byte_pair (buf ! (2 * i)) (buf ! (2 * i + 1))) [0..<n]"
  have "wsum ?ws < 2 ^ 32" using wsum_le [of ?ws] assms(2) by (simp del: map_map)
  then have S: "unat (fold (\<lambda>w t. t + ucast w) ?ws (0 :: u32)) = wsum ?ws" using fold_sum [of 0 ?ws 0] by simp
  have e: "fold (\<lambda>w t. t + ucast w) ?ws (0 :: u32) =
      fold (\<lambda>i t. t + ucast (byte_pair (buf ! (2 * i)) (buf ! (2 * i + 1)))) [0..<n] 0"
    unfolding fold_map by (rule fold_cong) (simp_all add: fun_eq_iff)
  show ?thesis
    using vr_sum_fold_mod [of "fold (\<lambda>w t. t + ucast w) ?ws 0"] S unfolding e
    by (simp add: vr_sum_def assms(1) [symmetric] Let_def unsigned_ucast_eq take_bit_nat_eq_self)
qed

theorem vr_sum_correct_witness:
  "\<exists>s. vr_sum [0xFF, 0xFF, 0x02, 0x00, 0x01, 0x80] 5 = Done s \<and> unat s mod 65535 = 98306 mod 65535"
proof -
  have n: "3 = unat ((5 + 1 :: u32) div 2)" by simp
  show ?thesis using vr_sum_correct [OF n, of "[0xFF, 0xFF, 0x02, 0x00, 0x01, 0x80]"]
    by (simp add: byte_pair_def upt_rec)
qed

end
