(* ===== verification/VR_Nh_Maps.thy ===== *)
theory VR_Nh_Maps
  imports VR_Nh_Refs
begin

text \<open>
  The references of a table of nexthops that is a map from keys to pointers, as the label and the
  VXLAN table are: a key that maps to a nexthop holds one reference to it.
\<close>

context ref_store
begin

definition held :: "('k \<Rightarrow> nat) \<Rightarrow> nat \<Rightarrow> nat" where
  "held m q = (if q = 0 then 0 else card {k. m k = q})"

lemma held_empty [simp]: "held (\<lambda>_. 0) q = 0"
  by (simp add: held_def)

lemma held_upd:
  assumes "finite {k. m k \<noteq> 0}"
  shows "held (m(k := p)) q + slot (m k) q = held m q + slot p q"
proof (cases "q = 0")
  case False
  define S where "S = {j. j \<noteq> k \<and> m j = q}"
  have f: "finite S" "k \<notin> S" by (rule finite_subset [OF _ assms]) (use False in \<open>auto simp: S_def\<close>)
  have e: "{j. (m(k := p)) j = q} = (if p = q then insert k S else S)" "{j. m j = q} = (if m k = q then insert k S else S)"
    by (auto simp: S_def)
  have "card {j. (m(k := p)) j = q} = card S + of_bool (p = q)" "card {j. m j = q} = card S + of_bool (m k = q)"
    unfolding e using f by simp_all
  then show ?thesis using False by (auto simp: held_def slot_def)
qed (auto simp: held_def slot_def)

lemma held_split: "finite {k. m k \<noteq> 0} \<Longrightarrow> held m q = held (m(k := 0)) q + slot (m k) q"
  using held_upd [of m k 0 q] by (simp add: slot_def)

text \<open>Giving up what a key holds, and storing a new reference for it.\<close>

lemma clear_held:
  assumes f: "finite {k. m k \<noteq> 0}" and g: "good s (\<lambda>q. ext q + held m q) n"
  shows "good (if m k = 0 then s else put (m k) s) (\<lambda>q. ext q + held (m(k := 0)) q) n"
  by (rule put_slot) (use g held_split [OF f, of _ k] in \<open>simp add: add.assoc\<close>)

lemma store_held:
  assumes f: "finite {k. m k \<noteq> 0}" and z: "m k = 0" and g: "good s (\<lambda>q. ext q + held m q) (Suc n)" and i: "get i s = (p, s')"
  shows "good s' (\<lambda>q. ext q + held (m(k := p)) q) n"
proof -
  have "held (m(k := p)) q = held m q + slot p q" for q using held_upd [OF f, of k p q] z by (simp add: slot_def)
  then show ?thesis using get_slot(1) [OF g i] by (simp add: add.assoc)
qed

lemma swap_held:
  assumes f: "finite {k. m k \<noteq> 0}" and g: "good s (\<lambda>q. ext q + held m q) (Suc n)" and i: "get i s = (p, s1)"
  shows "good (if m k = 0 then s1 else put (m k) s1) (\<lambda>q. ext q + held (m(k := p)) q) n"
proof -
  have "good s1 (\<lambda>q. (ext q + held m q) + slot p q) n" by (rule get_slot(1) [OF g i])
  moreover have "(ext q + held m q) + slot p q = (ext q + held (m(k := p)) q) + slot (m k) q" for q
    using held_upd [OF f, of k p q] by simp
  ultimately show ?thesis by (intro put_slot) simp
qed

end

end
