(* ===== verification/VR_Packet.thy ===== *)
theory VR_Packet
  imports VR_Prelude
begin

text \<open>
  The packet descriptor and the forwarding metadata of \<^verbatim>\<open>include/vr_packet.h\<close>: the buffer offsets
  that \<open>pkt_pull\<close>, \<open>pkt_push\<close> and their relatives move, the flags and the packed mirror data of
  the metadata, and the accounting of dropped packets. A pointer into the buffer is its offset from
  \<open>vp_head\<close>.
\<close>

section \<open>Forwarding metadata\<close>

definition FMD_FLAG_LABEL_IS_VXLAN_ID :: u8 where "FMD_FLAG_LABEL_IS_VXLAN_ID = 0x01"
definition FMD_FLAG_ETREE_ENABLE :: u8 where "FMD_FLAG_ETREE_ENABLE = 0x04"
definition FMD_FLAG_ETREE_ROOT :: u8 where "FMD_FLAG_ETREE_ROOT = 0x08"
definition FMD_FLAG_L2_CONTROL_DATA :: u8 where "FMD_FLAG_L2_CONTROL_DATA = 0x10"
definition FMD_MIRROR_INVALID_DATA :: u16 where "FMD_MIRROR_INVALID_DATA = 0xFFFF"
definition FMD_PKT_LOOP_TTL :: u8 where "FMD_PKT_LOOP_TTL = 4"
definition VLAN_ID_INVALID :: u16 where "VLAN_ID_INVALID = 0xFFFF"

datatype label_type = VR_LABEL_TYPE_UNKNOWN | VR_LABEL_TYPE_MPLS | VR_LABEL_TYPE_VXLAN_ID

text \<open>\<open>mirror_type_t\<close> is used as a number of two bits.\<close>

definition MIRROR_TYPE_UNKNOWN :: u16 where "MIRROR_TYPE_UNKNOWN = 0"
definition MIRROR_TYPE_PORT_RX :: u16 where "MIRROR_TYPE_PORT_RX = 1"
definition MIRROR_TYPE_PORT_TX :: u16 where "MIRROR_TYPE_PORT_TX = 2"
definition MIRROR_TYPE_ACL :: u16 where "MIRROR_TYPE_ACL = 3"

record vr_forwarding_md =
  fmd_fe :: "nat option"
  fmd_flow_index :: u32
  fmd_label :: u32
  fmd_ecmp_nh_index :: u8
  fmd_ecmp_src_nh_index :: u8
  fmd_dvrf :: u16
  fmd_outer_src_ip :: u32
  fmd_vlan :: u16
  fmd_mirror_data :: u16
  fmd_udp_src_port :: u16
  fmd_to_me :: u8
  fmd_src :: u8
  fmd_flags :: u8
  fmd_dscp :: u8
  fmd_dotonep :: u8
  fmd_dmac :: "u8 list"
  fmd_smac :: "u8 list"
  fmd_local_ttl :: u8
  fmd_underlay_ecmp_index :: u8

definition vr_init_forwarding_md :: vr_forwarding_md where
  "vr_init_forwarding_md =
     \<lparr>fmd_fe = None, fmd_flow_index = - 1, fmd_label = - 1, fmd_ecmp_nh_index = - 1, fmd_ecmp_src_nh_index = - 1,
      fmd_dvrf = - 1, fmd_outer_src_ip = 0, fmd_vlan = VLAN_ID_INVALID, fmd_mirror_data = FMD_MIRROR_INVALID_DATA,
      fmd_udp_src_port = 0, fmd_to_me = 0, fmd_src = 0, fmd_flags = 0, fmd_dscp = - 1, fmd_dotonep = - 1,
      fmd_dmac = replicate 6 0, fmd_smac = replicate 6 0, fmd_local_ttl = FMD_PKT_LOOP_TTL,
      fmd_underlay_ecmp_index = - 1\<rparr>"

text \<open>Setting and clearing a flag, and testing it.\<close>

definition fmd_set_flag :: "u8 \<Rightarrow> bool \<Rightarrow> vr_forwarding_md \<Rightarrow> vr_forwarding_md" where
  "fmd_set_flag f b fmd = fmd\<lparr>fmd_flags := (if b then fmd_flags fmd OR f else fmd_flags fmd AND NOT f)\<rparr>"

definition fmd_has_flag :: "u8 \<Rightarrow> vr_forwarding_md \<Rightarrow> bool" where
  "fmd_has_flag f fmd \<longleftrightarrow> fmd_flags fmd AND f \<noteq> 0"

definition vr_fmd_label_is_vxlan_id :: "vr_forwarding_md \<Rightarrow> bool" where
  "vr_fmd_label_is_vxlan_id = fmd_has_flag FMD_FLAG_LABEL_IS_VXLAN_ID"

definition vr_fmd_update_etree :: "bool \<Rightarrow> vr_forwarding_md \<Rightarrow> vr_forwarding_md" where
  "vr_fmd_update_etree = fmd_set_flag FMD_FLAG_ETREE_ENABLE"

definition vr_fmd_update_etree_root :: "bool \<Rightarrow> vr_forwarding_md \<Rightarrow> vr_forwarding_md" where
  "vr_fmd_update_etree_root = fmd_set_flag FMD_FLAG_ETREE_ROOT"

definition vr_fmd_etree_is_enabled :: "vr_forwarding_md \<Rightarrow> bool" where
  "vr_fmd_etree_is_enabled = fmd_has_flag FMD_FLAG_ETREE_ENABLE"

definition vr_fmd_etree_is_root :: "vr_forwarding_md \<Rightarrow> bool" where
  "vr_fmd_etree_is_root = fmd_has_flag FMD_FLAG_ETREE_ROOT"

definition vr_fmd_update_label_type :: "label_type \<Rightarrow> vr_forwarding_md \<Rightarrow> vr_forwarding_md" where
  "vr_fmd_update_label_type t = fmd_set_flag FMD_FLAG_LABEL_IS_VXLAN_ID (t = VR_LABEL_TYPE_VXLAN_ID)"

definition vr_fmd_set_label :: "u32 \<Rightarrow> label_type \<Rightarrow> vr_forwarding_md \<Rightarrow> vr_forwarding_md" where
  "vr_fmd_set_label label t fmd = vr_fmd_update_label_type t (fmd\<lparr>fmd_label := label\<rparr>)"

definition vr_fmd_update_l2_control_data :: "bool \<Rightarrow> vr_forwarding_md \<Rightarrow> vr_forwarding_md" where
  "vr_fmd_update_l2_control_data = fmd_set_flag FMD_FLAG_L2_CONTROL_DATA"

definition vr_fmd_l2_control_data_is_enabled :: "vr_forwarding_md \<Rightarrow> bool" where
  "vr_fmd_l2_control_data_is_enabled = fmd_has_flag FMD_FLAG_L2_CONTROL_DATA"


definition vr_fmd_get_mirror_type :: "vr_forwarding_md \<Rightarrow> u16" where
  "vr_fmd_get_mirror_type fmd =
     (if fmd_mirror_data fmd \<noteq> FMD_MIRROR_INVALID_DATA \<and> fmd_mirror_data fmd AND 0x8000 \<noteq> 0
      then drop_bit 13 (fmd_mirror_data fmd AND 0x6000) AND 0x0003 else MIRROR_TYPE_UNKNOWN)"

definition vr_fmd_get_mirror_if_id :: "vr_forwarding_md \<Rightarrow> u16" where
  "vr_fmd_get_mirror_if_id fmd =
     (if fmd_mirror_data fmd \<noteq> FMD_MIRROR_INVALID_DATA \<and> fmd_mirror_data fmd AND 0x8000 \<noteq> 0
      then let intf_id = fmd_mirror_data fmd AND 0x1FFF
           in if intf_id = 0x1FFF then FMD_MIRROR_INVALID_DATA else intf_id
      else FMD_MIRROR_INVALID_DATA)"


definition mirror_data :: "u16 \<Rightarrow> u16 \<Rightarrow> u16" where
  "mirror_data t i = 0x8000 OR push_bit 13 (t AND 0x3) OR (i AND 0x1FFF)"

definition vr_fmd_put_mirror_type :: "u16 \<Rightarrow> vr_forwarding_md \<Rightarrow> vr_forwarding_md" where
  "vr_fmd_put_mirror_type t fmd = fmd\<lparr>fmd_mirror_data := mirror_data t (vr_fmd_get_mirror_if_id fmd)\<rparr>"


section \<open>Packets\<close>

text \<open>\<open>vp_if\<close> and \<open>vp_nh\<close> are addresses.\<close>

record vr_packet =
  vp_if :: "nat option"
  vp_nh :: "nat option"
  vp_data :: u16
  vp_tail :: u16
  vp_len :: u16
  vp_end :: u16
  vp_network_h :: u16
  vp_flags :: u16
  vp_inner_network_h :: u16
  vp_cpu :: u8
  vp_type :: u8
  vp_ttl :: u8
  vp_queue :: u8
  vp_priority :: u8

text \<open>
  \<open>vr_data_at_offset\<close> and \<open>vr_network_header\<close> are functions of the host, and arguments here.
\<close>

definition pkt_data_at_offset :: "(vr_packet \<Rightarrow> u16 \<Rightarrow> u16 option) \<Rightarrow> vr_packet \<Rightarrow> u16 \<Rightarrow> u16 option" where
  "pkt_data_at_offset host pkt off = (if off < vp_end pkt then Some off else host pkt off)"

definition pkt_data :: "vr_packet \<Rightarrow> u16" where
  "pkt_data pkt = vp_data pkt"

definition pkt_set_data :: "vr_packet \<Rightarrow> u16 \<Rightarrow> vr_packet" where
  "pkt_set_data pkt off =
     (if vp_data pkt = off then pkt else pkt\<lparr>vp_data := off, vp_len := vp_tail pkt - off\<rparr>)"

definition pkt_set_inner_network_header :: "vr_packet \<Rightarrow> u16 \<Rightarrow> vr_packet" where
  "pkt_set_inner_network_header pkt off = pkt\<lparr>vp_inner_network_h := off\<rparr>"

definition pkt_inner_network_header :: "vr_packet \<Rightarrow> u16 option" where
  "pkt_inner_network_header pkt = (if vp_inner_network_h pkt < vp_end pkt then Some (vp_inner_network_h pkt) else None)"

definition pkt_set_network_header :: "vr_packet \<Rightarrow> u16 \<Rightarrow> vr_packet" where
  "pkt_set_network_header pkt off = pkt\<lparr>vp_network_h := off\<rparr>"

definition pkt_network_header :: "(vr_packet \<Rightarrow> u16 option) \<Rightarrow> vr_packet \<Rightarrow> u16 option" where
  "pkt_network_header host pkt = (if vp_network_h pkt < vp_end pkt then Some (vp_network_h pkt) else host pkt)"

text \<open>The lengths are 32 bits wide, and the sums are formed at that width.\<close>

definition pkt_pull :: "vr_packet \<Rightarrow> u32 \<Rightarrow> u16 option \<times> vr_packet" where
  "pkt_pull pkt len =
     (if ucast (vp_data pkt) + len > ucast (vp_tail pkt) then (None, pkt)
      else let pkt = pkt\<lparr>vp_data := vp_data pkt + ucast len, vp_len := vp_len pkt - ucast len\<rparr>
           in (Some (pkt_data pkt), pkt))"

definition pkt_pull_tail :: "vr_packet \<Rightarrow> u32 \<Rightarrow> u16 option \<times> vr_packet" where
  "pkt_pull_tail pkt len =
     (if ucast (vp_tail pkt) + len > ucast (vp_end pkt) then (None, pkt)
      else let pkt = pkt\<lparr>vp_tail := vp_tail pkt + ucast len, vp_len := vp_len pkt + ucast len\<rparr>
           in (Some (vp_tail pkt), pkt))"

definition pkt_push :: "vr_packet \<Rightarrow> u32 \<Rightarrow> u16 option \<times> vr_packet" where
  "pkt_push pkt len =
     (if len > ucast (vp_data pkt) then (None, pkt)
      else let pkt = pkt\<lparr>vp_data := vp_data pkt - ucast len, vp_len := vp_len pkt + ucast len\<rparr>
           in (Some (pkt_data pkt), pkt))"

definition pkt_head_len :: "vr_packet \<Rightarrow> u16" where
  "pkt_head_len pkt = vp_len pkt"

definition pkt_len :: "(vr_packet \<Rightarrow> u32) \<Rightarrow> vr_packet \<Rightarrow> u32" where
  "pkt_len frag_len pkt = ucast (pkt_head_len pkt) + frag_len pkt"

text \<open>Here the sums are integers that do not wrap.\<close>

definition pkt_reserve_head_space :: "vr_packet \<Rightarrow> u16 \<Rightarrow> u16 option \<times> vr_packet" where
  "pkt_reserve_head_space pkt len =
     (if unat (vp_data pkt) + unat len > unat (vp_end pkt) then (None, pkt)
      else let pkt = (if vp_data pkt = vp_tail pkt then pkt\<lparr>vp_tail := vp_tail pkt + len\<rparr> else pkt)
           in if unat (vp_data pkt) + unat len > unat (vp_tail pkt) then (None, pkt)
              else let pkt = pkt\<lparr>vp_data := vp_data pkt + len\<rparr> in (Some (pkt_data pkt), pkt))"

definition pkt_head_space :: "vr_packet \<Rightarrow> u16" where
  "pkt_head_space pkt = vp_data pkt"

definition pkt_init_fragment :: "vr_packet \<Rightarrow> vr_packet \<Rightarrow> vr_packet" where
  "pkt_init_fragment dst src =
     dst\<lparr>vp_if := vp_if src, vp_nh := vp_nh src, vp_cpu := vp_cpu src, vp_flags := vp_flags src\<rparr>"

section \<open>Dropped packets\<close>

definition VP_DROP_MAX :: nat where "VP_DROP_MAX = 55"

text \<open>
  The statistics of the router per CPU and reason, the counters of 8 bits per CPU of an interface
  (NULL when they could not be allocated), and its totals (NULL likewise).
\<close>

record drop_state =
  vr_pdrop_stats :: "(nat \<times> nat) \<Rightarrow> u64"
  vif_pcpu_drop_stats :: "u8 list option"
  vif_drop_stats :: "u64 list option"

definition pkt_drop_stats :: "bool \<Rightarrow> u16 \<Rightarrow> int \<Rightarrow> drop_state \<Rightarrow> drop_state" where
  "pkt_drop_stats has_vif reason cpu st =
     (if VP_DROP_MAX \<le> unat reason \<or> cpu < 0 then st
      else let r = unat reason; c = nat cpu; i = c * VP_DROP_MAX + r;
               st = st\<lparr>vr_pdrop_stats := (vr_pdrop_stats st)((c, r) := vr_pdrop_stats st (c, r) + 1)\<rparr>;
               add = (\<lambda>count st. st\<lparr>vif_drop_stats := map_option (\<lambda>t. t[r := t ! r + count]) (vif_drop_stats st)\<rparr>)
           in if \<not> has_vif then st
              else case vif_pcpu_drop_stats st of
                     None \<Rightarrow> add 1 st
                   | Some data \<Rightarrow>
                       if length data \<le> i then add 1 st
                       else let count = data ! i + 1;
                                st = st\<lparr>vif_pcpu_drop_stats := Some (data[i := count])\<rparr>
                            in if count < 255 then st
                               else add (ucast count) (st\<lparr>vif_pcpu_drop_stats := Some (data[i := 0])\<rparr>))"

section \<open>Mirror data\<close>

lemma mask_consts: "(0x1FFF :: u16) = mask 13" "(0x3 :: u16) = mask 2" "(0x8000 :: u16) = 2 ^ 15"
  "(0x6000 :: u16) = push_bit 13 (mask 2)" "(0x0FFF :: u16) = mask 12" "(0xFFFF :: u16) = mask 16"
  by (simp_all add: mask_eq_exp_minus_1 push_bit_eq_mult)

lemma bit_consts: "bit (0x1FFF :: u16) n \<longleftrightarrow> n < 13" "bit (0x3 :: u16) n \<longleftrightarrow> n < 2" "bit (0x8000 :: u16) n \<longleftrightarrow> n = 15"
  "bit (0x6000 :: u16) n \<longleftrightarrow> 13 \<le> n \<and> n < 15" "bit (0x0FFF :: u16) n \<longleftrightarrow> n < 12" "bit (0xFFFF :: u16) n \<longleftrightarrow> n < 16"
  unfolding mask_consts bit_push_bit_iff bit_mask_iff bit_exp_iff possible_bit_word by auto

lemma bit_mirror_data:
  "bit (mirror_data t i) n \<longleftrightarrow> n = 15 \<or> (13 \<le> n \<and> n < 15 \<and> bit t (n - 13)) \<or> (n < 13 \<and> bit i n)"
  unfolding mirror_data_def bit_or_iff bit_push_bit_iff bit_and_iff bit_consts possible_bit_word by auto

lemma mirror_data_fields:
  "mirror_data t i AND 0x1FFF = i AND 0x1FFF" "mirror_data t i AND 0x8000 = 0x8000"
  "drop_bit 13 (mirror_data t i AND 0x6000) AND 3 = t AND 3" "drop_bit 13 (mirror_data t i) AND 3 = t AND 3"
  by (rule bit_word_eqI; simp only: bit_and_iff bit_drop_bit_eq comp_apply bit_mirror_data bit_consts; auto)+

lemma mirror_data_valid: "mirror_data t i = FMD_MIRROR_INVALID_DATA \<longleftrightarrow> t AND 3 = 3 \<and> i AND 0x1FFF = 0x1FFF"
proof
  assume "mirror_data t i = FMD_MIRROR_INVALID_DATA"
  then have "mirror_data t i = 0xFFFF" by (simp add: FMD_MIRROR_INVALID_DATA_def)
  then show "t AND 3 = 3 \<and> i AND 0x1FFF = 0x1FFF" using mirror_data_fields(1,3) [of t i] by simp
next
  assume "t AND 3 = 3 \<and> i AND 0x1FFF = 0x1FFF"
  then show "mirror_data t i = FMD_MIRROR_INVALID_DATA" by (simp add: mirror_data_def FMD_MIRROR_INVALID_DATA_def)
qed


section \<open>The offsets of a packet\<close>

definition pkt_wf :: "vr_packet \<Rightarrow> bool" where
  "pkt_wf pkt \<longleftrightarrow> vp_data pkt \<le> vp_tail pkt \<and> vp_tail pkt \<le> vp_end pkt \<and> unat (vp_len pkt) = unat (vp_tail pkt) - unat (vp_data pkt)"

lemma u16_less: "unat (x :: u16) < 65536"
  using unsigned_less [of x] by simp

lemma unat_ucast_u32_u16: "unat (l :: u32) < 65536 \<Longrightarrow> unat (ucast l :: u16) = unat l"
  by (simp add: unsigned_ucast_eq take_bit_nat_eq_self)

lemma unat_add_u16: "unat (a :: u16) + unat b < 65536 \<Longrightarrow> unat (a + b) = unat a + unat b"
  by (simp add: unat_word_ariths)

lemma unat_sub_u16: "unat (b :: u16) \<le> unat a \<Longrightarrow> unat (a - b) = unat a - unat b"
  by (rule unat_sub) (simp add: word_le_nat_alt)

section \<open>Properties\<close>




text \<open>
  Without an interface the type for access lists is lost: the packed value is the one that stands for
  no mirror data at all.
\<close>

lemma fmd_mirror_acl_lost:
  "vr_fmd_get_mirror_type (vr_fmd_put_mirror_type MIRROR_TYPE_ACL vr_init_forwarding_md) = MIRROR_TYPE_UNKNOWN"
proof -
  have "mirror_data MIRROR_TYPE_ACL FMD_MIRROR_INVALID_DATA = FMD_MIRROR_INVALID_DATA"
    unfolding mirror_data_valid by (simp add: MIRROR_TYPE_ACL_def FMD_MIRROR_INVALID_DATA_def)
  then show ?thesis
    by (simp add: vr_fmd_put_mirror_type_def vr_fmd_get_mirror_type_def vr_fmd_get_mirror_if_id_def vr_init_forwarding_md_def)
qed

text \<open>C34: Pulling bytes from a packet succeeds exactly when it has that many, and keeps its offsets in
  order; the length falls by the bytes pulled. A length that wraps the sum around is excluded.\<close>

theorem pkt_pull_spec:
  assumes "pkt_wf pkt" "unat len + 65536 \<le> 2 ^ 32" "pkt_pull pkt len = (r, pkt')"
  shows "if unat len \<le> unat (vp_len pkt)
    then r = Some (vp_data pkt') \<and> pkt_wf pkt' \<and> unat (vp_data pkt') = unat (vp_data pkt) + unat len \<and>
      unat (vp_len pkt') = unat (vp_len pkt) - unat len \<and> vp_tail pkt' = vp_tail pkt
    else r = None \<and> pkt' = pkt"
proof -
  note b = u16_less [of "vp_data pkt"] u16_less [of "vp_tail pkt"] u16_less [of "vp_len pkt"]
  have w: "unat (vp_data pkt) \<le> unat (vp_tail pkt)" "unat (vp_tail pkt) \<le> unat (vp_end pkt)"
    "unat (vp_len pkt) = unat (vp_tail pkt) - unat (vp_data pkt)"
    using assms(1) by (simp_all add: pkt_wf_def word_le_nat_alt)
  have "unat (ucast (vp_data pkt) + len) = unat (vp_data pkt) + unat len"
    using assms(2) b(1) by (subst unat_add_u32) simp_all
  then have c: "ucast (vp_data pkt) + len > ucast (vp_tail pkt) \<longleftrightarrow> unat (vp_len pkt) < unat len"
    using w unfolding word_less_nat_alt by auto
  show ?thesis
  proof (cases "unat len \<le> unat (vp_len pkt)")
    case True
    have l: "unat (ucast len :: u16) = unat len" using True b by (intro unat_ucast_u32_u16) linarith
    have d: "unat (vp_data pkt + ucast len) = unat (vp_data pkt) + unat len"
      using True w b l by (subst unat_add_u16) auto
    have e: "unat (vp_len pkt - ucast len) = unat (vp_len pkt) - unat len" using True l by (subst unat_sub_u16) auto
    show ?thesis using True assms(3) c w d e
      by (auto simp: pkt_pull_def Let_def pkt_wf_def pkt_data_def word_le_nat_alt)
  next
    case False
    then show ?thesis using assms(3) c by (simp add: pkt_pull_def)
  qed
qed

definition ex_pkt :: vr_packet where
  "ex_pkt = \<lparr>vp_if = None, vp_nh = None, vp_data = 64, vp_tail = 164, vp_len = 100, vp_end = 2048, vp_network_h = 78, vp_flags = 0,
     vp_inner_network_h = 0, vp_cpu = 0, vp_type = 2, vp_ttl = 64, vp_queue = 0, vp_priority = 0\<rparr>"

theorem pkt_pull_spec_witness: "unat (vp_len (snd (pkt_pull ex_pkt 14))) = 86"
  using pkt_pull_spec [of ex_pkt 14 "fst (pkt_pull ex_pkt 14)" "snd (pkt_pull ex_pkt 14)"]
  by (simp add: pkt_wf_def ex_pkt_def)

text \<open>C35: Bytes that were pushed in front of a packet are pulled off again: the packet is the one
  before.\<close>

theorem pkt_push_pull:
  assumes "pkt_wf pkt" "unat len \<le> unat (vp_data pkt)" "unat (vp_len pkt) + unat len < 65536"
  shows "\<exists>p. pkt_push pkt len = (Some (vp_data p), p) \<and> pkt_wf p \<and> unat (vp_len p) = unat (vp_len pkt) + unat len \<and>
    pkt_pull p len = (Some (vp_data pkt), pkt)"
proof -
  note b = u16_less [of "vp_data pkt"] u16_less [of "vp_tail pkt"]
  let ?l = "ucast len :: u16"
  let ?p = "pkt\<lparr>vp_data := vp_data pkt - ?l, vp_len := vp_len pkt + ?l\<rparr>"
  have l: "unat ?l = unat len" using assms(2) b by (intro unat_ucast_u32_u16) linarith
  have w: "unat (vp_data pkt) \<le> unat (vp_tail pkt)" "unat (vp_tail pkt) \<le> unat (vp_end pkt)"
    "unat (vp_len pkt) = unat (vp_tail pkt) - unat (vp_data pkt)"
    using assms(1) by (simp_all add: pkt_wf_def word_le_nat_alt)
  have d: "unat (vp_data pkt - ?l) = unat (vp_data pkt) - unat len" using assms(2) l by (subst unat_sub_u16) auto
  have e: "unat (vp_len pkt + ?l) = unat (vp_len pkt) + unat len" using assms(3) l by (subst unat_add_u16) auto
  have push: "pkt_push pkt len = (Some (vp_data ?p), ?p)"
    using assms(2) by (simp add: pkt_push_def word_less_nat_alt pkt_data_def)
  have wf: "pkt_wf ?p" using w d e assms(2) by (simp add: pkt_wf_def word_le_nat_alt)
  have "unat (ucast (vp_data pkt - ?l) + len) = unat (vp_data pkt)"
    using d assms(2) b by (subst unat_add_u32) auto
  then have "\<not> ucast (vp_data pkt - ?l) + len > ucast (vp_tail pkt)" using w unfolding word_less_nat_alt by simp
  then have "pkt_pull ?p len = (Some (vp_data pkt), pkt)" by (simp add: pkt_pull_def pkt_data_def)
  then show ?thesis using push wf e by auto
qed

theorem pkt_push_pull_witness: "\<exists>p. pkt_push ex_pkt 14 = (Some (vp_data p), p) \<and> pkt_pull p 14 = (Some 64, ex_pkt)"
  using pkt_push_pull [of ex_pkt 14] by (auto simp: pkt_wf_def ex_pkt_def)

text \<open>
  The drops an interface has on record for a reason: its total, and the counters of the CPUs where it
  has them. An interface always has totals; its counters per CPU are missing when they could not be
  allocated.
\<close>

definition vif_drops :: "drop_state \<Rightarrow> nat \<Rightarrow> nat \<Rightarrow> nat" where
  "vif_drops st ncpu r =
     (case vif_drop_stats st of None \<Rightarrow> 0 | Some t \<Rightarrow> unat (t ! r)) +
     (case vif_pcpu_drop_stats st of None \<Rightarrow> 0 | Some d \<Rightarrow> (\<Sum>c<ncpu. unat (d ! (c * VP_DROP_MAX + r))))"

definition drops_wf :: "nat \<Rightarrow> drop_state \<Rightarrow> bool" where
  "drops_wf ncpu st \<longleftrightarrow> (\<exists>t. vif_drop_stats st = Some t \<and> length t = VP_DROP_MAX) \<and>
     (\<forall>d. vif_pcpu_drop_stats st = Some d \<longrightarrow> length d = ncpu * VP_DROP_MAX \<and> (\<forall>x\<in>set d. x < 255))"

lemma drop_index_inj: "r < VP_DROP_MAX \<Longrightarrow> r' < VP_DROP_MAX \<Longrightarrow> c * VP_DROP_MAX + r = c' * VP_DROP_MAX + r' \<longleftrightarrow> c = c' \<and> r = r'"
proof
  assume r: "r < VP_DROP_MAX" "r' < VP_DROP_MAX" and eq: "c * VP_DROP_MAX + r = c' * VP_DROP_MAX + r'"
  have "(c * VP_DROP_MAX + r) div VP_DROP_MAX = c" "(c' * VP_DROP_MAX + r') div VP_DROP_MAX = c'" using r by simp_all
  then show "c = c' \<and> r = r'" using eq by simp
qed simp

lemma drop_index_less: "c < ncpu \<Longrightarrow> r < VP_DROP_MAX \<Longrightarrow> c * VP_DROP_MAX + r < ncpu * VP_DROP_MAX"
proof -
  assume a: "c < ncpu" "r < VP_DROP_MAX"
  then have "c * VP_DROP_MAX + r < Suc c * VP_DROP_MAX" by simp
  also have "\<dots> \<le> ncpu * VP_DROP_MAX" using a(1) by (intro mult_le_mono1) simp
  finally show ?thesis .
qed

text \<open>What the counters of all CPUs for a reason sum up to, when one counter changes.\<close>

lemma sum_pcpu_update:
  assumes "c < ncpu" "r < VP_DROP_MAX" "r' < VP_DROP_MAX" "length d = ncpu * VP_DROP_MAX"
  shows "(\<Sum>k<ncpu. unat (d[c * VP_DROP_MAX + r := x] ! (k * VP_DROP_MAX + r'))) + of_bool (r = r') * unat (d ! (c * VP_DROP_MAX + r)) =
    (\<Sum>k<ncpu. unat (d ! (k * VP_DROP_MAX + r'))) + of_bool (r = r') * unat (x :: u8)"
proof -
  let ?i = "\<lambda>k. k * VP_DROP_MAX + r'" and ?d = "d[c * VP_DROP_MAX + r := x]"
  have upd: "?d ! ?i k = (if k = c \<and> r = r' then x else d ! ?i k)" if "k < ncpu" for k
    using drop_index_inj [OF assms(2,3), of c k] drop_index_less [OF assms(1,2)] assms(4) by (auto simp: nth_list_update)
  have s: "(\<Sum>k<ncpu. f k) = f c + (\<Sum>k\<in>{..<ncpu} - {c}. f k)" for f :: "nat \<Rightarrow> nat"
    using assms(1) by (subst sum.remove [of _ c]) simp_all
  have "(\<Sum>k\<in>{..<ncpu} - {c}. unat (?d ! ?i k)) = (\<Sum>k\<in>{..<ncpu} - {c}. unat (d ! ?i k))"
    by (rule sum.cong) (use upd in auto)
  then show ?thesis unfolding s [of "\<lambda>k. unat (?d ! ?i k)"] s [of "\<lambda>k. unat (d ! ?i k)"] using upd [OF assms(1)] by simp
qed

lemma drops_with_pcpu:
  assumes "drops_wf ncpu st" "unat reason < VP_DROP_MAX" "c < ncpu" "vif_drops st ncpu (unat reason) + 1 < 2 ^ 64"
    and "vif_pcpu_drop_stats st = Some d"
  shows "drops_wf ncpu (pkt_drop_stats True reason (int c) st) \<and>
    (\<forall>r<VP_DROP_MAX. vif_drops (pkt_drop_stats True reason (int c) st) ncpu r = vif_drops st ncpu r + of_bool (r = unat reason))"
proof -
  define R where "R = unat reason"
  let ?i = "c * VP_DROP_MAX + R" and ?st = "pkt_drop_stats True reason (int c) st"
  obtain t where st: "vif_pcpu_drop_stats st = Some d" "vif_drop_stats st = Some t" "length d = ncpu * VP_DROP_MAX"
    "length t = VP_DROP_MAX" "\<forall>x\<in>set d. x < 255" using assms(1,5) unfolding drops_wf_def by blast
  have R: "R < VP_DROP_MAX" using assms(2) by (simp add: R_def)
  have i: "?i < length d" using drop_index_less [OF assms(3) R] st(3) by simp
  then have "d ! ?i < 255" using st(5) nth_mem by blast
  then have dl: "unat (d ! ?i) < 255" by (simp add: word_less_nat_alt)
  have u: "unat (d ! ?i + 1) = unat (d ! ?i) + 1" using dl by (simp add: unat_word_ariths)
  note s = sum_pcpu_update [OF assms(3) R _ st(3)]
  show ?thesis
  proof (cases "d ! ?i + 1 < 255")
    case True
    then have r: "vif_pcpu_drop_stats ?st = Some (d[?i := d ! ?i + 1])" "vif_drop_stats ?st = Some t"
      using assms(2) st i by (simp_all add: pkt_drop_stats_def Let_def R_def)
    have "drops_wf ncpu ?st" using r st True unfolding drops_wf_def by (auto dest: set_update_subset_insert [THEN subsetD])
    moreover have "vif_drops ?st ncpu r' = vif_drops st ncpu r' + of_bool (r' = R)" if "r' < VP_DROP_MAX" for r'
      using s [OF that, of "d ! ?i + 1"] r st u by (auto simp: vif_drops_def)
    ultimately show ?thesis by (simp add: R_def)
  next
    case False
    then have c255: "unat (d ! ?i) = 254" using dl u by (simp add: word_less_nat_alt)
    then have cu: "unat (ucast (d ! ?i + 1) :: u64) = 255" using u by (simp add: unsigned_ucast_eq take_bit_nat_eq_self)
    have r: "vif_pcpu_drop_stats ?st = Some (d[?i := 0])" "vif_drop_stats ?st = Some (t[R := t ! R + ucast (d ! ?i + 1)])"
      using assms(2) st i False by (simp_all add: pkt_drop_stats_def Let_def R_def)
    have "unat (t ! R) + 255 < 2 ^ 64"
    proof -
      have "unat (d ! ?i) \<le> (\<Sum>k<ncpu. unat (d ! (k * VP_DROP_MAX + R)))"
        using assms(3) by (intro member_le_sum) auto
      then show ?thesis using assms(4) c255 st(1,2) by (simp add: vif_drops_def R_def)
    qed
    then have tu: "unat (t ! R + ucast (d ! ?i + 1)) = unat (t ! R) + 255" using cu by (simp add: unat_word_ariths)
    have "drops_wf ncpu ?st" using r st unfolding drops_wf_def by (auto dest: set_update_subset_insert [THEN subsetD])
    moreover have "vif_drops ?st ncpu r' = vif_drops st ncpu r' + of_bool (r' = R)" if "r' < VP_DROP_MAX" for r'
      using s [OF that, of 0] r st tu c255 R by (auto simp: vif_drops_def)
    ultimately show ?thesis by (simp add: R_def)
  qed
qed

text \<open>Without counters per CPU, the total is counted up at once.\<close>

lemma drops_without_pcpu:
  assumes "drops_wf ncpu st" "unat reason < VP_DROP_MAX" "vif_drops st ncpu (unat reason) + 1 < 2 ^ 64"
    and "vif_pcpu_drop_stats st = None"
  shows "drops_wf ncpu (pkt_drop_stats True reason (int c) st) \<and>
    (\<forall>r<VP_DROP_MAX. vif_drops (pkt_drop_stats True reason (int c) st) ncpu r = vif_drops st ncpu r + of_bool (r = unat reason))"
proof -
  obtain t where t: "vif_drop_stats st = Some t" "length t = VP_DROP_MAX" using assms(1) unfolding drops_wf_def by blast
  let ?st = "pkt_drop_stats True reason (int c) st"
  have r: "vif_pcpu_drop_stats ?st = None" "vif_drop_stats ?st = Some (t[unat reason := t ! unat reason + 1])"
    using assms(2,4) t by (simp_all add: pkt_drop_stats_def Let_def)
  have "unat (t ! unat reason + 1) = unat (t ! unat reason) + 1"
    using assms(3,4) t by (simp add: vif_drops_def unat_word_ariths)
  then show ?thesis using r t assms(2,4) by (auto simp: drops_wf_def vif_drops_def nth_list_update)
qed

text \<open>C32: A drop is counted for the router, for the CPU and the reason given, and once for the interface, if
  there is one: its recorded drops grow by exactly one for the reason given and by nothing for the
  others. This holds with and without counters per CPU; these have 8 bits and carry over to the totals
  before they wrap. Without an interface, only the router counts. A drop with an unknown reason or
  with a negative CPU is not counted anywhere.\<close>

theorem pkt_drop_stats_counts:
  assumes "st' = pkt_drop_stats has_vif reason cpu st"
  shows "if VP_DROP_MAX \<le> unat reason \<or> cpu < 0 then st' = st
    else vr_pdrop_stats st' = (vr_pdrop_stats st)((nat cpu, unat reason) := vr_pdrop_stats st (nat cpu, unat reason) + 1) \<and>
      (if \<not> has_vif then vif_pcpu_drop_stats st' = vif_pcpu_drop_stats st \<and> vif_drop_stats st' = vif_drop_stats st
       else drops_wf ncpu st \<and> cpu < int ncpu \<and> vif_drops st ncpu (unat reason) + 1 < 2 ^ 64 \<longrightarrow>
         drops_wf ncpu st' \<and> (\<forall>r<VP_DROP_MAX. vif_drops st' ncpu r = vif_drops st ncpu r + of_bool (r = unat reason)))"
proof (cases "VP_DROP_MAX \<le> unat reason \<or> cpu < 0")
  case True
  then show ?thesis using assms by (simp add: pkt_drop_stats_def)
next
  case False
  then have c: "cpu = int (nat cpu)" "unat reason < VP_DROP_MAX" by simp_all
  have g: "vr_pdrop_stats st' = (vr_pdrop_stats st)((nat cpu, unat reason) := vr_pdrop_stats st (nat cpu, unat reason) + 1)"
    using False unfolding assms pkt_drop_stats_def Let_def by (cases "vif_pcpu_drop_stats st") simp_all
  have n: "vif_pcpu_drop_stats st' = vif_pcpu_drop_stats st \<and> vif_drop_stats st' = vif_drop_stats st" if "\<not> has_vif"
    using False that unfolding assms pkt_drop_stats_def Let_def by simp
  have v: "drops_wf ncpu st' \<and> (\<forall>r<VP_DROP_MAX. vif_drops st' ncpu r = vif_drops st ncpu r + of_bool (r = unat reason))"
    if "has_vif" "drops_wf ncpu st" "cpu < int ncpu" "vif_drops st ncpu (unat reason) + 1 < 2 ^ 64"
  proof (cases "vif_pcpu_drop_stats st")
    case None
    from drops_without_pcpu [OF that(2) c(2) that(4) None, of "nat cpu"] show ?thesis using that(1) c(1) by (simp add: assms)
  next
    case (Some d)
    have "nat cpu < ncpu" using that(3) c(1) by linarith
    from drops_with_pcpu [OF that(2) c(2) this that(4) Some] show ?thesis using that(1) c(1) by (simp add: assms)
  qed
  show ?thesis using False g n v by (simp split: if_splits)
qed

definition ex_drops :: drop_state where
  "ex_drops = \<lparr>vr_pdrop_stats = (\<lambda>_. 0), vif_pcpu_drop_stats = Some (replicate 110 254), vif_drop_stats = Some (replicate 55 0)\<rparr>"

theorem pkt_drop_stats_counts_witness:
  "vif_drops (pkt_drop_stats True 3 1 ex_drops) 2 3 = vif_drops ex_drops 2 3 + 1 \<and> pkt_drop_stats True 3 (-1) ex_drops = ex_drops"
proof -
  have wf: "drops_wf 2 ex_drops" by (simp add: drops_wf_def ex_drops_def VP_DROP_MAX_def)
  have "(\<Sum>c<2. unat (replicate 110 (254 :: u8) ! (c * VP_DROP_MAX + 3))) = (\<Sum>c<(2 :: nat). 254)"
    by (rule sum.cong) (auto simp: VP_DROP_MAX_def)
  then have "vif_drops ex_drops 2 (unat (3 :: u16)) + 1 < 2 ^ 64" by (simp add: vif_drops_def ex_drops_def)
  then show ?thesis
    using pkt_drop_stats_counts [of _ True 3 1 ex_drops 2, OF refl] pkt_drop_stats_counts [of _ True 3 "-1" ex_drops 2, OF refl] wf
    by (simp add: VP_DROP_MAX_def)
qed

end
