(* ===== verification/VR_Frame.thy ===== *)
theory VR_Frame
  imports VR_Packet
begin

text \<open>
  The bytes of a packet, and \<open>vr_pkt_type\<close> of \<^verbatim>\<open>dp-core/vr_datapath.c\<close>, which parses the ethernet
  header with its VLAN tags. The buffer is the list of its bytes from \<open>vp_head\<close> on; reading at or
  behind the tail of the packet is a fault. Fields of the packet are in network byte order.
\<close>

section \<open>Reading the buffer\<close>

definition rd8 :: "u8 list \<Rightarrow> vr_packet \<Rightarrow> nat \<Rightarrow> u8 exec" where
  "rd8 buf pkt i = (if i < unat (vp_tail pkt) \<and> i < length buf then Done (buf ! i) else Fault)"

text \<open>\<open>ntohs\<close> and \<open>ntohl\<close> of the value at an offset, and the value itself on a little endian machine.\<close>

definition rd16 :: "u8 list \<Rightarrow> vr_packet \<Rightarrow> nat \<Rightarrow> u16 exec" where
  "rd16 buf pkt i =
     exec_bind (rd8 buf pkt i) (\<lambda>a. exec_bind (rd8 buf pkt (i + 1)) (\<lambda>b.
       Done (push_bit 8 (ucast a) OR ucast b)))"

definition rd32 :: "u8 list \<Rightarrow> vr_packet \<Rightarrow> nat \<Rightarrow> u32 exec" where
  "rd32 buf pkt i =
     exec_bind (rd16 buf pkt i) (\<lambda>a. exec_bind (rd16 buf pkt (i + 2)) (\<lambda>b.
       Done (push_bit 16 (ucast a) OR ucast b)))"

definition rd32_raw :: "u8 list \<Rightarrow> vr_packet \<Rightarrow> nat \<Rightarrow> u32 exec" where
  "rd32_raw buf pkt i =
     exec_bind (rd8 buf pkt i) (\<lambda>a. exec_bind (rd8 buf pkt (i + 1)) (\<lambda>b.
       exec_bind (rd8 buf pkt (i + 2)) (\<lambda>c. exec_bind (rd8 buf pkt (i + 3)) (\<lambda>d.
         Done (ucast a OR push_bit 8 (ucast b) OR push_bit 16 (ucast c) OR push_bit 24 (ucast d))))))"

definition frame_ok :: "u8 list \<Rightarrow> vr_packet \<Rightarrow> bool" where
  "frame_ok buf pkt \<longleftrightarrow> pkt_wf pkt \<and> unat (vp_end pkt) \<le> length buf"

lemma frame_tail: "frame_ok buf pkt \<Longrightarrow> unat (vp_tail pkt) \<le> length buf"
  by (auto simp: frame_ok_def pkt_wf_def word_le_nat_alt)

lemma rd8_ok: "frame_ok buf pkt \<Longrightarrow> i < unat (vp_tail pkt) \<Longrightarrow> rd8 buf pkt i = Done (buf ! i)"
  using frame_tail [of buf pkt] by (simp add: rd8_def)

lemma rd16_ok: "frame_ok buf pkt \<Longrightarrow> i + 2 \<le> unat (vp_tail pkt) \<Longrightarrow> \<exists>v. rd16 buf pkt i = Done v"
  by (simp add: rd16_def rd8_ok)

lemma rd32_ok: "frame_ok buf pkt \<Longrightarrow> i + 4 \<le> unat (vp_tail pkt) \<Longrightarrow> \<exists>v. rd32 buf pkt i = Done v"
  using rd16_ok [of buf pkt i] rd16_ok [of buf pkt "i + 2"] by (auto simp: rd32_def)

lemma rd32_raw_ok: "frame_ok buf pkt \<Longrightarrow> i + 4 \<le> unat (vp_tail pkt) \<Longrightarrow> \<exists>v. rd32_raw buf pkt i = Done v"
  by (simp add: rd32_raw_def rd8_ok)

lemma rd8_cong: "vp_tail pkt' = vp_tail pkt \<Longrightarrow> rd8 buf pkt' = rd8 buf pkt"
  by (auto simp: rd8_def fun_eq_iff)

lemma rd16_cong: "vp_tail pkt' = vp_tail pkt \<Longrightarrow> rd16 buf pkt' = rd16 buf pkt"
  by (auto simp: rd16_def fun_eq_iff rd8_cong [of pkt' pkt])

section \<open>The ethernet header\<close>

definition VR_ETHER_HLEN :: nat where "VR_ETHER_HLEN = 14"
definition VR_ETHER_PROTO_OFF :: nat where "VR_ETHER_PROTO_OFF = 12"
definition VR_ETH_PROTO_ARP :: u16 where "VR_ETH_PROTO_ARP = 0x806"
definition VR_ETH_PROTO_IP :: u16 where "VR_ETH_PROTO_IP = 0x800"
definition VR_ETH_PROTO_IP6 :: u16 where "VR_ETH_PROTO_IP6 = 0x86DD"
definition VR_ETH_PROTO_VLAN :: u16 where "VR_ETH_PROTO_VLAN = 0x8100"
definition VR_ETH_PROTO_PBB :: u16 where "VR_ETH_PROTO_PBB = 0x88E7"
definition VP_FLAG_MULTICAST :: u16 where "VP_FLAG_MULTICAST = 0x10"
definition VP_TYPE_ARP :: u8 where "VP_TYPE_ARP = 1"
definition VP_TYPE_IP :: u8 where "VP_TYPE_IP = 2"
definition VP_TYPE_IP6 :: u8 where "VP_TYPE_IP6 = 3"
definition VP_TYPE_PBB :: u8 where "VP_TYPE_PBB = 7"
definition VP_TYPE_UNKNOWN :: u8 where "VP_TYPE_UNKNOWN = 8"

definition vr_eth_proto_to_pkt_type :: "u16 \<Rightarrow> u8" where
  "vr_eth_proto_to_pkt_type eth_proto =
     (if eth_proto = VR_ETH_PROTO_IP then VP_TYPE_IP
      else if eth_proto = VR_ETH_PROTO_IP6 then VP_TYPE_IP6
      else if eth_proto = VR_ETH_PROTO_ARP then VP_TYPE_ARP
      else if eth_proto = VR_ETH_PROTO_PBB then VP_TYPE_PBB
      else VP_TYPE_UNKNOWN)"

lemma exec_bind_cong [fundef_cong]: "m = m' \<Longrightarrow> (\<And>x. m' = Done x \<Longrightarrow> f x = f' x) \<Longrightarrow> exec_bind m f = exec_bind m' f'"
  by (cases m) auto

text \<open>
  The loop over the VLAN tags: the length of the headers and the protocol behind them, or None if the
  packet is too short. The first tag is noted in the metadata, if there are some.
\<close>

function pkt_vlan_loop ::
  "u8 list \<Rightarrow> vr_packet \<Rightarrow> nat \<Rightarrow> nat \<Rightarrow> nat \<Rightarrow> u16 \<Rightarrow> vr_forwarding_md option \<Rightarrow>
   ((nat \<times> u16) option \<times> vr_forwarding_md option) exec" where
  "pkt_vlan_loop buf pkt eth plen pull_len eth_proto fmd =
     (if eth_proto \<noteq> VR_ETH_PROTO_VLAN then Done (Some (pull_len, eth_proto), fmd)
      else if plen < pull_len + 4 then Done (None, fmd)
      else exec_bind (rd16 buf pkt (eth + pull_len)) (\<lambda>vlan_tag. exec_bind (rd16 buf pkt (eth + pull_len + 2)) (\<lambda>vlan_proto.
        pkt_vlan_loop buf pkt eth plen (pull_len + 4) vlan_proto
          (map_option (\<lambda>fmd. if fmd_vlan fmd = VLAN_ID_INVALID then fmd\<lparr>fmd_vlan := vlan_tag AND 0xFFF\<rparr> else fmd) fmd))))"
  by auto

termination
  by (relation "measure (\<lambda>(buf, pkt, eth, plen, pull_len, eth_proto, fmd). plen - pull_len)") auto

declare pkt_vlan_loop.simps [simp del]

text \<open>A frame to a group address is marked.\<close>

definition pkt_mark_multicast :: "u8 \<Rightarrow> vr_packet \<Rightarrow> vr_packet" where
  "pkt_mark_multicast b pkt =
     (let pkt = pkt\<lparr>vp_flags := vp_flags pkt AND NOT VP_FLAG_MULTICAST\<rparr>
      in if b AND 1 \<noteq> 0 then pkt\<lparr>vp_flags := vp_flags pkt OR VP_FLAG_MULTICAST\<rparr> else pkt)"

text \<open>\<open>vr_pkt_type\<close>: whether the packet could be parsed, the metadata and the packet.\<close>

definition vr_pkt_type ::
  "u8 list \<Rightarrow> u16 \<Rightarrow> vr_forwarding_md option \<Rightarrow> vr_packet \<Rightarrow> (bool \<times> vr_forwarding_md option \<times> vr_packet) exec" where
  "vr_pkt_type buf offset fmd pkt =
     (let eth = unat (pkt_data pkt) + unat offset;
          plen = unat (pkt_head_len pkt) - unat offset
      in if unat (pkt_head_len pkt) < unat offset + VR_ETHER_HLEN then Done (False, fmd, pkt)
         else exec_bind (rd8 buf pkt eth) (\<lambda>b. exec_bind (rd16 buf pkt (eth + VR_ETHER_PROTO_OFF)) (\<lambda>eth_proto.
           let pkt = pkt_mark_multicast b pkt
           in if eth_proto = VR_ETH_PROTO_PBB
              then (if plen < VR_ETHER_HLEN + 4 \<or> plen < VR_ETHER_HLEN + 4 + VR_ETHER_HLEN then Done (False, fmd, pkt)
                    else Done (True, fmd, pkt\<lparr>vp_type := vr_eth_proto_to_pkt_type eth_proto\<rparr>))
              else exec_bind (pkt_vlan_loop buf pkt eth plen VR_ETHER_HLEN eth_proto fmd) (\<lambda>(r, fmd).
                case r of
                  None \<Rightarrow> Done (False, fmd, pkt)
                | Some (pull_len, eth_proto) \<Rightarrow>
                    let h = vp_data pkt + offset + of_nat pull_len;
                        pkt = pkt_set_inner_network_header (pkt_set_network_header pkt h) h
                    in Done (True, fmd, pkt\<lparr>vp_type := vr_eth_proto_to_pkt_type eth_proto\<rparr>)))))"

section \<open>Properties\<close>

text \<open>The VLAN of the metadata: what was noted stays, and what is noted has 12 bits.\<close>

definition vlan_noted :: "vr_forwarding_md option \<Rightarrow> vr_forwarding_md option \<Rightarrow> bool" where
  "vlan_noted fmd fmd' \<longleftrightarrow>
     (case fmd of
        None \<Rightarrow> fmd' = None
      | Some f \<Rightarrow> \<exists>v. fmd' = Some (f\<lparr>fmd_vlan := v\<rparr>) \<and> (v = fmd_vlan f \<or> fmd_vlan f = VLAN_ID_INVALID \<and> v < 0x1000))"

lemma vlan_noted_refl [simp]: "vlan_noted fmd fmd"
proof (cases fmd)
  case (Some f)
  then show ?thesis by (auto simp: vlan_noted_def intro!: exI [of _ "fmd_vlan f"])
qed (simp add: vlan_noted_def)

lemma vlan_12bit: "(t :: u16) AND 0xFFF < 0x1000"
proof -
  have "t AND 0xFFF = take_bit 12 t" by (simp add: take_bit_eq_mask mask_eq_exp_minus_1)
  moreover have "unat (take_bit 12 t) < 2 ^ 12" using take_bit_nat_less_exp [of 12 "unat t"] by (simp add: unsigned_take_bit_eq)
  ultimately show ?thesis by (simp add: word_less_nat_alt)
qed

lemma vlan_noted_step:
  "vlan_noted (map_option (\<lambda>fmd. if fmd_vlan fmd = VLAN_ID_INVALID then fmd\<lparr>fmd_vlan := t AND 0xFFF\<rparr> else fmd) fmd) fmd' \<Longrightarrow>
   vlan_noted fmd fmd'"
  using vlan_12bit [of t] by (cases fmd) (auto simp: vlan_noted_def VLAN_ID_INVALID_def split: if_splits)

lemma pkt_vlan_loop_safe:
  assumes "frame_ok buf pkt" "eth + plen \<le> unat (vp_tail pkt)" "pull_len \<le> plen"
  shows "\<exists>r fmd'. pkt_vlan_loop buf pkt eth plen pull_len proto fmd = Done (r, fmd') \<and> vlan_noted fmd fmd' \<and>
    (\<forall>l p. r = Some (l, p) \<longrightarrow> pull_len \<le> l \<and> l \<le> plen)"
  using assms
proof (induction buf pkt eth plen pull_len proto fmd rule: pkt_vlan_loop.induct)
  case (1 buf pkt eth plen pull_len proto fmd)
  show ?case
  proof (cases "proto \<noteq> VR_ETH_PROTO_VLAN \<or> plen < pull_len + 4")
    case True
    then show ?thesis using 1(4) by (subst pkt_vlan_loop.simps) auto
  next
    case False
    obtain t where t: "rd16 buf pkt (eth + pull_len) = Done t" using rd16_ok [OF 1(2), of "eth + pull_len"] 1(3) False by auto
    obtain q where q: "rd16 buf pkt (eth + pull_len + 2) = Done q" using rd16_ok [OF 1(2), of "eth + pull_len + 2"] 1(3) False by auto
    let ?f = "map_option (\<lambda>fmd. if fmd_vlan fmd = VLAN_ID_INVALID then fmd\<lparr>fmd_vlan := t AND 0xFFF\<rparr> else fmd) fmd"
    have step: "pkt_vlan_loop buf pkt eth plen pull_len proto fmd = pkt_vlan_loop buf pkt eth plen (pull_len + 4) q ?f"
      using False t q by (subst pkt_vlan_loop.simps) simp
    have "\<not> proto \<noteq> VR_ETH_PROTO_VLAN" "\<not> plen < pull_len + 4" "pull_len + 4 \<le> plen" using False by auto
    from 1(1) [OF this(1,2) t q 1(2,3) this(3)]
    obtain r fmd' where "pkt_vlan_loop buf pkt eth plen (pull_len + 4) q ?f = Done (r, fmd')" "vlan_noted ?f fmd'"
      "\<forall>l p. r = Some (l, p) \<longrightarrow> pull_len + 4 \<le> l \<and> l \<le> plen" by blast
    then show ?thesis using step vlan_noted_step [of t fmd fmd'] by auto
  qed
qed

lemma vr_pkt_type_parse:
  assumes "frame_ok buf pkt"
  shows "\<exists>ok fmd' pkt'. vr_pkt_type buf offset fmd pkt = Done (ok, fmd', pkt') \<and> vlan_noted fmd fmd' \<and>
    frame_ok buf pkt' \<and> vp_data pkt' = vp_data pkt \<and> vp_tail pkt' = vp_tail pkt \<and> vp_len pkt' = vp_len pkt \<and>
    vp_if pkt' = vp_if pkt \<and> vp_ttl pkt' = vp_ttl pkt \<and>
    (ok \<longrightarrow> unat offset + VR_ETHER_HLEN \<le> unat (vp_len pkt)) \<and>
    (ok \<and> vp_type pkt' \<noteq> VP_TYPE_PBB \<longrightarrow>
       unat (vp_data pkt) + unat offset + VR_ETHER_HLEN \<le> unat (vp_network_h pkt') \<and>
       unat (vp_network_h pkt') \<le> unat (vp_tail pkt) \<and> vp_inner_network_h pkt' = vp_network_h pkt')"
proof (cases "unat (vp_len pkt) < unat offset + VR_ETHER_HLEN")
  case True
  then show ?thesis using assms by (auto simp: vr_pkt_type_def Let_def pkt_head_len_def)
next
  case False
  let ?eth = "unat (vp_data pkt) + unat offset" and ?l = "unat (vp_len pkt) - unat offset"
  have w: "unat (vp_len pkt) = unat (vp_tail pkt) - unat (vp_data pkt)" "unat (vp_data pkt) \<le> unat (vp_tail pkt)"
    using assms by (simp_all add: frame_ok_def pkt_wf_def word_le_nat_alt)
  have b: "?eth + ?l \<le> unat (vp_tail pkt)" "VR_ETHER_HLEN \<le> ?l" using w False by simp_all
  have e: "?eth < unat (vp_tail pkt)" "?eth + VR_ETHER_PROTO_OFF + 2 \<le> unat (vp_tail pkt)"
    using b by (simp_all add: VR_ETHER_HLEN_def VR_ETHER_PROTO_OFF_def)
  obtain x where x: "rd8 buf pkt ?eth = Done x" using rd8_ok [OF assms e(1)] by blast
  obtain p where p: "rd16 buf pkt (?eth + VR_ETHER_PROTO_OFF) = Done p" using rd16_ok [OF assms e(2)] by blast
  define pk where "pk = pkt_mark_multicast x pkt"
  have pk: "vp_data pk = vp_data pkt" "vp_tail pk = vp_tail pkt" "vp_len pk = vp_len pkt" "vp_end pk = vp_end pkt"
    "vp_if pk = vp_if pkt" "vp_ttl pk = vp_ttl pkt"
    by (simp_all add: pk_def pkt_mark_multicast_def Let_def)
  have ok: "frame_ok buf pk" using assms pk by (simp add: frame_ok_def pkt_wf_def)
  obtain r fmd' where r: "pkt_vlan_loop buf pk ?eth ?l VR_ETHER_HLEN p fmd = Done (r, fmd')" "vlan_noted fmd fmd'"
    "\<forall>l q. r = Some (l, q) \<longrightarrow> VR_ETHER_HLEN \<le> l \<and> l \<le> ?l" using pkt_vlan_loop_safe [OF ok, of ?eth ?l VR_ETHER_HLEN p fmd] b pk by auto
  have lt: "unat (vp_tail pkt) < 65536" by (rule u16_less)
  have n: "unat (vp_data pkt + offset + of_nat l :: u16) = ?eth + l" if "l \<le> ?l" for l
    using that b(1) lt by (simp add: unat_word_ariths unat_of_nat take_bit_nat_eq_self)
  have run: "vr_pkt_type buf offset fmd pkt =
    (if p = VR_ETH_PROTO_PBB
     then (if ?l < VR_ETHER_HLEN + 4 \<or> ?l < VR_ETHER_HLEN + 4 + VR_ETHER_HLEN then Done (False, fmd, pk)
           else Done (True, fmd, pk\<lparr>vp_type := vr_eth_proto_to_pkt_type p\<rparr>))
     else case r of None \<Rightarrow> Done (False, fmd', pk)
          | Some (l, q) \<Rightarrow> let h = vp_data pk + offset + of_nat l
              in Done (True, fmd', (pkt_set_inner_network_header (pkt_set_network_header pk h) h)\<lparr>vp_type := vr_eth_proto_to_pkt_type q\<rparr>))"
    using False x p r(1)
    by (cases r) (simp_all add: vr_pkt_type_def Let_def pkt_head_len_def pkt_data_def pk_def [symmetric] split: prod.splits)
  show ?thesis
  proof (cases "p = VR_ETH_PROTO_PBB \<or> r = None")
    case True
    then show ?thesis using run ok pk False r(2)
      by (auto simp: frame_ok_def pkt_wf_def vr_eth_proto_to_pkt_type_def VR_ETH_PROTO_PBB_def VR_ETH_PROTO_IP_def VR_ETH_PROTO_IP6_def VR_ETH_PROTO_ARP_def)
  next
    case F: False
    then obtain l q where l: "r = Some (l, q)" by auto
    then have "VR_ETHER_HLEN \<le> l" "l \<le> ?l" using r(3) by auto
    then show ?thesis using run F l ok pk False n [of l] b(1) r(2)
      by (intro exI [of _ True]) (simp add: pkt_set_inner_network_header_def pkt_set_network_header_def frame_ok_def pkt_wf_def Let_def)
  qed
qed

text \<open>Whether a frame can be parsed does not depend on the metadata.\<close>

definition frame_parses :: "u8 list \<Rightarrow> u16 \<Rightarrow> vr_packet \<Rightarrow> bool" where
  "frame_parses buf offset pkt \<longleftrightarrow> (case vr_pkt_type buf offset None pkt of Done (ok, _, _) \<Rightarrow> ok | Fault \<Rightarrow> False)"

lemma pkt_vlan_loop_fmd:
  "pkt_vlan_loop buf pkt eth plen pull_len eth_proto fmd = Done (r, fmd') \<Longrightarrow>
   pkt_vlan_loop buf pkt eth plen pull_len eth_proto None = Done (r, None)"
proof (induction buf pkt eth plen pull_len eth_proto fmd rule: pkt_vlan_loop.induct)
  case (1 buf pkt eth plen pull_len eth_proto fmd)
  show ?case
  proof (cases "eth_proto \<noteq> VR_ETH_PROTO_VLAN \<or> plen < pull_len + 4")
    case True
    then show ?thesis using "1.prems" by (auto simp: pkt_vlan_loop.simps [of buf pkt eth plen pull_len])
  next
    case False
    then obtain a b where ab: "rd16 buf pkt (eth + pull_len) = Done a" "rd16 buf pkt (eth + pull_len + 2) = Done b"
      using "1.prems" by (auto simp: pkt_vlan_loop.simps [of buf pkt eth plen pull_len])
    then show ?thesis using "1.IH" [OF _ _ ab] "1.prems" False by (simp add: pkt_vlan_loop.simps [of buf pkt eth plen pull_len])
  qed
qed

lemma frame_parses_eq:
  assumes "vr_pkt_type buf offset fmd pkt = Done (ok, fmd', pkt')"
  shows "frame_parses buf offset pkt = ok"
proof -
  let ?eth = "unat (pkt_data pkt) + unat offset" and ?l = "unat (pkt_head_len pkt) - unat offset"
  have "\<exists>f. vr_pkt_type buf offset None pkt = Done (ok, f, pkt')"
  proof (cases "unat (pkt_head_len pkt) < unat offset + VR_ETHER_HLEN")
    case True
    then show ?thesis using assms by (simp add: vr_pkt_type_def)
  next
    case False
    then obtain b p where bp: "rd8 buf pkt ?eth = Done b" "rd16 buf pkt (?eth + VR_ETHER_PROTO_OFF) = Done p"
      using assms by (auto simp: vr_pkt_type_def Let_def)
    show ?thesis
    proof (cases "p = VR_ETH_PROTO_PBB")
      case True
      then show ?thesis using assms bp False by (auto simp: vr_pkt_type_def Let_def split: if_splits)
    next
      case vlan: False
      then obtain r f where r: "pkt_vlan_loop buf (pkt_mark_multicast b pkt) ?eth ?l VR_ETHER_HLEN p fmd = Done (r, f)"
        using assms bp False by (auto simp: vr_pkt_type_def Let_def)
      show ?thesis using assms bp False vlan r pkt_vlan_loop_fmd [OF r]
        by (cases r) (auto simp: vr_pkt_type_def Let_def)
    qed
  qed
  then show ?thesis by (auto simp: frame_parses_def)
qed

text \<open>C14: Parsing the ethernet header of any packet ends and never reads behind its tail, however many VLAN
  tags the packet claims to have. A packet that is accepted has at least an ethernet header, and
  unless it is a PBB frame, its network header lies behind the ethernet header and inside the packet.
  The VLAN noted in the metadata is the first tag, of 12 bits; one that was noted before stays.\<close>

theorem vr_pkt_type_safe:
  assumes "frame_ok buf pkt"
  shows "\<exists>ok fmd' pkt'. vr_pkt_type buf offset fmd pkt = Done (ok, fmd', pkt') \<and> vlan_noted fmd fmd' \<and>
    frame_ok buf pkt' \<and> vp_data pkt' = vp_data pkt \<and> vp_tail pkt' = vp_tail pkt \<and> vp_len pkt' = vp_len pkt \<and>
    vp_if pkt' = vp_if pkt \<and> vp_ttl pkt' = vp_ttl pkt \<and>
    (ok \<longrightarrow> unat offset + VR_ETHER_HLEN \<le> unat (vp_len pkt)) \<and>
    (ok \<and> vp_type pkt' \<noteq> VP_TYPE_PBB \<longrightarrow>
       unat (vp_data pkt) + unat offset + VR_ETHER_HLEN \<le> unat (vp_network_h pkt') \<and>
       unat (vp_network_h pkt') \<le> unat (vp_tail pkt) \<and> vp_inner_network_h pkt' = vp_network_h pkt')"
  by (rule vr_pkt_type_parse [OF assms])

theorem vr_pkt_type_safe_witness:
  "\<exists>ok fmd' pkt'. vr_pkt_type (replicate 2048 0) 0 None ex_pkt = Done (ok, fmd', pkt') \<and> fmd' = None"
proof -
  have "frame_ok (replicate 2048 0) ex_pkt" by (simp add: frame_ok_def pkt_wf_def ex_pkt_def word_le_nat_alt)
  from vr_pkt_type_safe [OF this, of 0 None] show ?thesis by (auto simp: vlan_noted_def)
qed

end
