(* ===== verification/VR_Mpls.thy ===== *)
theory VR_Mpls
  imports VR_Nh_Maps VR_Frame
begin

text \<open>
  \<^verbatim>\<open>dp-core/vr_mpls.c\<close>: the label table and the input of labelled packets. The label table is a big
  table of pointers to nexthops; a label holds a reference to its nexthop. \<open>vrouter_get\<close> always
  returns the one router, so that the checks for a missing one are left out. The offload driver is
  a parameter: \<open>off\<close> is its answer to a new label. The calls into the host that program packet filters
  change nothing here.
\<close>

section \<open>The label table\<close>

record ilm_state =
  vr_max_labels :: u32
  vr_ilm :: "vr_btable option"
  ilm_cells :: "addr \<Rightarrow> nh_ptr"
  ilm_nh :: nh_state

text \<open>\<open>__vrouter_get_label\<close>: the address is dereferenced without a check.\<close>

definition vrouter_get_label :: "u32 \<Rightarrow> ilm_state \<Rightarrow> nh_ptr exec" where
  "vrouter_get_label label st =
     (if vr_max_labels st \<le> label then Done 0
      else case vr_ilm st of
             None \<Rightarrow> Fault
           | Some t \<Rightarrow> (case vr_btable_get t label of None \<Rightarrow> Fault | Some a \<Rightarrow> Done (ilm_cells st a)))"

definition vrouter_set_label :: "u32 \<Rightarrow> nh_ptr \<Rightarrow> ilm_state \<Rightarrow> (vr_ret \<times> ilm_state) exec" where
  "vrouter_set_label label nh st =
     (case vr_ilm st of
        None \<Rightarrow> Fault
      | Some t \<Rightarrow> (case vr_btable_get t label of
                    None \<Rightarrow> Done (RetErr EINVAL, st)
                  | Some a \<Rightarrow> Done (RetOk, st\<lparr>ilm_cells := (ilm_cells st)(a := nh)\<rparr>)))"

text \<open>\<open>__vr_mpls_del\<close>: the reference is dropped before the slot is cleared.\<close>

definition vr_mpls_del_raw :: "u32 \<Rightarrow> ilm_state \<Rightarrow> (vr_ret \<times> ilm_state) exec" where
  "vr_mpls_del_raw label st =
     exec_bind (vrouter_get_label label st) (\<lambda>nh.
       vrouter_set_label label 0
         (if nh = 0 then st else st\<lparr>ilm_nh := vrouter_put_nexthop nh (ilm_nh st)\<rparr>))"

definition vr_mpls_del :: "u32 \<Rightarrow> ilm_state \<Rightarrow> (vr_ret \<times> ilm_state) exec" where
  "vr_mpls_del label st =
     (if vr_max_labels st \<le> label then Done (RetErr EINVAL, st) else vr_mpls_del_raw label st)"

definition vr_mpls_add :: "(nh_ptr \<Rightarrow> u32 \<Rightarrow> vr_ret) \<Rightarrow> u32 \<Rightarrow> u32 \<Rightarrow> ilm_state \<Rightarrow> (vr_ret \<times> ilm_state) exec" where
  "vr_mpls_add off label nhid st =
     (if vr_max_labels st \<le> label then Done (RetErr EINVAL, st)
      else exec_bind (vr_mpls_del_raw label st) (\<lambda>(ret, st).
        if ret \<noteq> RetOk then Done (ret, st)
        else case vrouter_get_nexthop nhid (ilm_nh st) of (nh, s) \<Rightarrow>
          let st = st\<lparr>ilm_nh := s\<rparr>
          in if nh = 0 then Done (RetErr EINVAL, st)
             else exec_bind (vrouter_set_label label nh st) (\<lambda>(ret, st).
               if ret \<noteq> RetOk then Done (ret, st\<lparr>ilm_nh := vrouter_put_nexthop nh (ilm_nh st)\<rparr>)
               else let ret = off nh label
                    in if ret \<noteq> RetOk then exec_bind (vr_mpls_del_raw label st) (\<lambda>(_, st). Done (ret, st))
                       else Done (ret, st))))"

text \<open>The answers to get and dump requests: the label with the number of its nexthop. \<open>room n\<close> tells whether
  the message takes one more object after \<open>n\<close>, and \<open>dok\<close> whether the dump can be set up.\<close>

definition vr_mpls_make_req :: "ilm_state \<Rightarrow> nh_ptr \<Rightarrow> u32 \<Rightarrow> u32 \<times> u32" where
  "vr_mpls_make_req st nh label = (label, nh_id (nh_heap (ilm_nh st) ! nh))"

definition vr_mpls_get :: "u32 \<Rightarrow> ilm_state \<Rightarrow> (vr_ret \<times> (u32 \<times> u32) option) exec" where
  "vr_mpls_get label st =
     (if vr_max_labels st \<le> label then Done (RetErr EINVAL, None)
      else exec_bind (vrouter_get_label label st) (\<lambda>nh.
        if nh = 0 then Done (RetErr ENOENT, None) else Done (RetOk, Some (vr_mpls_make_req st nh label))))"

fun mpls_dump_loop :: "(nat \<Rightarrow> bool) \<Rightarrow> ilm_state \<Rightarrow> u32 list \<Rightarrow> (u32 \<times> u32) list \<Rightarrow> (u32 \<times> u32) list exec" where
  "mpls_dump_loop room st [] out = Done out"
| "mpls_dump_loop room st (i # is) out =
     exec_bind (vrouter_get_label i st) (\<lambda>nh.
       if nh = 0 then mpls_dump_loop room st is out
       else if \<not> room (length out) then Done out
       else mpls_dump_loop room st is (out @ [vr_mpls_make_req st nh i]))"

definition vr_mpls_dump :: "(nat \<Rightarrow> bool) \<Rightarrow> bool \<Rightarrow> u32 \<Rightarrow> ilm_state \<Rightarrow> (u32 \<times> u32) list exec" where
  "vr_mpls_dump room dok marker st =
     (if vr_max_labels st \<le> marker + 1 \<or> \<not> dok then Done []
      else mpls_dump_loop room st (map of_nat [unat (marker + 1)..<unat (vr_max_labels st)]) [])"

definition vr_mpls_exit_loop :: "nat \<Rightarrow> ilm_state exec \<Rightarrow> ilm_state exec" where
  "vr_mpls_exit_loop i r =
     exec_bind r (\<lambda>st. exec_bind (vrouter_get_label (of_nat i) st) (\<lambda>nh.
       if nh = 0 then Done st
       else exec_bind (vrouter_set_label (of_nat i) 0 (st\<lparr>ilm_nh := vrouter_put_nexthop nh (ilm_nh st)\<rparr>)) (\<lambda>(_, st). Done st)))"

definition vr_mpls_exit :: "bool \<Rightarrow> ilm_state \<Rightarrow> ilm_state exec" where
  "vr_mpls_exit soft_reset st =
     (if vr_max_labels st = 0 \<or> vr_ilm st = None then Done st
      else exec_bind (fold vr_mpls_exit_loop [0..<unat (vr_max_labels st)] (Done st)) (\<lambda>st.
        Done (if soft_reset then st else st\<lparr>vr_ilm := None, vr_max_labels := 0\<rparr>)))"

text \<open>\<open>vr_mpls_init\<close>; \<open>z\<close> and \<open>page\<close> are the outcomes of the allocations, and the memory is zeroed.\<close>

definition vr_mpls_init :: "bool \<Rightarrow> (nat \<Rightarrow> chunk option) \<Rightarrow> u32 \<Rightarrow> ilm_state \<Rightarrow> vr_ret \<times> ilm_state" where
  "vr_mpls_init z page vr_mpls_labels st =
     (if vr_ilm st \<noteq> None then (RetOk, st)
      else let st = st\<lparr>vr_max_labels := vr_mpls_labels, vr_ilm := vr_btable_alloc z page vr_mpls_labels 8, ilm_cells := (\<lambda>_. 0)\<rparr>
           in if vr_ilm st = None then (RetErr ENOMEM, st) else (RetOk, st))"

text \<open>\<open>vr_mpls_req_process\<close>: the answer that is sent, and the state.\<close>

datatype sandesh_op = SANDESH_OP_ADD | SANDESH_OP_GET | SANDESH_OP_DUMP | SANDESH_OP_DEL | SANDESH_OP_OTHER

datatype tbl_reply = ReplyRet vr_ret | ReplyObj vr_ret "(u32 \<times> u32) option" | ReplyDump "(u32 \<times> u32) list" | ReplyNone

record vr_mpls_req =
  mr_op :: sandesh_op
  mr_label :: u32
  mr_nhid :: u32
  mr_marker :: u32

definition vr_mpls_req_process ::
  "(nh_ptr \<Rightarrow> u32 \<Rightarrow> vr_ret) \<Rightarrow> (nat \<Rightarrow> bool) \<Rightarrow> bool \<Rightarrow> vr_mpls_req \<Rightarrow> ilm_state \<Rightarrow> (tbl_reply \<times> ilm_state) exec" where
  "vr_mpls_req_process off room dok req st =
     (case mr_op req of
        SANDESH_OP_ADD \<Rightarrow> exec_bind (vr_mpls_add off (mr_label req) (mr_nhid req) st) (\<lambda>(ret, st). Done (ReplyRet ret, st))
      | SANDESH_OP_GET \<Rightarrow> exec_bind (vr_mpls_get (mr_label req) st) (\<lambda>(ret, ob). Done (ReplyObj ret ob, st))
      | SANDESH_OP_DUMP \<Rightarrow> exec_bind (vr_mpls_dump room dok (mr_marker req) st) (\<lambda>out. Done (ReplyDump out, st))
      | SANDESH_OP_DEL \<Rightarrow> exec_bind (vr_mpls_del (mr_label req) st) (\<lambda>(ret, st). Done (ReplyRet ret, st))
      | SANDESH_OP_OTHER \<Rightarrow> Done (ReplyNone, st))"

section \<open>Input of a labelled packet\<close>

definition VR_MPLS_LABEL_SHIFT :: nat where "VR_MPLS_LABEL_SHIFT = 12"
definition VR_MPLS_HDR_LEN :: u32 where "VR_MPLS_HDR_LEN = 4"
definition VR_MAX_UCAST_LABELS :: u32 where "VR_MAX_UCAST_LABELS = 1024"
definition VR_MPLS_LABEL_STACK_BIT_MASK :: u32 where "VR_MPLS_LABEL_STACK_BIT_MASK = 0x100"
definition VR_MPLS_LABEL_MASK :: u32 where "VR_MPLS_LABEL_MASK = 0xFFFFF"
definition VR_L2_CTRL_DATA :: u32 where "VR_L2_CTRL_DATA = 0x0000"
definition VR_L2_CTRL_DATA_LEN :: u32 where "VR_L2_CTRL_DATA_LEN = 4"
definition VR_VXLAN_HDR_LEN :: u16 where "VR_VXLAN_HDR_LEN = 36"
definition NH_FLAG_L2_CONTROL_DATA :: u32 where "NH_FLAG_L2_CONTROL_DATA = 0x800000"
definition VP_FLAG_GRO :: u16 where "VP_FLAG_GRO = 0x40"

datatype drop_reason =
     VP_DROP_INVALID | VP_DROP_DISCARD | VP_DROP_PULL | VP_DROP_INVALID_IF | VP_DROP_INVALID_ARP | VP_DROP_TRAP_NO_IF
    | VP_DROP_NOWHERE_TO_GO | VP_DROP_FLOW_QUEUE_LIMIT_EXCEEDED | VP_DROP_FLOW_NO_MEMORY
    | VP_DROP_FLOW_INVALID_PROTOCOL | VP_DROP_FLOW_NAT_NO_RFLOW | VP_DROP_FLOW_ACTION_DROP
    | VP_DROP_FLOW_ACTION_INVALID | VP_DROP_FLOW_UNUSABLE | VP_DROP_FLOW_TABLE_FULL | VP_DROP_INTERFACE_TX_DISCARD
    | VP_DROP_INTERFACE_DROP | VP_DROP_DUPLICATED | VP_DROP_PUSH | VP_DROP_TTL_EXCEEDED | VP_DROP_INVALID_NH
    | VP_DROP_INVALID_LABEL | VP_DROP_INVALID_PROTOCOL | VP_DROP_INTERFACE_RX_DISCARD | VP_DROP_INVALID_MCAST_SOURCE
    | VP_DROP_HEAD_ALLOC_FAIL | VP_DROP_PCOW_FAIL | VP_DROP_MCAST_DF_BIT | VP_DROP_MCAST_CLONE_FAIL
    | VP_DROP_NO_MEMORY | VP_DROP_REWRITE_FAIL | VP_DROP_MISC | VP_DROP_INVALID_PACKET | VP_DROP_CKSUM_ERR
    | VP_DROP_NO_FMD | VP_DROP_CLONED_ORIGINAL | VP_DROP_INVALID_VNID | VP_DROP_FRAGMENTS | VP_DROP_INVALID_SOURCE
    | VP_DROP_L2_NO_ROUTE | VP_DROP_FRAGMENT_QUEUE_FAIL | VP_DROP_VLAN_FWD_TX | VP_DROP_VLAN_FWD_ENQ
    | VP_DROP_NEW_FLOWS | VP_DROP_FLOW_EVICT | VP_DROP_TRAP_ORIGINAL | VP_DROP_LEAF_TO_LEAF
    | VP_DROP_BMAC_ISID_MISMATCH | VP_DROP_PKT_LOOP | VP_DROP_NO_CRYPT_PATH | VP_DROP_INVALID_HBS_PKT
    | VP_DROP_NO_FRAG_ENTRY | VP_DROP_ICMP_ERROR | VP_DROP_CLONE_FAIL | VP_DROP_INVALID_UNDERLAY_ECMP

datatype mpls_tunnel = PKT_MPLS_TUNNEL_L3 | PKT_MPLS_TUNNEL_L2_MCAST | PKT_MPLS_TUNNEL_L2_CONTROL_DATA | PKT_MPLS_TUNNEL_L2_UCAST

definition vr_mpls_tunnel_type :: "u32 \<Rightarrow> ilm_state \<Rightarrow> (drop_reason + mpls_tunnel) exec" where
  "vr_mpls_tunnel_type label st =
     (let label = drop_bit VR_MPLS_LABEL_SHIFT label
      in if vr_max_labels st \<le> label then Done (Inl VP_DROP_INVALID_LABEL)
         else exec_bind (vrouter_get_label label st) (\<lambda>p.
           if p = 0 then Done (Inl VP_DROP_INVALID_LABEL)
           else let nh = nh_heap (ilm_nh st) ! p
                in Done (case nh_family nh of
                     AF_INET \<Rightarrow> Inr PKT_MPLS_TUNNEL_L3
                   | AF_BRIDGE \<Rightarrow>
                       (if nh_type nh = NH_COMPOSITE \<and> VR_MAX_UCAST_LABELS \<le> label then Inr PKT_MPLS_TUNNEL_L2_MCAST
                        else if nh_flags nh AND NH_FLAG_L2_CONTROL_DATA \<noteq> 0 then Inr PKT_MPLS_TUNNEL_L2_CONTROL_DATA
                        else Inr PKT_MPLS_TUNNEL_L2_UCAST)
                   | _ \<Rightarrow> Inl VP_DROP_INVALID_NH)))"

text \<open>
  What becomes of a packet: it is dropped with a reason, or handed to \<open>nh_output\<close> with a nexthop, the
  metadata and the packet. \<open>vif_vrf\<close> gives the VRF of an interface, \<open>host\<close> is the host's function for
  a network header outside of the first buffer.
\<close>

datatype input_result = InDrop drop_reason | InOutput nh_ptr vr_forwarding_md vr_packet

definition nh_dvrf :: "(nat \<Rightarrow> u16) \<Rightarrow> vr_nexthop \<Rightarrow> vr_packet \<Rightarrow> u16 exec" where
  "nh_dvrf vif_vrf nh pkt =
     (if 0 \<le> nh_vrf nh then Done (of_int (nh_vrf nh))
      else if nh_dev_arr nh \<noteq> [] \<and> nh_dev_arr nh ! 0 \<noteq> 0 then Done (vif_vrf (nh_dev_arr nh ! 0))
      else case vp_if pkt of None \<Rightarrow> Fault | Some vif \<Rightarrow> Done (vif_vrf vif))"

text \<open>The address family of the nexthop decides what is inside.\<close>

definition mpls_inner ::
  "u8 list \<Rightarrow> u32 \<Rightarrow> vr_nexthop \<Rightarrow> vr_forwarding_md \<Rightarrow> vr_packet \<Rightarrow> (drop_reason + vr_forwarding_md \<times> vr_packet) exec" where
  "mpls_inner buf label nh fmd pkt =
     (case nh_family nh of
        AF_INET \<Rightarrow>
          exec_bind (rd8 buf pkt (unat (vp_data pkt))) (\<lambda>b.
            let ver = drop_bit 4 b;
                set = (\<lambda>ty. pkt_set_inner_network_header (pkt_set_network_header (pkt\<lparr>vp_type := ty\<rparr>) (vp_data pkt)) (vp_data pkt))
            in if ver = 4 then Done (Inr (fmd, set VP_TYPE_IP))
               else if ver = 6 then Done (Inr (fmd, set VP_TYPE_IP6))
               else Done (Inl VP_DROP_INVALID_PROTOCOL))
      | AF_BRIDGE \<Rightarrow>
          let ctrl = nh_flags nh AND NH_FLAG_L2_CONTROL_DATA \<noteq> 0;
              mcast = nh_type nh = NH_COMPOSITE \<and> VR_MAX_UCAST_LABELS \<le> label;
              fmd = (if ctrl then vr_fmd_update_l2_control_data True fmd else fmd);
              l2_offset = (if mcast then VR_VXLAN_HDR_LEN else 0);
              parse = (\<lambda>pkt. exec_bind (vr_pkt_type buf l2_offset (Some fmd) pkt) (\<lambda>(ok, fmd', pkt).
                        if ok then Done (Inr (the fmd', pkt)) else Done (Inl VP_DROP_INVALID_PACKET)))
          in if \<not> (ctrl \<or> mcast) then parse pkt
             else exec_bind (rd32_raw buf pkt (unat (vp_data pkt))) (\<lambda>w.
               if w \<noteq> VR_L2_CTRL_DATA then Done (Inl VP_DROP_INVALID_PACKET)
               else case pkt_pull pkt VR_L2_CTRL_DATA_LEN of
                      (None, _) \<Rightarrow> Done (Inl VP_DROP_PULL)
                    | (Some _, pkt) \<Rightarrow> parse pkt)
      | _ \<Rightarrow> Done (Inl VP_DROP_INVALID_NH))"

text \<open>From the top label on.\<close>

definition mpls_forward ::
  "u8 list \<Rightarrow> (vr_packet \<Rightarrow> u16 option) \<Rightarrow> (nat \<Rightarrow> u16) \<Rightarrow> bool \<Rightarrow> u32 \<Rightarrow> vr_forwarding_md \<Rightarrow> vr_packet \<Rightarrow> ilm_state \<Rightarrow> input_result exec" where
  "mpls_forward buf host vif_vrf vr_perfr word fmd pkt st =
     (let ttl = word AND 0xFF; label = drop_bit VR_MPLS_LABEL_SHIFT word
      in if vr_max_labels st \<le> label then Done (InDrop VP_DROP_INVALID_LABEL)
         else if ttl \<le> 1 then Done (InDrop VP_DROP_TTL_EXCEEDED)
         else case pkt_network_header host pkt of
           None \<Rightarrow> Fault
         | Some h \<Rightarrow> exec_bind (rd32_raw buf pkt (unat h + 12)) (\<lambda>saddr.
             let fmd = vr_fmd_set_label label VR_LABEL_TYPE_MPLS (fmd\<lparr>fmd_outer_src_ip := saddr\<rparr>);
                 pkt = pkt\<lparr>vp_ttl := ucast (ttl - 1)\<rparr>
             in case pkt_pull pkt VR_MPLS_HDR_LEN of
                  (None, _) \<Rightarrow> Done (InDrop VP_DROP_PULL)
                | (Some _, pkt) \<Rightarrow>
                    exec_bind (if fmd_fe fmd = None then vrouter_get_label label st
                               else Done (case vp_nh pkt of None \<Rightarrow> 0 | Some p \<Rightarrow> p)) (\<lambda>p.
                      if p = 0 then (if fmd_fe fmd = None then Done (InDrop VP_DROP_INVALID_LABEL) else Fault)
                      else let nh = nh_heap (ilm_nh st) ! p;
                               pkt = (if vr_perfr then pkt\<lparr>vp_flags := vp_flags pkt OR VP_FLAG_GRO\<rparr> else pkt);
                               pkt = pkt\<lparr>vp_flags := vp_flags pkt AND NOT VP_FLAG_MULTICAST\<rparr>;
                               fmd = fmd\<lparr>fmd_vlan := VLAN_ID_INVALID\<rparr>
                           in exec_bind (mpls_inner buf label nh fmd pkt) (\<lambda>r.
                                case r of
                                  Inl reason \<Rightarrow> Done (InDrop reason)
                                | Inr (fmd, pkt) \<Rightarrow> exec_bind (nh_dvrf vif_vrf nh pkt) (\<lambda>v.
                                    Done (InOutput p (fmd\<lparr>fmd_dvrf := v\<rparr>) pkt))))))"

definition vr_mpls_input ::
  "u8 list \<Rightarrow> (vr_packet \<Rightarrow> u16 option) \<Rightarrow> (nat \<Rightarrow> u16) \<Rightarrow> bool \<Rightarrow> vr_forwarding_md option \<Rightarrow> vr_packet \<Rightarrow> ilm_state \<Rightarrow> input_result exec" where
  "vr_mpls_input buf host vif_vrf vr_perfr fmd pkt st =
     (let fmd = (case fmd of None \<Rightarrow> vr_init_forwarding_md | Some fmd \<Rightarrow> fmd)
      in exec_bind (rd32 buf pkt (unat (vp_data pkt))) (\<lambda>label.
           if label AND VR_MPLS_LABEL_STACK_BIT_MASK = 0 \<and> drop_bit VR_MPLS_LABEL_SHIFT label = VR_MPLS_LABEL_MASK
           then (case pkt_pull pkt VR_MPLS_HDR_LEN of
                   (None, _) \<Rightarrow> Done (InDrop VP_DROP_PULL)
                 | (Some _, pkt) \<Rightarrow> exec_bind (rd32 buf pkt (unat (vp_data pkt))) (\<lambda>label.
                     mpls_forward buf host vif_vrf vr_perfr label fmd pkt st))
           else mpls_forward buf host vif_vrf vr_perfr label fmd pkt st))"

end
