(* ===== verification/VR_Itable.thy ===== *)
theory VR_Itable
  imports VR_Prelude
begin

text \<open>
  \<^verbatim>\<open>dp-core/vr_index_table.c\<close>: a multi level table indexed by an integer of at most 32 bits. The
  index is cut into strides; each level is an array of pointers to the next level, the last
  level holds the caller's data. Levels are allocated by \<open>vr_itable_set\<close> when they are first
  needed and freed by \<open>vr_itable_del\<close> when they have become empty.
\<close>

section \<open>Data\<close>

text \<open>A \<open>void *\<close> slot of a stride: NULL, a pointer to the next stride, or the caller's data.\<close>

datatype 'a islot = INull | IStride "'a islot list" | IData 'a

record 'a vr_itbl =
  stride_cnt :: nat
  index_len :: nat
  stride_len :: "u32 list"
  stride_shift :: "nat list"
  itbl_data :: "'a islot"

text \<open>What \<open>vr_itable_set\<close> returns: \<open>VR_ITABLE_ERR_PTR\<close> or the previous entry.\<close>

datatype 'a itbl_ret = ItErr | ItOld "'a option"

fun slot_data :: "'a islot \<Rightarrow> 'a option" where
  "slot_data (IData d) = Some d"
| "slot_data _ = None"

primrec data_slot :: "'a option \<Rightarrow> 'a islot" where
  "data_slot None = INull"
| "data_slot (Some d) = IData d"

text \<open>The expression \<open>(index >> stride_shift[i]) & (stride_len[i] - 1)\<close>.\<close>

definition itbl_id :: "'a vr_itbl \<Rightarrow> u32 \<Rightarrow> nat \<Rightarrow> nat" where
  "itbl_id t idx i = unat (drop_bit (stride_shift t ! i) idx AND (stride_len t ! i - 1))"

section \<open>Operations\<close>

text \<open>
  \<open>vr_itable_create\<close>: the loop over the stride widths \<open>ws\<close> (the variable arguments), with
  \<open>tot\<close> the bits used so far. \<open>page_shift\<close> is the value of \<open>get_page_shift\<close>, which the
  platform gives.
\<close>

fun itbl_strides :: "nat \<Rightarrow> nat \<Rightarrow> nat \<Rightarrow> nat list \<Rightarrow> (u32 list \<times> nat list) option" where
  "itbl_strides page_shift ilen tot [] = (if tot = ilen then Some ([], []) else None)"
| "itbl_strides page_shift ilen tot (w # ws) =
     (if page_shift < w then None
      else if ilen < tot + w then None
      else case itbl_strides page_shift ilen (tot + w) ws of
             None \<Rightarrow> None
           | Some (lens, shifts) \<Rightarrow> Some (shl1 w # lens, (ilen - (tot + w)) # shifts))"

definition vr_itable_create :: "alloc_sched \<Rightarrow> nat \<Rightarrow> nat \<Rightarrow> nat list \<Rightarrow> 'a vr_itbl option" where
  "vr_itable_create ok page_shift ilen ws =
     (if 32 < ilen then None
      else if length ws < 2 then None
      else if \<not> (ok 0 \<and> ok 1 \<and> ok 2) then None
      else case itbl_strides page_shift ilen 0 ws of
             None \<Rightarrow> None
           | Some (lens, shifts) \<Rightarrow>
               Some \<lparr>stride_cnt = length ws, index_len = ilen, stride_len = lens,
                     stride_shift = shifts, itbl_data = INull\<rparr>)"

text \<open>The descent of \<open>vr_itable_get\<close>; \<open>n\<close> strides are left, \<open>i\<close> is the current one.\<close>

fun itbl_get_loop :: "'a vr_itbl \<Rightarrow> u32 \<Rightarrow> nat \<Rightarrow> nat \<Rightarrow> 'a islot \<Rightarrow> 'a islot" where
  "itbl_get_loop t idx (Suc n) i (IStride xs) = itbl_get_loop t idx n (Suc i) (xs ! itbl_id t idx i)"
| "itbl_get_loop t idx n i p = p"

definition vr_itable_get :: "'a vr_itbl option \<Rightarrow> u32 \<Rightarrow> 'a option" where
  "vr_itable_get tb idx =
     (case tb of None \<Rightarrow> None
      | Some t \<Rightarrow> slot_data (itbl_get_loop t idx (stride_cnt t) 0 (itbl_data t)))"

text \<open>
  The descent of \<open>vr_itable_set\<close> below a stride: \<open>n\<close> is the number of strides below stride
  \<open>i\<close>, \<open>k\<close> counts the allocations made so far. A failed allocation leaves the strides
  allocated before it in place.
\<close>

fun itbl_set_loop :: "'a vr_itbl \<Rightarrow> u32 \<Rightarrow> 'a option \<Rightarrow> alloc_sched \<Rightarrow> nat \<Rightarrow> nat \<Rightarrow> nat \<Rightarrow>
    'a islot list \<Rightarrow> 'a itbl_ret \<times> 'a islot list" where
  "itbl_set_loop t idx d ok k 0 i xs =
     (let id = itbl_id t idx i in (ItOld (slot_data (xs ! id)), xs[id := data_slot d]))"
| "itbl_set_loop t idx d ok k (Suc n) i xs =
     (let id = itbl_id t idx i
      in case xs ! id of
           IStride ys \<Rightarrow>
             (let (r, ys') = itbl_set_loop t idx d ok k n (Suc i) ys in (r, xs[id := IStride ys']))
         | _ \<Rightarrow>
             if ok k then
               (let (r, ys') = itbl_set_loop t idx d ok (Suc k) n (Suc i)
                                 (replicate (unat (stride_len t ! Suc i)) INull)
                in (r, xs[id := IStride ys']))
             else (ItErr, xs))"

definition vr_itable_set ::
    "alloc_sched \<Rightarrow> 'a vr_itbl option \<Rightarrow> u32 \<Rightarrow> 'a option \<Rightarrow> 'a itbl_ret \<times> 'a vr_itbl option" where
  "vr_itable_set ok tb idx d =
     (case tb of None \<Rightarrow> (ItErr, None)
      | Some t \<Rightarrow>
          (case itbl_data t of
             IStride xs \<Rightarrow>
               (let (r, xs') = itbl_set_loop t idx d ok 0 (stride_cnt t - 1) 0 xs
                in (r, Some (t\<lparr>itbl_data := IStride xs'\<rparr>)))
           | _ \<Rightarrow>
               if ok 0 then
                 (let (r, xs') = itbl_set_loop t idx d ok 1 (stride_cnt t - 1) 0
                                   (replicate (unat (stride_len t ! 0)) INull)
                  in (r, Some (t\<lparr>itbl_data := IStride xs'\<rparr>)))
               else (ItErr, Some t)))"

definition vr_stride_empty :: "'a islot list \<Rightarrow> bool" where
  "vr_stride_empty xs \<longleftrightarrow> list_all (\<lambda>x. case x of INull \<Rightarrow> True | _ \<Rightarrow> False) xs"

text \<open>
  \<open>__vr_itable_del\<close> on a stride: the old entry and the stride afterwards, \<open>INull\<close> when the
  stride has become empty and was freed (return value 1).
\<close>

fun itbl_del_loop :: "'a vr_itbl \<Rightarrow> u32 \<Rightarrow> nat \<Rightarrow> nat \<Rightarrow> 'a islot list \<Rightarrow> 'a option \<times> 'a islot" where
  "itbl_del_loop t idx 0 i xs =
     (let id = itbl_id t idx i; old = slot_data (xs ! id)
      in if old = None then (None, IStride xs)
         else let xs' = xs[id := INull]
              in (old, if vr_stride_empty xs' then INull else IStride xs'))"
| "itbl_del_loop t idx (Suc n) i xs =
     (let id = itbl_id t idx i
      in case xs ! id of
           IStride ys \<Rightarrow>
             (let (old, p) = itbl_del_loop t idx n (Suc i) ys
              in case p of
                   INull \<Rightarrow>
                     (let xs' = xs[id := INull]
                      in (old, if vr_stride_empty xs' then INull else IStride xs'))
                 | _ \<Rightarrow> (old, IStride (xs[id := p])))
         | _ \<Rightarrow> (None, IStride xs))"

definition vr_itable_del :: "'a vr_itbl option \<Rightarrow> u32 \<Rightarrow> 'a option \<times> 'a vr_itbl option" where
  "vr_itable_del tb idx =
     (case tb of None \<Rightarrow> (None, None)
      | Some t \<Rightarrow>
          (case itbl_data t of
             IStride xs \<Rightarrow>
               (let (old, p) = itbl_del_loop t idx (stride_cnt t - 1) 0 xs
                in (old, Some (t\<lparr>itbl_data := p\<rparr>)))
           | _ \<Rightarrow> (None, Some t)))"

text \<open>
  \<open>__vr_itable_dump\<close>: the callback gets an index and its data and threads the user data
  \<open>'s\<close>; a result that is not positive stops the traversal. \<open>j\<close> is the position in the
  stride, \<open>base\<close> the index bits of the strides above.
\<close>

fun itbl_dump :: "(u32 \<Rightarrow> 'a \<Rightarrow> 's \<Rightarrow> int \<times> 's) \<Rightarrow> 'a vr_itbl \<Rightarrow> u32 \<Rightarrow> nat \<Rightarrow> u32 \<Rightarrow> nat \<Rightarrow>
    'a islot list \<Rightarrow> int \<Rightarrow> 's \<Rightarrow> int \<times> 's" where
  "itbl_dump f t marker i base j [] res s = (res, s)"
| "itbl_dump f t marker i base j (x # xs) res s =
     (let idx = base OR push_bit (stride_shift t ! i) (of_nat j)
      in case x of
           INull \<Rightarrow> itbl_dump f t marker i base (Suc j) xs res s
         | IData d \<Rightarrow>
             (if marker \<le> idx then
                (let (r, s') = f idx d s
                 in if r \<le> 0 then (r, s') else itbl_dump f t marker i base (Suc j) xs r s')
              else itbl_dump f t marker i base (Suc j) xs res s)
         | IStride ys \<Rightarrow>
             (let (r, s') = itbl_dump f t marker (Suc i) idx 0 ys 1 s
              in if r \<le> 0 then (r, s') else itbl_dump f t marker i base (Suc j) xs r s'))"

definition vr_itable_trav ::
    "'a vr_itbl option \<Rightarrow> (u32 \<Rightarrow> 'a \<Rightarrow> 's \<Rightarrow> int \<times> 's) \<Rightarrow> u32 \<Rightarrow> 's \<Rightarrow> (int \<times> 's) exec" where
  "vr_itable_trav tb f marker s =
     (case tb of None \<Rightarrow> Fault
      | Some t \<Rightarrow>
          (case itbl_data t of
             IStride xs \<Rightarrow> Done (itbl_dump f t marker 0 0 0 xs 1 s)
           | _ \<Rightarrow> Done (1, s)))"

text \<open>
  \<open>vr_itable_delete\<close> calls the destructor on every entry in index order and frees every
  stride; the model returns the destructor's arguments.
\<close>

fun itbl_exit :: "'a vr_itbl \<Rightarrow> nat \<Rightarrow> u32 \<Rightarrow> nat \<Rightarrow> 'a islot list \<Rightarrow> (u32 \<times> 'a) list" where
  "itbl_exit t i base j [] = []"
| "itbl_exit t i base j (x # xs) =
     (let idx = base OR push_bit (stride_shift t ! i) (of_nat j)
      in (case x of INull \<Rightarrow> [] | IData d \<Rightarrow> [(idx, d)] | IStride ys \<Rightarrow> itbl_exit t (Suc i) idx 0 ys)
         @ itbl_exit t i base (Suc j) xs)"

definition vr_itable_delete :: "'a vr_itbl option \<Rightarrow> (u32 \<times> 'a) list" where
  "vr_itable_delete tb =
     (case tb of Some t \<Rightarrow> (case itbl_data t of IStride xs \<Rightarrow> itbl_exit t 0 0 0 xs | _ \<Rightarrow> [])
      | None \<Rightarrow> [])"

section \<open>Geometry of the strides\<close>

definition stride_id :: "u32 \<Rightarrow> nat \<Rightarrow> u32 \<Rightarrow> nat" where
  "stride_id len sh idx = unat (drop_bit sh idx AND (len - 1))"

lemma itbl_id_stride: "itbl_id t idx i = stride_id (stride_len t ! i) (stride_shift t ! i) idx"
  by (simp add: itbl_id_def stride_id_def)

text \<open>Stride lengths are powers of two and every shift is what the strides below it use.\<close>

fun stride_geom :: "nat \<Rightarrow> nat \<Rightarrow> u32 list \<Rightarrow> nat list \<Rightarrow> bool" where
  "stride_geom ilen tot [] [] \<longleftrightarrow> tot = ilen"
| "stride_geom ilen tot (l # ls) (h # hs) \<longleftrightarrow>
     (\<exists>w<32. l = shl1 w \<and> tot + w \<le> ilen \<and> h = ilen - (tot + w) \<and> stride_geom ilen (tot + w) ls hs)"
| "stride_geom ilen tot _ _ \<longleftrightarrow> False"

lemma stride_geom_length: "stride_geom ilen tot ls hs \<Longrightarrow> length ls = length hs"
  by (induction ilen tot ls hs rule: stride_geom.induct) auto

lemma stride_geom_pow2: "stride_geom ilen tot ls hs \<Longrightarrow> i < length ls \<Longrightarrow> \<exists>w<32. ls ! i = shl1 w"
  by (induction ilen tot ls hs arbitrary: i rule: stride_geom.induct)
     (auto simp: nth_Cons split: nat.splits)

lemma itbl_strides_geom:
  "itbl_strides ps ilen tot ws = Some (ls, hs) \<Longrightarrow> ps < 32 \<Longrightarrow>
   stride_geom ilen tot ls hs \<and> length ls = length ws"
proof (induction ws arbitrary: tot ls hs)
  case (Cons w ws)
  then obtain ls' hs' where r: "itbl_strides ps ilen (tot + w) ws = Some (ls', hs')"
    and e: "ls = shl1 w # ls'" "hs = (ilen - (tot + w)) # hs'" "\<not> ps < w" "\<not> ilen < tot + w"
    by (auto split: if_splits option.splits)
  from Cons.IH [OF r] Cons.prems(2) e show ?case
    by (auto intro!: exI [of _ w])
qed (auto split: if_splits)

lemma stride_id_eq: "w < 32 \<Longrightarrow> stride_id (shl1 w) sh idx = unat idx div 2 ^ sh mod 2 ^ w"
proof -
  assume w: "w < 32"
  have "drop_bit sh idx AND (shl1 w - 1) = take_bit w (drop_bit sh idx)"
    using w by (simp add: shl1_minus_1 take_bit_eq_mask)
  then have "stride_id (shl1 w) sh idx = take_bit w (drop_bit sh (unat idx))"
    by (simp only: stride_id_def unsigned_take_bit_eq unsigned_drop_bit_eq)
       (simp add: take_bit_nat_eq_self)
  then show ?thesis by (simp add: take_bit_eq_mod drop_bit_eq_div)
qed

lemma mod_pow2_split:
  "(x :: nat) mod 2 ^ (m + w) = y mod 2 ^ (m + w) \<longleftrightarrow>
   x div 2 ^ m mod 2 ^ w = y div 2 ^ m mod 2 ^ w \<and> x mod 2 ^ m = y mod 2 ^ m"
proof -
  have split: "z mod 2 ^ (m + w) = 2 ^ m * (z div 2 ^ m mod 2 ^ w) + z mod 2 ^ m" for z :: nat
    by (simp add: power_add mod_mult2_eq)
  have cancel: "2 ^ m * a + b = 2 ^ m * c + d \<longleftrightarrow> a = c \<and> b = d"
    if "b < 2 ^ m" "d < 2 ^ m" for a b c d :: nat
  proof
    assume eq: "2 ^ m * a + b = 2 ^ m * c + d"
    then have "(2 ^ m * a + b) div 2 ^ m = (2 ^ m * c + d) div 2 ^ m" by simp
    with that have "a = c" by simp
    with eq show "a = c \<and> b = d" by simp
  qed simp
  show ?thesis unfolding split by (rule cancel) simp_all
qed

lemma stride_ids_eq_iff:
  "stride_geom ilen tot ls hs \<Longrightarrow>
   (\<forall>k<length ls. stride_id (ls ! k) (hs ! k) x = stride_id (ls ! k) (hs ! k) y) \<longleftrightarrow>
   unat x mod 2 ^ (ilen - tot) = unat y mod 2 ^ (ilen - tot)"
proof (induction ilen tot ls hs rule: stride_geom.induct)
  case (2 ilen tot l ls h hs)
  then obtain w where w: "w < 32" "l = shl1 w" "tot + w \<le> ilen" "h = ilen - (tot + w)"
    "stride_geom ilen (tot + w) ls hs" by auto
  have e: "ilen - tot = (ilen - (tot + w)) + w" using w(3) by simp
  have "(\<forall>k<length (l # ls). stride_id ((l # ls) ! k) ((h # hs) ! k) x
          = stride_id ((l # ls) ! k) ((h # hs) ! k) y) \<longleftrightarrow>
        stride_id l h x = stride_id l h y \<and>
        (\<forall>k<length ls. stride_id (ls ! k) (hs ! k) x = stride_id (ls ! k) (hs ! k) y)"
    by (auto simp: nth_Cons less_Suc_eq_0_disj split: nat.splits)
  also have "\<dots> \<longleftrightarrow> unat x mod 2 ^ (ilen - tot) = unat y mod 2 ^ (ilen - tot)"
    unfolding e mod_pow2_split using 2 w by (auto simp: stride_id_eq)
  finally show ?case .
qed auto

section \<open>Well formed tables\<close>

fun itbl_shape :: "'a vr_itbl \<Rightarrow> nat \<Rightarrow> nat \<Rightarrow> 'a islot \<Rightarrow> bool" where
  "itbl_shape t 0 i p \<longleftrightarrow> (case p of IStride _ \<Rightarrow> False | _ \<Rightarrow> True)"
| "itbl_shape t (Suc n) i p \<longleftrightarrow>
     (case p of INull \<Rightarrow> True | IData _ \<Rightarrow> False
      | IStride xs \<Rightarrow> length xs = unat (stride_len t ! i) \<and> (\<forall>x \<in> set xs. itbl_shape t n (Suc i) x))"

definition itbl_wf :: "'a vr_itbl \<Rightarrow> bool" where
  [vr_inv]: "itbl_wf t \<longleftrightarrow> 2 \<le> stride_cnt t \<and> index_len t \<le> 32 \<and>
     length (stride_len t) = stride_cnt t \<and>
     stride_geom (index_len t) 0 (stride_len t) (stride_shift t) \<and>
     itbl_shape t (stride_cnt t) 0 (itbl_data t)"

text \<open>The bits of an index the table looks at.\<close>

definition itbl_key :: "'a vr_itbl \<Rightarrow> u32 \<Rightarrow> nat" where
  "itbl_key t idx = unat idx mod 2 ^ index_len t"

lemma itbl_key_eq_iff:
  "itbl_wf t \<Longrightarrow> itbl_key t x = itbl_key t y \<longleftrightarrow> (\<forall>k < stride_cnt t. itbl_id t x k = itbl_id t y k)"
  using stride_ids_eq_iff [of "index_len t" 0 "stride_len t" "stride_shift t" x y]
  by (simp add: itbl_wf_def itbl_key_def itbl_id_stride)

lemma itbl_id_less:
  assumes "itbl_wf t" "i < stride_cnt t"
  shows "itbl_id t idx i < unat (stride_len t ! i)"
proof -
  from assms obtain w where "w < 32" "stride_len t ! i = shl1 w"
    using stride_geom_pow2 [of "index_len t" 0 "stride_len t" "stride_shift t" i]
    by (auto simp: itbl_wf_def)
  then show ?thesis by (simp add: itbl_id_stride stride_id_eq unat_shl1)
qed

lemma itbl_shape_cong [simp]: "itbl_shape (t\<lparr>itbl_data := p\<rparr>) n i q = itbl_shape t n i q"
  by (induction n arbitrary: i q) (auto split: islot.splits)

lemma itbl_id_cong [simp]: "itbl_id (t\<lparr>itbl_data := p\<rparr>) idx i = itbl_id t idx i"
  by (simp add: itbl_id_def)

lemma itbl_get_loop_cong [simp]:
  "itbl_get_loop (t\<lparr>itbl_data := p\<rparr>) idx n i q = itbl_get_loop t idx n i q"
proof (induction n arbitrary: i q)
  case (Suc n)
  then show ?case by (cases q) auto
qed auto

lemma itbl_key_cong [simp]: "itbl_key (t\<lparr>itbl_data := p\<rparr>) idx = itbl_key t idx"
  by (simp add: itbl_key_def)

lemma vr_itable_create_wf:
  "vr_itable_create ok ps ilen ws = Some t \<Longrightarrow> ps < 32 \<Longrightarrow>
   itbl_wf t \<and> index_len t = ilen \<and> (\<forall>idx. vr_itable_get (Some t) idx = None)"
  using itbl_strides_geom [of ps ilen 0 ws]
  by (cases "length ws")
     (auto simp: vr_itable_create_def itbl_wf_def vr_itable_get_def split: if_splits option.splits)

section \<open>Insert, lookup and delete\<close>

text \<open>Two indices that take the same way from stride \<open>i\<close> through \<open>n\<close> more strides.\<close>

fun itbl_same :: "'a vr_itbl \<Rightarrow> u32 \<Rightarrow> u32 \<Rightarrow> nat \<Rightarrow> nat \<Rightarrow> bool" where
  "itbl_same t x y 0 i \<longleftrightarrow> itbl_id t x i = itbl_id t y i"
| "itbl_same t x y (Suc n) i \<longleftrightarrow> itbl_id t x i = itbl_id t y i \<and> itbl_same t x y n (Suc i)"

lemma itbl_same_iff: "itbl_same t x y n i \<longleftrightarrow> (\<forall>k. i \<le> k \<and> k \<le> i + n \<longrightarrow> itbl_id t x k = itbl_id t y k)"
proof (induction n arbitrary: i)
  case (Suc n)
  have "(i \<le> k \<and> k \<le> i + Suc n) \<longleftrightarrow> k = i \<or> (Suc i \<le> k \<and> k \<le> Suc i + n)" for k by auto
  then show ?case by (auto simp: Suc.IH)
qed auto

lemma itbl_same_key:
  "itbl_wf t \<Longrightarrow> itbl_same t x y (stride_cnt t - 1) 0 \<longleftrightarrow> itbl_key t x = itbl_key t y"
  by (auto simp: itbl_same_iff itbl_key_eq_iff itbl_wf_def)

lemma itbl_get_null [simp]: "itbl_get_loop t x n i INull = INull"
  by (cases n) auto

lemma itbl_get_zstride:
  "itbl_wf t \<Longrightarrow> i + n < stride_cnt t \<Longrightarrow>
   itbl_get_loop t x (Suc n) i (IStride (replicate (unat (stride_len t ! i)) INull)) = INull"
  by (simp add: itbl_id_less)

lemma itbl_shape_zstride:
  "itbl_shape t (Suc n) i (IStride (replicate (unat (stride_len t ! i)) INull))"
  by (cases n) auto

lemma itbl_shape_nth:
  "itbl_wf t \<Longrightarrow> i < stride_cnt t \<Longrightarrow> itbl_shape t (Suc n) i (IStride xs) \<Longrightarrow>
   itbl_id t x i < length xs \<and> itbl_shape t n (Suc i) (xs ! itbl_id t x i)"
  by (simp add: itbl_id_less)

lemma itbl_shape_update:
  "itbl_shape t (Suc n) i (IStride xs) \<Longrightarrow> itbl_shape t n (Suc i) p \<Longrightarrow>
   itbl_shape t (Suc n) i (IStride (xs[k := p]))"
  using set_update_subset_insert [of xs k p] by auto

lemma itbl_get_update:
  "itbl_wf t \<Longrightarrow> i < stride_cnt t \<Longrightarrow> itbl_shape t (Suc n) i (IStride xs) \<Longrightarrow>
   itbl_get_loop t y (Suc n) i (IStride (xs[itbl_id t x i := p])) =
     (if itbl_id t y i = itbl_id t x i then itbl_get_loop t y n (Suc i) p
      else itbl_get_loop t y (Suc n) i (IStride xs))"
  by (auto simp: itbl_id_less)

lemma itbl_get_stride:
  "itbl_get_loop t y (Suc n) i (IStride xs) = itbl_get_loop t y n (Suc i) (xs ! itbl_id t y i)"
  by simp

declare itbl_shape.simps [simp del] itbl_get_loop.simps(1) [simp del]

text \<open>What one descent of \<open>vr_itable_set\<close> does to the lookups below a stride.\<close>

definition itbl_set_post where
  "itbl_set_post t x d n i p r p' \<longleftrightarrow>
     itbl_shape t (Suc n) i p' \<and>
     (case r of
        ItErr \<Rightarrow> (\<forall>y. itbl_get_loop t y (Suc n) i p' = itbl_get_loop t y (Suc n) i p)
      | ItOld old \<Rightarrow> old = slot_data (itbl_get_loop t x (Suc n) i p) \<and>
          (\<forall>y. itbl_get_loop t y (Suc n) i p' =
                (if itbl_same t y x n i then data_slot d else itbl_get_loop t y (Suc n) i p)))"

lemma itbl_shape_data_slot [simp]: "itbl_shape t 0 i (data_slot d)"
  by (cases d) (auto simp: itbl_shape.simps)

lemma itbl_set_post_lift:
  assumes "itbl_wf t" "i + Suc n < stride_cnt t" "itbl_shape t (Suc (Suc n)) i (IStride xs)"
    and post: "itbl_set_post t x d n (Suc i) p r q"
    and same: "\<And>y. itbl_get_loop t y (Suc n) (Suc i) p = itbl_get_loop t y (Suc n) (Suc i) (xs ! itbl_id t x i)"
  shows "itbl_set_post t x d (Suc n) i (IStride xs) r (IStride (xs[itbl_id t x i := q]))"
proof -
  have upd: "itbl_get_loop t y (Suc (Suc n)) i (IStride (xs[itbl_id t x i := q])) =
      (if itbl_id t y i = itbl_id t x i then itbl_get_loop t y (Suc n) (Suc i) q
       else itbl_get_loop t y (Suc (Suc n)) i (IStride xs))" for y
    using assms(1-3) by (intro itbl_get_update) auto
  have "itbl_shape t (Suc (Suc n)) i (IStride (xs[itbl_id t x i := q]))"
    using assms(3) post by (auto intro: itbl_shape_update simp: itbl_set_post_def)
  then show ?thesis
    using post same unfolding itbl_set_post_def upd
    by (cases r) (auto simp: itbl_get_stride)
qed

lemma itbl_set_loop_post:
  assumes "itbl_wf t"
  shows "itbl_set_loop t x d ok k n i xs = (r, xs') \<Longrightarrow> i + n < stride_cnt t \<Longrightarrow>
     itbl_shape t (Suc n) i (IStride xs) \<Longrightarrow> itbl_set_post t x d n i (IStride xs) r (IStride xs')"
proof (induction n arbitrary: k i xs xs')
  case 0
  have shape: "itbl_shape t (Suc 0) i (IStride (xs[itbl_id t x i := data_slot d]))"
    using itbl_shape_update [OF 0(3)] by simp
  with 0 assms show ?case
    by (auto simp: itbl_set_post_def itbl_get_update Let_def) (auto simp: itbl_get_stride)
next
  case (Suc n)
  let ?id = "itbl_id t x i"
  have nth: "itbl_shape t (Suc n) (Suc i) (xs ! ?id)"
    using itbl_shape_nth [OF assms _ Suc.prems(3), of x] Suc.prems(2) by auto
  note lift = itbl_set_post_lift [OF assms Suc.prems(2,3)]
  consider ys where "xs ! ?id = IStride ys" | "xs ! ?id = INull"
    using nth by (cases "xs ! ?id") (auto simp: itbl_shape.simps)
  then show ?case
  proof cases
    case (1 ys)
    then obtain zs where zs: "itbl_set_loop t x d ok k n (Suc i) ys = (r, zs)"
      and xs': "xs' = xs[?id := IStride zs]"
      using Suc.prems(1) by (auto simp: Let_def split: prod.splits)
    have "itbl_set_post t x d n (Suc i) (IStride ys) r (IStride zs)"
      using Suc.IH [OF zs] Suc.prems(2) nth 1 by auto
    then show ?thesis unfolding xs' by (rule lift) (simp add: 1)
  next
    case 2
    let ?z = "replicate (unat (stride_len t ! Suc i)) INull"
    show ?thesis
    proof (cases "ok k")
      case True
      then obtain zs where zs: "itbl_set_loop t x d ok (Suc k) n (Suc i) ?z = (r, zs)"
        and xs': "xs' = xs[?id := IStride zs]"
        using Suc.prems(1) 2 by (auto simp: Let_def split: prod.splits)
      have "itbl_set_post t x d n (Suc i) (IStride ?z) r (IStride zs)"
        using Suc.IH [OF zs] Suc.prems(2) itbl_shape_zstride by auto
      then show ?thesis unfolding xs'
        by (rule lift) (use itbl_get_zstride [OF assms] Suc.prems(2) 2 in auto)
    next
      case False
      with Suc.prems 2 show ?thesis by (auto simp: itbl_set_post_def Let_def)
    qed
  qed
qed

lemma itbl_wf_update:
  "itbl_wf t \<Longrightarrow> itbl_shape t (stride_cnt t) 0 p \<Longrightarrow> itbl_wf (t\<lparr>itbl_data := p\<rparr>)"
  by (simp add: itbl_wf_def)

lemma itbl_cnt: "itbl_wf t \<Longrightarrow> Suc (stride_cnt t - 1) = stride_cnt t"
  by (simp add: itbl_wf_def)

definition itbl_set_ok where
  "itbl_set_ok t x d r t' \<longleftrightarrow> itbl_wf t' \<and> index_len t' = index_len t \<and>
     (case r of
        ItErr \<Rightarrow> (\<forall>y. vr_itable_get (Some t') y = vr_itable_get (Some t) y)
      | ItOld old \<Rightarrow> old = vr_itable_get (Some t) x \<and>
          (\<forall>y. vr_itable_get (Some t') y = (if itbl_key t y = itbl_key t x then d else vr_itable_get (Some t) y)))"

lemma slot_data_slot [simp]: "slot_data (data_slot d) = d"
  by (cases d) auto

lemma itbl_set_ok_I:
  assumes wf: "itbl_wf t" and post: "itbl_set_post t x d (stride_cnt t - 1) 0 p r q"
    and same: "\<And>y. itbl_get_loop t y (stride_cnt t) 0 p = itbl_get_loop t y (stride_cnt t) 0 (itbl_data t)"
  shows "itbl_set_ok t x d r (t\<lparr>itbl_data := q\<rparr>)"
proof -
  have "itbl_shape t (stride_cnt t) 0 q"
    using post itbl_cnt [OF wf] by (simp add: itbl_set_post_def)
  then show ?thesis
    using post itbl_wf_update [OF wf]
    unfolding itbl_set_ok_def itbl_set_post_def itbl_cnt [OF wf] same itbl_same_key [OF wf]
    by (cases r) (auto simp: vr_itable_get_def)
qed

lemma vr_itable_set_ok:
  assumes wf: "itbl_wf t" and set: "vr_itable_set ok (Some t) x d = (r, tb')"
  shows "\<exists>t'. tb' = Some t' \<and> itbl_set_ok t x d r t'"
proof -
  have shape: "itbl_shape t (Suc (stride_cnt t - 1)) 0 (itbl_data t)" and cnt: "0 + (stride_cnt t - 1) < stride_cnt t"
    using wf by (auto simp: itbl_wf_def)
  note post = itbl_set_loop_post [OF wf _ cnt]
  consider xs where "itbl_data t = IStride xs" | "itbl_data t = INull"
    using shape by (cases "itbl_data t") (auto simp: itbl_shape.simps)
  then show ?thesis
  proof cases
    case (1 xs)
    then obtain xs' where "itbl_set_loop t x d ok 0 (stride_cnt t - 1) 0 xs = (r, xs')"
      and tb': "tb' = Some (t\<lparr>itbl_data := IStride xs'\<rparr>)"
      using set by (auto simp: vr_itable_set_def Let_def split: prod.splits)
    with post shape 1 have "itbl_set_ok t x d r (t\<lparr>itbl_data := IStride xs'\<rparr>)"
      by (intro itbl_set_ok_I [OF wf, of _ _ "IStride xs"]) auto
    with tb' show ?thesis by blast
  next
    case 2
    let ?z = "replicate (unat (stride_len t ! 0)) INull"
    show ?thesis
    proof (cases "ok 0")
      case True
      then obtain xs' where l: "itbl_set_loop t x d ok 1 (stride_cnt t - 1) 0 ?z = (r, xs')"
        and tb': "tb' = Some (t\<lparr>itbl_data := IStride xs'\<rparr>)"
        using set 2 by (auto simp: vr_itable_set_def Let_def split: prod.splits)
      have "itbl_get_loop t y (stride_cnt t) 0 (IStride ?z) = itbl_get_loop t y (stride_cnt t) 0 (itbl_data t)" for y
        using itbl_get_zstride [OF wf cnt] itbl_cnt [OF wf] 2 by simp
      then have "itbl_set_ok t x d r (t\<lparr>itbl_data := IStride xs'\<rparr>)"
        by (intro itbl_set_ok_I [OF wf post [OF l itbl_shape_zstride]])
      with tb' show ?thesis by blast
    next
      case False
      with set 2 wf show ?thesis by (auto simp: vr_itable_set_def itbl_set_ok_def)
    qed
  qed
qed

definition itbl_del_post where
  "itbl_del_post t x n i p old q \<longleftrightarrow>
     itbl_shape t (Suc n) i q \<and> old = slot_data (itbl_get_loop t x (Suc n) i p) \<and>
     (\<forall>y. slot_data (itbl_get_loop t y (Suc n) i q) =
        (if itbl_same t y x n i then None else slot_data (itbl_get_loop t y (Suc n) i p)))"

lemma itbl_shape_null [simp]: "itbl_shape t n i INull"
  by (cases n) (auto simp: itbl_shape.simps)

lemma vr_stride_empty_get:
  assumes "itbl_wf t" "i < stride_cnt t" "itbl_shape t (Suc n) i (IStride xs)" "vr_stride_empty xs"
  shows "itbl_get_loop t y (Suc n) i (IStride xs) = INull"
proof -
  have "itbl_id t y i < length xs"
    using itbl_shape_nth [OF assms(1,2,3)] by simp
  then have "xs ! itbl_id t y i \<in> set xs" by simp
  with assms(4) have "xs ! itbl_id t y i = INull"
    by (cases "xs ! itbl_id t y i") (auto simp: vr_stride_empty_def list_all_iff split: islot.splits)
  then show ?thesis by (simp add: itbl_get_stride)
qed

text \<open>Freeing a stride that has become empty does not change a lookup.\<close>

lemma itbl_del_post_free:
  assumes "itbl_wf t" "i < stride_cnt t" "itbl_del_post t x n i p old (IStride xs)"
  shows "itbl_del_post t x n i p old (if vr_stride_empty xs then INull else IStride xs)"
proof (cases "vr_stride_empty xs")
  case True
  with assms(3) have "itbl_get_loop t y (Suc n) i (IStride xs) = INull" for y
    by (intro vr_stride_empty_get assms(1,2)) (auto simp: itbl_del_post_def)
  with assms(3) True show ?thesis by (simp add: itbl_del_post_def)
qed (use assms in simp)

lemma itbl_del_post_lift:
  assumes "itbl_wf t" "i + Suc n < stride_cnt t" "itbl_shape t (Suc (Suc n)) i (IStride xs)"
    and post: "itbl_del_post t x n (Suc i) (xs ! itbl_id t x i) old q"
  shows "itbl_del_post t x (Suc n) i (IStride xs) old (IStride (xs[itbl_id t x i := q]))"
proof -
  have upd: "itbl_get_loop t y (Suc (Suc n)) i (IStride (xs[itbl_id t x i := q])) =
      (if itbl_id t y i = itbl_id t x i then itbl_get_loop t y (Suc n) (Suc i) q
       else itbl_get_loop t y (Suc (Suc n)) i (IStride xs))" for y
    using assms(1-3) by (intro itbl_get_update) auto
  have "itbl_shape t (Suc (Suc n)) i (IStride (xs[itbl_id t x i := q]))"
    using assms(3) post by (auto intro: itbl_shape_update simp: itbl_del_post_def)
  then show ?thesis
    using post unfolding itbl_del_post_def upd by (auto simp: itbl_get_stride)
qed

lemma itbl_del_loop_post:
  assumes "itbl_wf t"
  shows "itbl_del_loop t x n i xs = (old, q) \<Longrightarrow> i + n < stride_cnt t \<Longrightarrow>
     itbl_shape t (Suc n) i (IStride xs) \<Longrightarrow> itbl_del_post t x n i (IStride xs) old q"
proof (induction n arbitrary: i xs old q)
  case 0
  let ?xs' = "xs[itbl_id t x i := INull]"
  show ?case
  proof (cases "slot_data (xs ! itbl_id t x i)")
    case None
    with 0 show ?thesis
      by (auto simp: itbl_del_post_def Let_def itbl_get_stride)
  next
    case (Some d)
    have "itbl_del_post t x 0 i (IStride xs) (Some d) (IStride ?xs')"
      using 0 Some assms itbl_shape_update [OF 0(3), of INull]
      by (auto simp: itbl_del_post_def itbl_get_update) (auto simp: itbl_get_stride)
    from itbl_del_post_free [OF assms _ this] Some 0 show ?thesis
      by (auto simp: Let_def)
  qed
next
  case (Suc n)
  let ?id = "itbl_id t x i"
  have nth: "itbl_shape t (Suc n) (Suc i) (xs ! ?id)"
    using itbl_shape_nth [OF assms _ Suc.prems(3), of x] Suc.prems(2) by auto
  note lift = itbl_del_post_lift [OF assms Suc.prems(2,3)]
  consider ys where "xs ! ?id = IStride ys" | "xs ! ?id = INull"
    using nth by (cases "xs ! ?id") (auto simp: itbl_shape.simps)
  then show ?case
  proof cases
    case (1 ys)
    obtain old' p where d: "itbl_del_loop t x n (Suc i) ys = (old', p)" by force
    have post: "itbl_del_post t x (Suc n) i (IStride xs) old' (IStride (xs[?id := p]))"
      using Suc.IH [OF d] Suc.prems(2) nth 1 by (intro lift) auto
    show ?thesis
    proof (cases p)
      case INull
      with itbl_del_post_free [OF assms _ post] Suc.prems 1 d show ?thesis
        by (auto simp: Let_def)
    qed (use post Suc.prems 1 d in \<open>auto simp: Let_def\<close>)
  next
    case 2
    with Suc.prems have "old = None" "q = IStride xs" by (auto simp: Let_def)
    moreover have "itbl_del_post t x (Suc n) i (IStride xs) None (IStride (xs[?id := INull]))"
      by (rule lift) (simp add: 2 itbl_del_post_def)
    ultimately show ?thesis using 2 by (metis list_update_id)
  qed
qed

definition itbl_del_ok where
  "itbl_del_ok t x old t' \<longleftrightarrow> itbl_wf t' \<and> index_len t' = index_len t \<and>
     old = vr_itable_get (Some t) x \<and>
     (\<forall>y. vr_itable_get (Some t') y = (if itbl_key t y = itbl_key t x then None else vr_itable_get (Some t) y))"

lemma vr_itable_del_ok:
  assumes wf: "itbl_wf t" and del: "vr_itable_del (Some t) x = (old, tb')"
  shows "\<exists>t'. tb' = Some t' \<and> itbl_del_ok t x old t'"
proof -
  have shape: "itbl_shape t (Suc (stride_cnt t - 1)) 0 (itbl_data t)" and cnt: "0 + (stride_cnt t - 1) < stride_cnt t"
    using wf by (auto simp: itbl_wf_def)
  consider xs where "itbl_data t = IStride xs" | "itbl_data t = INull"
    using shape by (cases "itbl_data t") (auto simp: itbl_shape.simps)
  then show ?thesis
  proof cases
    case (1 xs)
    then obtain p where l: "itbl_del_loop t x (stride_cnt t - 1) 0 xs = (old, p)"
      and tb': "tb' = Some (t\<lparr>itbl_data := p\<rparr>)"
      using del by (auto simp: vr_itable_del_def Let_def split: prod.splits)
    have "itbl_del_post t x (stride_cnt t - 1) 0 (itbl_data t) old p"
      using itbl_del_loop_post [OF wf l cnt] shape 1 by simp
    then have "itbl_del_ok t x old (t\<lparr>itbl_data := p\<rparr>)"
      using itbl_wf_update [OF wf, of p]
      unfolding itbl_del_ok_def itbl_del_post_def itbl_cnt [OF wf] itbl_same_key [OF wf]
      by (auto simp: vr_itable_get_def)
    with tb' show ?thesis by blast
  next
    case 2
    with del wf show ?thesis
      by (auto simp: vr_itable_del_def itbl_del_ok_def vr_itable_get_def)
  qed
qed

section \<open>The interface of an index table\<close>

text \<open>
  What the users of an index table rely on: a lookup after an insert or a delete. \<open>keyf t\<close> is
  the part of an index the table looks at.
\<close>

locale index_map =
  fixes wf :: "'t \<Rightarrow> bool" and keyf :: "'t \<Rightarrow> u32 \<Rightarrow> nat"
    and get :: "'t \<Rightarrow> u32 \<Rightarrow> 'a option"
    and put :: "alloc_sched \<Rightarrow> 't \<Rightarrow> u32 \<Rightarrow> 'a option \<Rightarrow> 'a itbl_ret \<times> 't"
    and del :: "'t \<Rightarrow> u32 \<Rightarrow> 'a option \<times> 't"
  assumes put_wf: "wf t \<Longrightarrow> put ok t x d = (r, t') \<Longrightarrow> wf t' \<and> keyf t' = keyf t"
    and put_old: "wf t \<Longrightarrow> put ok t x d = (ItOld old, t') \<Longrightarrow>
        old = get t x \<and> (\<forall>y. get t' y = (if keyf t y = keyf t x then d else get t y))"
    and put_err: "wf t \<Longrightarrow> put ok t x d = (ItErr, t') \<Longrightarrow> get t' = get t"
    and del_wf: "wf t \<Longrightarrow> del t x = (old, t') \<Longrightarrow> wf t' \<and> keyf t' = keyf t"
    and del_old: "wf t \<Longrightarrow> del t x = (old, t') \<Longrightarrow>
        old = get t x \<and> (\<forall>y. get t' y = (if keyf t y = keyf t x then None else get t y))"
    and get_key: "wf t \<Longrightarrow> keyf t x = keyf t y \<Longrightarrow> get t x = get t y"
begin

text \<open>Writing the old entry back, or deleting where there was none, undoes an insert.\<close>

lemma put_restore:
  assumes "wf t" "put ok t x d = (ItOld (Some old), t1)" "put ok' t1 x (Some old) = (ItOld o2, t2)"
  shows "get t2 = get t \<and> o2 = d"
proof -
  have 1: "wf t1" "keyf t1 = keyf t" using put_wf [OF assms(1,2)] by auto
  have 2: "Some old = get t x" "get t1 y = (if keyf t y = keyf t x then d else get t y)" for y
    using put_old [OF assms(1,2)] by auto
  have 3: "o2 = get t1 x" "get t2 y = (if keyf t1 y = keyf t1 x then Some old else get t1 y)" for y
    using put_old [OF 1(1) assms(3)] by auto
  have "get t2 y = get t y" for y
    using 2 3(2) [of y] 1(2) get_key [OF assms(1), of y x] by auto
  then show ?thesis using 2 3(1) by auto
qed

lemma put_del_restore:
  assumes "wf t" "put ok t x d = (ItOld None, t1)" "del t1 x = (o2, t2)"
  shows "get t2 = get t \<and> o2 = d"
proof -
  have 1: "wf t1" "keyf t1 = keyf t" using put_wf [OF assms(1,2)] by auto
  have 2: "get t x = None" "get t1 y = (if keyf t y = keyf t x then d else get t y)" for y
    using put_old [OF assms(1,2)] by auto
  have 3: "o2 = get t1 x" "get t2 y = (if keyf t1 y = keyf t1 x then None else get t1 y)" for y
    using del_old [OF 1(1) assms(3)] by auto
  have "get t2 y = get t y" for y
    using 2 3(2) [of y] 1(2) get_key [OF assms(1), of y x] by auto
  then show ?thesis using 2 3(1) by auto
qed

end

lemma itbl_get_loop_same:
  "(\<And>k. i \<le> k \<Longrightarrow> k < i + n \<Longrightarrow> itbl_id t x k = itbl_id t y k) \<Longrightarrow>
   itbl_get_loop t x n i p = itbl_get_loop t y n i p"
proof (induction n arbitrary: i p)
  case (Suc n)
  then show ?case by (cases p) (auto simp: itbl_get_stride)
qed auto

lemma vr_itable_get_key:
  assumes "itbl_wf t" "itbl_key t x = itbl_key t y"
  shows "vr_itable_get (Some t) x = vr_itable_get (Some t) y"
  using assms itbl_get_loop_same [of 0 "stride_cnt t" t x y]
  by (simp add: itbl_key_eq_iff vr_itable_get_def)

text \<open>The table of \<^verbatim>\<open>vr_index_table.c\<close> provides the interface.\<close>

definition itable_wf :: "'a vr_itbl option \<Rightarrow> bool" where
  [vr_inv]: "itable_wf tb \<longleftrightarrow> (case tb of Some t \<Rightarrow> itbl_wf t | None \<Rightarrow> False)"

definition itable_key :: "'a vr_itbl option \<Rightarrow> u32 \<Rightarrow> nat" where
  "itable_key tb = (case tb of Some t \<Rightarrow> itbl_key t | None \<Rightarrow> (\<lambda>_. 0))"

lemma itable_wfE: "itable_wf tb \<Longrightarrow> (\<And>t. tb = Some t \<Longrightarrow> itbl_wf t \<Longrightarrow> P) \<Longrightarrow> P"
  by (cases tb) (auto simp: itable_wf_def)

lemma itbl_key_len: "index_len t' = index_len t \<Longrightarrow> itbl_key t' = itbl_key t"
  by (simp add: itbl_key_def fun_eq_iff)

interpretation itbl: index_map itable_wf itable_key vr_itable_get vr_itable_set vr_itable_del
proof
  fix tb tb' :: "'a vr_itbl option" and ok x y d r old
  assume wf: "itable_wf tb"
  { assume "vr_itable_set ok tb x d = (r, tb')"
    with wf obtain t t' where "tb = Some t" "tb' = Some t'" "itbl_set_ok t x d r t'"
      by (auto elim!: itable_wfE dest: vr_itable_set_ok)
    then show "itable_wf tb' \<and> itable_key tb' = itable_key tb"
      by (auto simp: itbl_set_ok_def itable_wf_def itable_key_def dest: itbl_key_len) }
  { assume "vr_itable_set ok tb x d = (ItOld old, tb')"
    with wf obtain t t' where "tb = Some t" "tb' = Some t'" "itbl_set_ok t x d (ItOld old) t'"
      by (auto elim!: itable_wfE dest: vr_itable_set_ok)
    then show "old = vr_itable_get tb x \<and>
        (\<forall>y. vr_itable_get tb' y = (if itable_key tb y = itable_key tb x then d else vr_itable_get tb y))"
      by (auto simp: itbl_set_ok_def itable_key_def) }
  { assume "vr_itable_set ok tb x d = (ItErr, tb')"
    with wf obtain t t' where "tb = Some t" "tb' = Some t'" "itbl_set_ok t x d ItErr t'"
      by (auto elim!: itable_wfE dest: vr_itable_set_ok)
    then show "vr_itable_get tb' = vr_itable_get tb"
      by (auto simp: itbl_set_ok_def) }
  { assume "vr_itable_del tb x = (old, tb')"
    with wf obtain t t' where "tb = Some t" "tb' = Some t'" "itbl_del_ok t x old t'"
      by (auto elim!: itable_wfE dest: vr_itable_del_ok)
    then show "itable_wf tb' \<and> itable_key tb' = itable_key tb"
      and "old = vr_itable_get tb x \<and>
        (\<forall>y. vr_itable_get tb' y = (if itable_key tb y = itable_key tb x then None else vr_itable_get tb y))"
      by (auto simp: itbl_del_ok_def itable_wf_def itable_key_def dest: itbl_key_len) }
  { assume "itable_key tb x = itable_key tb y"
    with wf show "vr_itable_get tb x = vr_itable_get tb y"
      by (auto elim!: itable_wfE simp: itable_key_def intro: vr_itable_get_key) }
qed

section \<open>Properties\<close>

text \<open>
  C18: storing at an index of a well-formed table keeps the table well formed. When it reports
  the old entry, that is what a lookup of the index returned before, and afterwards a lookup
  returns the new entry at every index that agrees with it on the bits the table looks at and
  what it returned before at every other index. When an allocation fails on the way, no lookup changes.
\<close>

theorem vr_itable_set_spec:
  assumes "itable_wf tb" "vr_itable_set ok tb x d = (r, tb')"
  shows "itable_wf tb' \<and>
     (case r of
        ItOld old \<Rightarrow> old = vr_itable_get tb x \<and>
          vr_itable_get tb' = (\<lambda>y. if itable_key tb y = itable_key tb x then d else vr_itable_get tb y)
      | ItErr \<Rightarrow> vr_itable_get tb' = vr_itable_get tb)"
  using itbl.put_wf [OF assms] itbl.put_old [OF assms(1)] itbl.put_err [OF assms(1)] assms(2)
  by (auto split: itbl_ret.splits)

definition itable_ex :: "nat vr_itbl option" where
  "itable_ex = vr_itable_create (\<lambda>_. True) 12 8 [4, 4]"

lemma itable_ex_wf: "itable_wf itable_ex"
proof -
  have "itable_ex \<noteq> None" unfolding itable_ex_def by code_simp
  then obtain t where t: "itable_ex = Some t" by blast
  then have "itbl_wf t" using vr_itable_create_wf [of "\<lambda>_. True" 12 8 "[4, 4]" t] by (simp add: itable_ex_def)
  then show ?thesis by (simp add: t itable_wf_def)
qed

lemma vr_itable_set_spec_witness:
  "fst (vr_itable_set (\<lambda>_. True) itable_ex 0x12 (Some 7)) = ItOld None \<and>
   vr_itable_get (snd (vr_itable_set (\<lambda>_. True) itable_ex 0x12 (Some 7))) 0x12 = Some 7"
proof -
  have "fst (vr_itable_set (\<lambda>_. True) itable_ex 0x12 (Some 7)) = ItOld None"
    unfolding itable_ex_def by code_simp
  with vr_itable_set_spec [OF itable_ex_wf prod.collapse [symmetric], of "\<lambda>_. True" "0x12" "Some 7"]
  show ?thesis by simp
qed

text \<open>
  C19: deleting an index of a well-formed table returns the entry that was there, and
  afterwards a lookup finds nothing at that index and what it found before at every other
  one, although interior strides that became empty are released.
\<close>

theorem vr_itable_del_spec:
  assumes "itable_wf tb" "vr_itable_del tb x = (old, tb')"
  shows "itable_wf tb' \<and> old = vr_itable_get tb x \<and>
     vr_itable_get tb' = (\<lambda>y. if itable_key tb y = itable_key tb x then None else vr_itable_get tb y)"
  using itbl.del_wf [OF assms] itbl.del_old [OF assms] by auto

lemma vr_itable_del_spec_witness:
  "vr_itable_get (snd (vr_itable_del (snd (vr_itable_set (\<lambda>_. True) itable_ex 0x12 (Some 7))) 0x12)) 0x12 = None"
proof -
  have "itable_wf (snd (vr_itable_set (\<lambda>_. True) itable_ex 0x12 (Some 7)))"
    using itbl.put_wf [OF itable_ex_wf prod.collapse [symmetric]] by blast
  from vr_itable_del_spec [OF this prod.collapse [symmetric], of "0x12"] show ?thesis by simp
qed

end
