(* ===== verification/VR_Itable_Walk.thy ===== *)
theory VR_Itable_Walk
  imports VR_Itable
begin

text \<open>
  The walk over an index table when it is torn down: \<open>vr_itable_delete\<close> hands every entry to the
  destructor exactly once. The number of times it meets a value is the number of indices
  that map to it. Besides, a store at an index that has an entry needs no memory and cannot fail.
\<close>

section \<open>The values of a table\<close>

primrec itbl_vals :: "'a islot \<Rightarrow> 'a list" where
  "itbl_vals INull = []"
| "itbl_vals (IStride xs) = concat (map itbl_vals xs)"
| "itbl_vals (IData d) = [d]"

lemma itbl_exit_vals: "map snd (itbl_exit t i base j xs) = concat (map itbl_vals xs)"
  by (induction t i base j xs rule: itbl_exit.induct) (auto simp: Let_def split: islot.split)

lemma count_list_concat: "count_list (concat xss) q = (\<Sum>m<length xss. count_list (xss ! m) q)"
  by (induction xss) (simp_all add: lessThan_Suc_eq_insert_0 sum.reindex image_iff)

lemma card_div_mod:
  fixes P :: "nat \<Rightarrow> nat \<Rightarrow> bool"
  shows "card {y. y < 2 ^ (h + w) \<and> P (y div 2 ^ h) (y mod 2 ^ h)} = (\<Sum>m<2 ^ w. card {y. y < 2 ^ h \<and> P m y})"
proof -
  let ?S = "SIGMA m:{..<2 ^ w}. {y. y < 2 ^ h \<and> P m y}"
  have lt: "m * 2 ^ h + y < 2 ^ (h + w)" if "m < 2 ^ w" "y < 2 ^ h" for m y :: nat
  proof -
    have "Suc m * 2 ^ h \<le> 2 ^ w * 2 ^ h" using that(1) by (intro mult_le_mono1) simp
    then show ?thesis using that(2) by (simp add: power_add mult.commute)
  qed
  have "bij_betw (\<lambda>y. (y div 2 ^ h, y mod 2 ^ h)) {y. y < 2 ^ (h + w) \<and> P (y div 2 ^ h) (y mod 2 ^ h)} ?S"
    by (rule bij_betw_byWitness [where f' = "\<lambda>(m, y). m * 2 ^ h + y"])
       (auto simp: power_add less_mult_imp_div_less mult.commute intro: lt [unfolded power_add])
  then have "card {y. y < 2 ^ (h + w) \<and> P (y div 2 ^ h) (y mod 2 ^ h)} = card ?S" by (rule bij_betw_same_card)
  also have "\<dots> = (\<Sum>m<2 ^ w. card {y. y < 2 ^ h \<and> P m y})" by (subst card_SigmaI) auto
  finally show ?thesis .
qed

section \<open>Counting the indices\<close>

text \<open>The part of the strides from \<open>i\<close> on; \<open>h\<close> is the number of index bits they use.\<close>

lemma itbl_get_mod:
  assumes g: "stride_geom (tot + h) tot (drop i (stride_len t)) (drop i (stride_shift t))"
    and n: "i + n = length (stride_len t)" and e: "unat x mod 2 ^ h = unat y mod 2 ^ h"
  shows "itbl_get_loop t x n i p = itbl_get_loop t y n i p"
proof (rule itbl_get_loop_same)
  fix k assume k: "i \<le> k" "k < i + n"
  have l: "length (drop i (stride_len t)) = n" "length (stride_shift t) = length (stride_len t)"
    using n stride_geom_length [OF g] k by auto
  have "\<forall>m<n. stride_id (drop i (stride_len t) ! m) (drop i (stride_shift t) ! m) x =
              stride_id (drop i (stride_len t) ! m) (drop i (stride_shift t) ! m) y"
    using stride_ids_eq_iff [OF g, of x y] e l by simp
  then have "stride_id (drop i (stride_len t) ! (k - i)) (drop i (stride_shift t) ! (k - i)) x =
             stride_id (drop i (stride_len t) ! (k - i)) (drop i (stride_shift t) ! (k - i)) y" using k by simp
  then show "itbl_id t x k = itbl_id t y k" using k l n by (simp add: itbl_id_stride)
qed

lemma itbl_vals_count:
  assumes "stride_geom (tot + h) tot (drop i (stride_len t)) (drop i (stride_shift t))" "i + n = length (stride_len t)"
    "tot + h \<le> 32" "itbl_shape t n i p"
  shows "count_list (itbl_vals p) q = card {y. y < 2 ^ h \<and> slot_data (itbl_get_loop t (of_nat y) n i p) = Some q}"
  using assms
proof (induction n arbitrary: i tot h p)
  case 0
  then have "h = 0" by (cases "drop i (stride_shift t)") auto
  then show ?case using 0 by (cases p) (auto simp: itbl_shape.simps)
next
  case (Suc n)
  have il: "i < length (stride_len t)" using Suc.prems(2) by simp
  then have "i < length (stride_shift t)" using stride_geom_length [OF Suc.prems(1)] by simp
  then have "stride_geom (tot + h) tot (stride_len t ! i # drop (Suc i) (stride_len t)) (stride_shift t ! i # drop (Suc i) (stride_shift t))"
    using Suc.prems(1) il by (simp only: Cons_nth_drop_Suc)
  then obtain w where w: "w < 32" "stride_len t ! i = shl1 w" "stride_shift t ! i = tot + h - (tot + w)" "tot + w \<le> tot + h"
    "stride_geom (tot + h) (tot + w) (drop (Suc i) (stride_len t)) (drop (Suc i) (stride_shift t))" by auto
  define k where "k = h - w"
  have h: "h = k + w" and s: "stride_shift t ! i = k" using w by (auto simp: k_def)
  have g: "stride_geom ((tot + w) + k) (tot + w) (drop (Suc i) (stride_len t)) (drop (Suc i) (stride_shift t))"
    using w(5) h by (simp add: ac_simps)
  show ?case
  proof (cases p)
    case (IStride xs)
    have len: "length xs = 2 ^ w" and sh: "\<And>x. x \<in> set xs \<Longrightarrow> itbl_shape t n (Suc i) x"
      using Suc.prems(4) IStride w(1,2) by (auto simp: itbl_shape.simps unat_shl1)
    have "Suc i + n = length (stride_len t)" "tot + w + k \<le> 32" using Suc.prems(2,3) h by simp_all
    note IH = Suc.IH [OF g this]
    have get: "itbl_get_loop t (of_nat y) (Suc n) i p = itbl_get_loop t (of_nat (y mod 2 ^ k)) n (Suc i) (xs ! (y div 2 ^ k))"
      if y: "y < 2 ^ h" for y
    proof -
      have "(2::nat) ^ h \<le> 2 ^ 32" using Suc.prems(3) by (intro power_increasing) auto
      then have b: "y < 2 ^ 32" using y by (rule less_le_trans [rotated])
      then have u: "unat (of_nat y :: u32) = y" by (simp add: unat_of_nat take_bit_nat_eq_self)
      have u': "unat (of_nat (y mod 2 ^ k) :: u32) = y mod 2 ^ k"
        using le_less_trans [OF mod_less_eq_dividend b] by (simp add: unat_of_nat take_bit_nat_eq_self)
      have "y div 2 ^ k < 2 ^ w" using y h by (simp add: power_add less_mult_imp_div_less mult.commute)
      then have "itbl_id t (of_nat y) i = y div 2 ^ k" using w(1,2) s u by (simp add: itbl_id_stride stride_id_eq)
      then show ?thesis using itbl_get_mod [OF g \<open>Suc i + n = _\<close>, of "of_nat y" "of_nat (y mod 2 ^ k)"] u u' IStride
        by (simp add: itbl_get_stride)
    qed
    have "count_list (itbl_vals p) q = (\<Sum>m<2 ^ w. count_list (itbl_vals (xs ! m)) q)"
      using len IStride by (simp add: count_list_concat)
    also have "\<dots> = (\<Sum>m<2 ^ w. card {y. y < 2 ^ k \<and> slot_data (itbl_get_loop t (of_nat y) n (Suc i) (xs ! m)) = Some q})"
      using IH sh len by (intro sum.cong) simp_all
    also have "\<dots> = card {y. y < 2 ^ h \<and> slot_data (itbl_get_loop t (of_nat (y mod 2 ^ k)) n (Suc i) (xs ! (y div 2 ^ k))) = Some q}"
      unfolding h by (rule card_div_mod [symmetric])
    also have "\<dots> = card {y. y < 2 ^ h \<and> slot_data (itbl_get_loop t (of_nat y) (Suc n) i p) = Some q}"
      using get by (intro arg_cong [where f = card]) auto
    finally show ?thesis .
  qed (use Suc.prems(4) in \<open>auto simp: itbl_shape.simps\<close>)
qed

text \<open>How often the destructor gets a value.\<close>

lemma vr_itable_delete_count:
  assumes "itbl_wf t"
  shows "count_list (map snd (vr_itable_delete (Some t))) q = card {y. y < 2 ^ index_len t \<and> vr_itable_get (Some t) (of_nat y) = Some q}"
proof -
  have sh: "itbl_shape t (stride_cnt t) 0 (itbl_data t)" using assms by (simp add: itbl_wf_def)
  have "count_list (itbl_vals (itbl_data t)) q =
      card {y. y < 2 ^ index_len t \<and> slot_data (itbl_get_loop t (of_nat y) (stride_cnt t) 0 (itbl_data t)) = Some q}"
    by (rule itbl_vals_count [of 0]) (use assms in \<open>auto simp: itbl_wf_def\<close>)
  moreover have "map snd (vr_itable_delete (Some t)) = itbl_vals (itbl_data t)"
    using sh itbl_cnt [OF assms] by (cases "itbl_data t"; cases "stride_cnt t")
      (auto simp: vr_itable_delete_def itbl_exit_vals itbl_shape.simps)
  ultimately show ?thesis by (simp add: vr_itable_get_def)
qed

section \<open>Stores that need no memory\<close>

lemma itbl_set_loop_present:
  assumes "itbl_wf t" "i + n < stride_cnt t" "itbl_shape t (Suc n) i (IStride xs)"
    "slot_data (itbl_get_loop t x (Suc n) i (IStride xs)) \<noteq> None"
  shows "fst (itbl_set_loop t x d ok k n i xs) \<noteq> ItErr"
  using assms
proof (induction n arbitrary: i xs)
  case (Suc n)
  have sh: "itbl_shape t (Suc n) (Suc i) (xs ! itbl_id t x i)" using itbl_shape_nth [OF Suc.prems(1) _ Suc.prems(3)] Suc.prems(2) by simp
  show ?case
  proof (cases "xs ! itbl_id t x i")
    case (IStride ys)
    then have "fst (itbl_set_loop t x d ok k n (Suc i) ys) \<noteq> ItErr"
      using Suc.IH [OF Suc.prems(1), of "Suc i" ys] Suc.prems(2,4) sh by (simp add: itbl_get_stride)
    then show ?thesis using IStride by (simp add: Let_def split: prod.split) auto
  qed (use Suc.prems(4) sh in \<open>auto simp: itbl_get_stride itbl_shape.simps\<close>)
qed (simp add: Let_def)

lemma vr_itable_set_present:
  assumes "itable_wf tb" "vr_itable_get tb x \<noteq> None"
  shows "fst (vr_itable_set ok tb x d) \<noteq> ItErr"
proof -
  obtain t where t: "tb = Some t" "itbl_wf t" using assms(1) by (auto elim: itable_wfE)
  have sh: "itbl_shape t (Suc (stride_cnt t - 1)) 0 (itbl_data t)" using t(2) by (simp add: itbl_wf_def)
  show ?thesis
  proof (cases "itbl_data t")
    case (IStride xs)
    then have "fst (itbl_set_loop t x d ok 0 (stride_cnt t - 1) 0 xs) \<noteq> ItErr"
      using assms(2) t sh itbl_cnt [OF t(2)] by (intro itbl_set_loop_present) (auto simp: vr_itable_get_def)
    then show ?thesis using t IStride by (simp add: vr_itable_set_def split: prod.split) auto
  qed (use assms(2) t sh in \<open>auto simp: vr_itable_get_def itbl_shape.simps\<close>)
qed

section \<open>Stores that get all the memory they ask for\<close>

lemma itbl_set_loop_all: "(\<And>j. ok j) \<Longrightarrow> fst (itbl_set_loop t x d ok k n i xs) \<noteq> ItErr"
  by (induction n arbitrary: k i xs) (auto simp: Let_def split: islot.split prod.split, (metis fst_conv)+)

lemma vr_itable_set_all:
  assumes "itable_wf tb" "\<And>j. ok j"
  shows "fst (vr_itable_set ok tb x d) \<noteq> ItErr"
proof -
  obtain t where "tb = Some t" using assms(1) by (auto elim: itable_wfE)
  moreover have "fst (itbl_set_loop t x d ok k n i xs) \<noteq> ItErr" for k n i xs by (rule itbl_set_loop_all [OF assms(2)])
  ultimately show ?thesis using assms(2) by (auto simp: vr_itable_set_def Let_def split: islot.split prod.split) (metis fst_conv)+
qed

end
