(* ===== verification/VR_Vxlan.thy ===== *)
theory VR_Vxlan
  imports VR_Mpls VR_Itable_Walk
begin

text \<open>
  \<^verbatim>\<open>dp-core/vr_vxlan.c\<close>: the table of virtual networks and the input of VXLAN packets. The table is an
  index table of 24 bits in two strides whose entries are pointers to nexthops; an entry holds a
  reference to its nexthop. \<open>vrouter_get\<close> always returns the one router. The offload driver is
  a parameter: \<open>off\<close> is its answer to a new entry. The arguments \<open>ok\<close> tell which
  allocations of a store succeed.
\<close>

section \<open>The table\<close>

record vx_state =
  vr_vxlan_table :: "nh_ptr vr_itbl option"
  vx_nh :: nh_state

definition vr_vxlan_del :: "u32 \<Rightarrow> vx_state \<Rightarrow> vr_ret \<times> vx_state" where
  "vr_vxlan_del vnid st =
     (case vr_itable_del (vr_vxlan_table st) vnid of (nh, tb) \<Rightarrow>
        (RetOk, st\<lparr>vr_vxlan_table := tb,
                    vx_nh := (case nh of None \<Rightarrow> vx_nh st | Some nh \<Rightarrow> vrouter_put_nexthop nh (vx_nh st))\<rparr>))"

text \<open>\<open>vr_vxlan_add\<close>: \<open>ok\<close> is for the first store, \<open>ok'\<close> for the one that restores the old entry.\<close>

definition vr_vxlan_add ::
  "alloc_sched \<Rightarrow> alloc_sched \<Rightarrow> (nh_ptr \<Rightarrow> u32 \<Rightarrow> vr_ret) \<Rightarrow> u32 \<Rightarrow> u32 \<Rightarrow> vx_state \<Rightarrow> vr_ret \<times> vx_state" where
  "vr_vxlan_add ok ok' off vnid nhid st =
     (case vrouter_get_nexthop nhid (vx_nh st) of (nh, s) \<Rightarrow>
        if nh = 0 then (RetErr EINVAL, st\<lparr>vx_nh := s\<rparr>)
        else case vr_itable_set ok (vr_vxlan_table st) vnid (Some nh) of (nh_old, tb) \<Rightarrow>
          let ret = off nh vnid
          in if ret \<noteq> RetOk
             then (ret, st\<lparr>vr_vxlan_table :=
                              (case nh_old of
                                 ItOld (Some old) \<Rightarrow> snd (vr_itable_set ok' tb vnid (Some old))
                               | _ \<Rightarrow> snd (vr_itable_del tb vnid)),
                            vx_nh := vrouter_put_nexthop nh s\<rparr>)
             else (case nh_old of
                     ItErr \<Rightarrow> (RetErr EINVAL, st\<lparr>vr_vxlan_table := tb, vx_nh := s\<rparr>)
                   | ItOld None \<Rightarrow> (ret, st\<lparr>vr_vxlan_table := tb, vx_nh := s\<rparr>)
                   | ItOld (Some old) \<Rightarrow> (ret, st\<lparr>vr_vxlan_table := tb, vx_nh := vrouter_put_nexthop old s\<rparr>)))"

text \<open>The answers to get and dump requests. The dump starts behind the marker, if that is not zero; \<open>room n\<close>
  tells whether the message takes one more object after \<open>n\<close>, and \<open>dok\<close> whether the dump can be set up.\<close>

definition vr_vxlan_make_req :: "vx_state \<Rightarrow> nh_ptr \<Rightarrow> u32 \<Rightarrow> u32 \<times> u32" where
  "vr_vxlan_make_req st nh vnid = (vnid, if nh = 0 then 0 else nh_id (nh_heap (vx_nh st) ! nh))"

definition vr_vxlan_get :: "u32 \<Rightarrow> vx_state \<Rightarrow> vr_ret \<times> (u32 \<times> u32) option" where
  "vr_vxlan_get vnid st =
     (case vr_itable_get (vr_vxlan_table st) vnid of
        None \<Rightarrow> (RetErr ENOENT, None)
      | Some nh \<Rightarrow> (RetOk, Some (vr_vxlan_make_req st nh vnid)))"

definition vr_vxlan_trav_cb ::
  "(nat \<Rightarrow> bool) \<Rightarrow> vx_state \<Rightarrow> u32 \<Rightarrow> nh_ptr \<Rightarrow> (u32 \<times> u32) list \<Rightarrow> int \<times> (u32 \<times> u32) list" where
  "vr_vxlan_trav_cb room st index nh out =
     (if room (length out) then (1, out @ [vr_vxlan_make_req st nh index]) else (-1, out))"

definition vr_vxlan_dump :: "(nat \<Rightarrow> bool) \<Rightarrow> bool \<Rightarrow> u32 \<Rightarrow> vx_state \<Rightarrow> (u32 \<times> u32) list exec" where
  "vr_vxlan_dump room dok vnid st =
     (if \<not> dok then Done []
      else exec_bind (vr_itable_trav (vr_vxlan_table st) (vr_vxlan_trav_cb room st) (if vnid \<noteq> 0 then vnid + 1 else vnid) [])
             (\<lambda>(_, out). Done out))"

definition vr_vxlan_destroy :: "u32 \<times> nh_ptr \<Rightarrow> nh_state \<Rightarrow> nh_state" where
  "vr_vxlan_destroy e s = (if snd e \<noteq> 0 then vrouter_put_nexthop (snd e) s else s)"

definition vr_vxlan_exit :: "vx_state \<Rightarrow> vx_state" where
  "vr_vxlan_exit st =
     st\<lparr>vx_nh := fold vr_vxlan_destroy (vr_itable_delete (vr_vxlan_table st)) (vx_nh st), vr_vxlan_table := None\<rparr>"

definition vr_vxlan_init :: "alloc_sched \<Rightarrow> nat \<Rightarrow> vx_state \<Rightarrow> vr_ret \<times> vx_state" where
  "vr_vxlan_init ok page_shift st =
     (if vr_vxlan_table st \<noteq> None then (RetOk, st)
      else let st = st\<lparr>vr_vxlan_table := vr_itable_create ok page_shift 24 [12, 12]\<rparr>
           in if vr_vxlan_table st = None then (RetErr ENOMEM, st) else (RetOk, st))"

record vr_vxlan_req =
  vxlanr_op :: sandesh_op
  vxlanr_vnid :: u32
  vxlanr_nhid :: u32

definition vr_vxlan_req_process ::
  "alloc_sched \<Rightarrow> alloc_sched \<Rightarrow> (nh_ptr \<Rightarrow> u32 \<Rightarrow> vr_ret) \<Rightarrow> (nat \<Rightarrow> bool) \<Rightarrow> bool \<Rightarrow> vr_vxlan_req \<Rightarrow> vx_state \<Rightarrow> (tbl_reply \<times> vx_state) exec" where
  "vr_vxlan_req_process ok ok' off room dok req st =
     (case vxlanr_op req of
        SANDESH_OP_ADD \<Rightarrow> (case vr_vxlan_add ok ok' off (vxlanr_vnid req) (vxlanr_nhid req) st of (ret, st) \<Rightarrow> Done (ReplyRet ret, st))
      | SANDESH_OP_GET \<Rightarrow> (case vr_vxlan_get (vxlanr_vnid req) st of (ret, ob) \<Rightarrow> Done (ReplyObj ret ob, st))
      | SANDESH_OP_DUMP \<Rightarrow> exec_bind (vr_vxlan_dump room dok (vxlanr_vnid req) st) (\<lambda>out. Done (ReplyDump out, st))
      | SANDESH_OP_DEL \<Rightarrow> (case vr_vxlan_del (vxlanr_vnid req) st of (ret, st) \<Rightarrow> Done (ReplyRet ret, st))
      | SANDESH_OP_OTHER \<Rightarrow> Done (ReplyNone, st))"

section \<open>Input of a packet\<close>

definition VR_VXLAN_IBIT :: u32 where "VR_VXLAN_IBIT = 0x08000000"
definition VR_VXLAN_RABIT :: u32 where "VR_VXLAN_RABIT = 0x01000000"
definition VR_VXLAN_VNID_SHIFT :: nat where "VR_VXLAN_VNID_SHIFT = 8"

text \<open>\<open>sizeof(struct vr_vxlan)\<close>: the flags and the number of the network.\<close>

definition vr_vxlan_size :: u32 where "vr_vxlan_size = 8"

text \<open>The packet is dropped, trapped to the agent with the VRF, or handed to a nexthop.\<close>

datatype vx_result = VxDrop drop_reason | VxTrap u16 vr_packet | VxOutput nh_ptr vr_forwarding_md vr_packet

definition vx_deliver ::
  "u8 list \<Rightarrow> (nat \<Rightarrow> u16) \<Rightarrow> bool \<Rightarrow> u32 \<Rightarrow> u32 \<Rightarrow> nh_ptr \<Rightarrow> vr_forwarding_md \<Rightarrow> vr_packet \<Rightarrow> vx_state \<Rightarrow> vx_result exec" where
  "vx_deliver buf vif_vrf vr_perfr flags vnid p fmd pkt st =
     (let fmd = (vr_fmd_set_label vnid VR_LABEL_TYPE_VXLAN_ID fmd)\<lparr>fmd_vlan := VLAN_ID_INVALID\<rparr>
      in exec_bind (vr_pkt_type buf 0 (Some fmd) pkt) (\<lambda>(ok, fmd', pkt).
           if \<not> ok then Done (VxDrop VP_DROP_INVALID_PACKET)
           else if p = 0 then Fault
           else exec_bind (nh_dvrf vif_vrf (nh_heap (vx_nh st) ! p) pkt) (\<lambda>v.
             let fmd = (the fmd')\<lparr>fmd_dvrf := v\<rparr>
             in if flags AND VR_VXLAN_RABIT \<noteq> 0 then Done (VxTrap v pkt)
                else Done (VxOutput p fmd (if vr_perfr then pkt\<lparr>vp_flags := vp_flags pkt OR VP_FLAG_GRO\<rparr> else pkt)))))"

definition vr_vxlan_input ::
  "u8 list \<Rightarrow> (vr_packet \<Rightarrow> u16 option) \<Rightarrow> (nat \<Rightarrow> u16) \<Rightarrow> bool \<Rightarrow> vr_forwarding_md option \<Rightarrow> vr_packet \<Rightarrow> vx_state \<Rightarrow> vx_result exec" where
  "vr_vxlan_input buf host vif_vrf vr_perfr fmd pkt st =
     (let fmd = (case fmd of None \<Rightarrow> vr_init_forwarding_md | Some fmd \<Rightarrow> fmd)
      in case pkt_network_header host pkt of
           None \<Rightarrow> Fault
         | Some h \<Rightarrow> exec_bind (rd32_raw buf pkt (unat h + 12)) (\<lambda>saddr.
             let fmd = fmd\<lparr>fmd_outer_src_ip := saddr\<rparr>
             in exec_bind (rd32 buf pkt (unat (pkt_data pkt))) (\<lambda>flags.
                  if flags AND VR_VXLAN_IBIT = 0 then Done (VxDrop VP_DROP_INVALID_VNID)
                  else if fmd_fe fmd = None
                  then exec_bind (rd32 buf pkt (unat (pkt_data pkt) + 4)) (\<lambda>w.
                         let vnid = drop_bit VR_VXLAN_VNID_SHIFT w
                         in case pkt_pull pkt vr_vxlan_size of
                              (None, _) \<Rightarrow> Done (VxDrop VP_DROP_PULL)
                            | (Some _, pkt) \<Rightarrow>
                                (case vr_itable_get (vr_vxlan_table st) vnid of
                                   None \<Rightarrow> Done (VxDrop VP_DROP_INVALID_VNID)
                                 | Some p \<Rightarrow> vx_deliver buf vif_vrf vr_perfr flags vnid p fmd pkt st))
                  else vx_deliver buf vif_vrf vr_perfr flags (fmd_label fmd)
                         (case vp_nh pkt of None \<Rightarrow> 0 | Some p \<Rightarrow> p) fmd pkt st)))"

end
