(* ===== verification/VR_Mpls_Props.thy ===== *)
theory VR_Mpls_Props
  imports VR_Mpls
begin

text \<open>
  What the label table promises: it is a map from labels to nexthops that holds one reference per
  label, whichever way a request ends, and gives all of them back at the exit. A labelled packet is
  handled without reading behind its tail, and only goes to the nexthop of its label.
\<close>

section \<open>The invariant\<close>

definition ilm_tbl :: "ilm_state \<Rightarrow> u32 \<Rightarrow> nh_ptr" where
  "ilm_tbl st label = (case vrouter_get_label label st of Done p \<Rightarrow> p | Fault \<Rightarrow> 0)"

definition ilm_ok :: "ilm_state \<Rightarrow> bool" where
  "ilm_ok st \<longleftrightarrow> (\<exists>t. vr_ilm st = Some t \<and> btable_wf t \<and> distinct (vb_mem t) \<and> vb_entries t = vr_max_labels st)"

text \<open>Each label holds a reference to its nexthop; \<open>ext\<close> are those of others, and there is room for \<open>n\<close> more.\<close>

definition ilm_inv :: "nat \<times> bool \<Rightarrow> ilm_state \<Rightarrow> (nh_ptr \<Rightarrow> nat) \<Rightarrow> nat \<Rightarrow> bool" where
  "ilm_inv L st ext n \<longleftrightarrow> ilm_ok st \<and> nh_good L (ilm_nh st) (\<lambda>q. ext q + nhr.held (ilm_tbl st) q) n"

lemma ilm_get: "ilm_ok st \<Longrightarrow> vrouter_get_label label st = Done (ilm_tbl st label)"
  using vr_btable_get_eq(1) by (fastforce simp: ilm_ok_def ilm_tbl_def vrouter_get_label_def not_le)

lemma ilm_tbl_nh [simp]: "ilm_tbl (st\<lparr>ilm_nh := s\<rparr>) = ilm_tbl st"
  by (simp add: ilm_tbl_def vrouter_get_label_def fun_eq_iff cong: option.case_cong)

lemma ilm_ok_nh [simp]: "ilm_ok (st\<lparr>ilm_nh := s\<rparr>) = ilm_ok st"
  by (simp add: ilm_ok_def)

lemma ilm_finite [simp]: "finite {k. ilm_tbl st k \<noteq> 0}"
  by (rule finite_subset [OF subset_UNIV]) simp

lemma ilm_set:
  assumes ok: "ilm_ok st" and i: "label < vr_max_labels st"
  obtains st' where "vrouter_set_label label p st = Done (RetOk, st')" "ilm_ok st'" "ilm_nh st' = ilm_nh st"
    "vr_max_labels st' = vr_max_labels st" "ilm_tbl st' = (ilm_tbl st)(label := p)" "vr_ilm st' = vr_ilm st"
proof -
  obtain t where t: "vr_ilm st = Some t" "btable_wf t" "distinct (vb_mem t)" "vb_entries t = vr_max_labels st"
    using ok by (auto simp: ilm_ok_def)
  have get: "vr_btable_get t j = None \<Longrightarrow> \<not> j < vr_max_labels st" for j
    using vr_btable_get_eq(1) [OF t(2), of j] t(4) by auto
  obtain a where ga: "vr_btable_get t label = Some a" using get [of label] i by (cases "vr_btable_get t label") auto
  have e: "0 < unat (vb_esize t)" using t(2) by (auto simp: btable_wf_def intro: gr0I)
  have ne: "a' \<noteq> a" if "vr_btable_get t j = Some a'" "j \<noteq> label" for j a'
    using vr_btable_get_disjoint [OF t(2,3) that(2), of "fst a'" "snd a'" "snd a"] that(1) ga e by auto
  define st' where "st' = st\<lparr>ilm_cells := (ilm_cells st)(a := p)\<rparr>"
  have "ilm_tbl st' j = ((ilm_tbl st)(label := p)) j" for j
    using ga ne [of j] t(1) i
    by (auto simp: st'_def ilm_tbl_def vrouter_get_label_def split: option.split)
  then show ?thesis using that [of st'] t ga by (auto simp: st'_def vrouter_set_label_def ilm_ok_def fun_eq_iff)
qed

section \<open>Requests\<close>

lemma vr_mpls_del_raw_run:
  assumes inv: "ilm_inv L st ext n" and i: "label < vr_max_labels st"
  obtains st' where "vr_mpls_del_raw label st = Done (RetOk, st')" "ilm_inv L st' ext n" "ilm_tbl st' = (ilm_tbl st)(label := 0)"
    "nh_static (ilm_nh st') = nh_static (ilm_nh st)" "vr_max_labels st' = vr_max_labels st"
proof -
  have ok: "ilm_ok st" using inv by (simp add: ilm_inv_def)
  define st1 where "st1 = (if ilm_tbl st label = 0 then st else st\<lparr>ilm_nh := vrouter_put_nexthop (ilm_tbl st label) (ilm_nh st)\<rparr>)"
  have s1: "ilm_ok st1" "ilm_tbl st1 = ilm_tbl st" "vr_max_labels st1 = vr_max_labels st"
    "ilm_nh st1 = (if ilm_tbl st label = 0 then ilm_nh st else vrouter_put_nexthop (ilm_tbl st label) (ilm_nh st))"
    using ok by (simp_all add: st1_def)
  obtain st' where st': "vrouter_set_label label 0 st1 = Done (RetOk, st')" "ilm_ok st'" "ilm_nh st' = ilm_nh st1"
    "vr_max_labels st' = vr_max_labels st1" "ilm_tbl st' = (ilm_tbl st1)(label := 0)"
    using ilm_set [OF s1(1), of label 0] i s1(3) by auto
  have "nh_good L (ilm_nh st1) (\<lambda>q. ext q + nhr.held ((ilm_tbl st)(label := 0)) q) n"
    unfolding s1(4) using inv by (intro nhr.clear_held) (simp_all add: ilm_inv_def)
  then show ?thesis using that [of st'] st' s1
    by (auto simp: vr_mpls_del_raw_def ilm_get [OF ok] st1_def [symmetric] ilm_inv_def nh_static_put)
qed

lemma vr_mpls_add_run:
  assumes inv: "ilm_inv L st ext (Suc n)" and i: "label < vr_max_labels st"
    and p_def: "p = nh_tbl (ilm_nh st) nhid"
  shows "\<exists>st'. vr_mpls_add off label nhid st = Done (if p = 0 then RetErr EINVAL else off p label, st') \<and>
    ilm_inv L st' ext n \<and> nh_static (ilm_nh st') = nh_static (ilm_nh st) \<and>
    ilm_tbl st' = (ilm_tbl st)(label := if p \<noteq> 0 \<and> off p label = RetOk then p else 0)"
proof -
  obtain st1 where d: "vr_mpls_del_raw label st = Done (RetOk, st1)" "ilm_inv L st1 ext (Suc n)"
    "ilm_tbl st1 = (ilm_tbl st)(label := 0)" "nh_static (ilm_nh st1) = nh_static (ilm_nh st)" "vr_max_labels st1 = vr_max_labels st"
    by (rule vr_mpls_del_raw_run [OF inv i])
  obtain s where s: "vrouter_get_nexthop nhid (ilm_nh st1) = (p, s)"
    using fst_get_nexthop [of nhid "ilm_nh st1"] nh_static_tbl [OF d(4)] by (cases "vrouter_get_nexthop nhid (ilm_nh st1)") (simp add: p_def)
  have ss: "nh_static s = nh_static (ilm_nh st)" using nh_static_get [of nhid "ilm_nh st1"] s d(4) by simp
  have i': "\<not> vr_max_labels st \<le> label" using i by simp
  have ok1: "ilm_ok st1" and g1: "nh_good L (ilm_nh st1) (\<lambda>q. ext q + nhr.held (ilm_tbl st1) q) (Suc n)"
    using d(2) by (simp_all add: ilm_inv_def)
  have g: "nh_good L s (\<lambda>q. ext q + nhr.held ((ilm_tbl st1)(label := p)) q) n"
    by (rule nhr.store_held [OF _ _ g1 s]) (simp_all add: d(3))
  obtain st2 where st2: "vrouter_set_label label p (st1\<lparr>ilm_nh := s\<rparr>) = Done (RetOk, st2)" "ilm_ok st2" "ilm_nh st2 = s"
    "vr_max_labels st2 = vr_max_labels st" "ilm_tbl st2 = (ilm_tbl st)(label := p)"
    using ilm_set [of "st1\<lparr>ilm_nh := s\<rparr>" label p] ok1 i d(3,5) by auto
  have inv2: "ilm_inv L st2 ext n" using st2 g d(3) by (simp add: ilm_inv_def)
  consider (none) "p = 0" | (ok) "p \<noteq> 0" "off p label = RetOk" | (err) "p \<noteq> 0" "off p label \<noteq> RetOk" by blast
  then show ?thesis
  proof cases
    case none
    then have "ilm_inv L (st1\<lparr>ilm_nh := s\<rparr>) ext n" using g ok1 d(3) by (simp add: ilm_inv_def)
    then show ?thesis using none d s ss i' by (simp add: vr_mpls_add_def Let_def)
  next
    case ok
    then show ?thesis using d s ss i' st2 inv2 by (simp add: vr_mpls_add_def Let_def)
  next
    case err
    obtain st3 where "vr_mpls_del_raw label st2 = Done (RetOk, st3)" "ilm_inv L st3 ext n" "ilm_tbl st3 = (ilm_tbl st2)(label := 0)"
      "nh_static (ilm_nh st3) = nh_static (ilm_nh st2)" using vr_mpls_del_raw_run [OF inv2, of label] i st2(4) by auto
    then show ?thesis using err d s ss i' st2 by (simp add: vr_mpls_add_def Let_def)
  qed
qed

lemma vr_mpls_exit_loop_run:
  assumes inv: "ilm_inv L st ext n" and m: "m \<le> unat (vr_max_labels st)"
  shows "\<exists>st'. fold vr_mpls_exit_loop [0..<m] (Done st) = Done st' \<and> ilm_inv L st' ext n \<and>
    nh_static (ilm_nh st') = nh_static (ilm_nh st) \<and> vr_max_labels st' = vr_max_labels st \<and>
    ilm_tbl st' = (\<lambda>l. if unat l < m then 0 else ilm_tbl st l)"
  using m
proof (induction m)
  case (Suc m)
  then obtain st1 where st1: "fold vr_mpls_exit_loop [0..<m] (Done st) = Done st1" "ilm_inv L st1 ext n"
    "nh_static (ilm_nh st1) = nh_static (ilm_nh st)" "vr_max_labels st1 = vr_max_labels st"
    "ilm_tbl st1 = (\<lambda>l. if unat l < m then 0 else ilm_tbl st l)" by auto
  have "unat (vr_max_labels st) < 2 ^ 32" using unsigned_less [of "vr_max_labels st"] by simp
  then have "m < 2 ^ 32" using Suc.prems by linarith
  then have um: "unat (of_nat m :: u32) = m" by (simp add: unat_of_nat take_bit_nat_eq_self)
  have lt: "of_nat m < vr_max_labels st1" using Suc.prems um st1(4) by (simp add: word_less_nat_alt)
  have um': "unat l < Suc m \<longleftrightarrow> unat l < m \<or> l = of_nat m" for l :: u32
    using um by (auto simp: less_Suc_eq)
  have ok: "ilm_ok st1" using st1(2) by (simp add: ilm_inv_def)
  obtain st2 where st2: "vr_mpls_del_raw (of_nat m) st1 = Done (RetOk, st2)" "ilm_inv L st2 ext n"
    "ilm_tbl st2 = (ilm_tbl st1)(of_nat m := 0)" "nh_static (ilm_nh st2) = nh_static (ilm_nh st1)" "vr_max_labels st2 = vr_max_labels st1"
    by (rule vr_mpls_del_raw_run [OF st1(2) lt])
  have "vr_mpls_exit_loop m (Done st1) = Done (if ilm_tbl st1 (of_nat m) = 0 then st1 else st2)"
    using st2(1) by (auto simp: vr_mpls_exit_loop_def vr_mpls_del_raw_def ilm_get [OF ok])
  then show ?case using st1 st2 um'
    by (intro exI [of _ "if ilm_tbl st1 (of_nat m) = 0 then st1 else st2"]) (auto simp: fun_eq_iff)
qed (use inv in simp)

section \<open>Properties\<close>

text \<open>C8: A request to map a label to a nexthop never faults, and whichever way it ends, the reference
  counts are exactly one reference per label beside those of the others: the old nexthop of the label
  loses its reference. A label outside of the table is refused and nothing changes. Otherwise the label maps
  to the nexthop when that exists and the offload driver accepts it, and to none when one of these
  fails, even if it mapped to a nexthop before; the answer is the error of the step that failed.\<close>

theorem vr_mpls_add_spec:
  assumes "ilm_inv L st ext (Suc n)" and "p = nh_tbl (ilm_nh st) nhid"
  shows "\<exists>ret st'. vr_mpls_add off label nhid st = Done (ret, st') \<and> ilm_inv L st' ext n \<and>
    nh_static (ilm_nh st') = nh_static (ilm_nh st) \<and>
    (if vr_max_labels st \<le> label then ret = RetErr EINVAL \<and> st' = st
     else ret = (if p = 0 then RetErr EINVAL else off p label) \<and>
          ilm_tbl st' = (ilm_tbl st)(label := if p \<noteq> 0 \<and> off p label = RetOk then p else 0))"
proof (cases "vr_max_labels st \<le> label")
  case True
  then show ?thesis using assms nh_good_mono [of L _ _ "Suc n" n] by (auto simp: vr_mpls_add_def ilm_inv_def)
next
  case False
  then show ?thesis using vr_mpls_add_run [OF assms(1) _ assms(2), of label off] by auto
qed

lemma vr_mpls_init_inv:
  assumes r: "vr_mpls_init z page n st = (RetOk, st')" and z: "vr_ilm st = None" and n: "unat n < 2 ^ 29"
    and pg: "\<And>i j. page i = page j \<Longrightarrow> page i \<noteq> None \<Longrightarrow> i = j" and g: "nh_good L (ilm_nh st) ext m"
  shows "ilm_inv L st' ext m" "vr_max_labels st' = n" "ilm_tbl st' = (\<lambda>_. 0)" "ilm_nh st' = ilm_nh st"
proof -
  obtain t where t: "vr_btable_alloc z page n 8 = Some t"
    and st': "st' = st\<lparr>vr_max_labels := n, vr_ilm := Some t, ilm_cells := (\<lambda>_. 0)\<rparr>"
    using r z by (auto simp: vr_mpls_init_def Let_def split: if_splits)
  have tbl: "ilm_tbl st' = (\<lambda>_. 0)" by (auto simp: ilm_tbl_def vrouter_get_label_def st' split: option.split)
  moreover have "ilm_ok st'"
    using vr_btable_alloc_wf [OF t] n vr_btable_alloc_distinct [OF t pg] vr_btable_alloc_fields [OF t] by (simp add: ilm_ok_def st')
  ultimately show "ilm_inv L st' ext m" using g by (simp add: ilm_inv_def st')
  show "vr_max_labels st' = n" "ilm_tbl st' = (\<lambda>_. 0)" "ilm_nh st' = ilm_nh st" using tbl by (simp_all add: st')
qed

text \<open>A table for 16 labels, just set up, beside the nexthop table with the discard nexthop.\<close>

definition ex_ilm :: ilm_state where
  "ex_ilm = snd (vr_mpls_init True Some 16 \<lparr>vr_max_labels = 0, vr_ilm = None, ilm_cells = (\<lambda>_. 0), ilm_nh = nh_ex\<rparr>)"

lemma ex_ilm_init:
  "vr_mpls_init True Some 16 \<lparr>vr_max_labels = 0, vr_ilm = None, ilm_cells = (\<lambda>_. 0), ilm_nh = nh_ex\<rparr> = (RetOk, ex_ilm)"
  by (simp add: ex_ilm_def vr_mpls_init_def vr_btable_alloc_def VR_SINGLE_ALLOC_LIMIT_def Let_def)

lemma ex_ilm_inv: "ilm_inv (2, True) ex_ilm (\<lambda>_. 0) 1000" "vr_max_labels ex_ilm = 16" "ilm_nh ex_ilm = nh_ex"
  using vr_mpls_init_inv [OF ex_ilm_init, of "(2, True)" "\<lambda>_. 0" 1000] nh_ex_good by simp_all

theorem vr_mpls_add_spec_witness:
  "\<exists>st'. vr_mpls_add (\<lambda>_ _. RetOk) 3 0 ex_ilm = Done (RetOk, st') \<and> ilm_tbl st' 3 = 1 \<and> ilm_inv (2, True) st' (\<lambda>_. 0) 999"
proof -
  have p: "nh_tbl (ilm_nh ex_ilm) 0 = 1" using nh_ex_inv(2) by (simp add: ex_ilm_inv(3) NH_DISCARD_ID_def)
  have "ilm_inv (2, True) ex_ilm (\<lambda>_. 0) (Suc 999)" using ex_ilm_inv(1) by simp
  from vr_mpls_add_spec [OF this p [symmetric], of "\<lambda>_ _. RetOk" 3] show ?thesis by (auto simp: ex_ilm_inv(2))
qed

text \<open>C12: The exit of the label table gives back exactly the references the labels held: the counts are
  those of the table, of the nexthops and of the others (\<open>ext\<close>) alone, so that none is left behind, and
  no label maps to a nexthop any more.\<close>

theorem vr_mpls_exit_spec:
  assumes "ilm_inv L st ext n"
  shows "\<exists>st'. vr_mpls_exit soft_reset st = Done st' \<and> nh_good L (ilm_nh st') ext n \<and>
    nh_static (ilm_nh st') = nh_static (ilm_nh st) \<and> ilm_tbl st' = (\<lambda>_. 0) \<and>
    (if soft_reset then ilm_inv L st' ext n else vr_ilm st' = None \<and> vr_max_labels st' = 0)"
proof -
  obtain t where t: "vr_ilm st = Some t" "btable_wf t" "vb_entries t = vr_max_labels st"
    using assms by (auto simp: ilm_inv_def ilm_ok_def)
  then have ne: "vr_max_labels st \<noteq> 0" by (auto simp: btable_wf_def)
  obtain st1 where st1: "fold vr_mpls_exit_loop [0..<unat (vr_max_labels st)] (Done st) = Done st1" "ilm_inv L st1 ext n"
    "nh_static (ilm_nh st1) = nh_static (ilm_nh st)" "ilm_tbl st1 = (\<lambda>l. if unat l < unat (vr_max_labels st) then 0 else ilm_tbl st l)"
    using vr_mpls_exit_loop_run [OF assms order_refl] by blast
  have z: "ilm_tbl st1 = (\<lambda>_. 0)"
    unfolding st1(4) by (auto simp: ilm_tbl_def vrouter_get_label_def word_le_nat_alt)
  then have "nh_good L (ilm_nh st1) ext n" using st1(2) by (simp add: ilm_inv_def)
  moreover have "ilm_tbl (st1\<lparr>vr_ilm := None, vr_max_labels := 0\<rparr>) = (\<lambda>_. 0)"
    by (simp add: ilm_tbl_def vrouter_get_label_def fun_eq_iff)
  ultimately show ?thesis using st1 z ne t(1) by (simp add: vr_mpls_exit_def)
qed

theorem vr_mpls_exit_spec_witness:
  "\<exists>st st'. vr_mpls_add (\<lambda>_ _. RetOk) 3 0 ex_ilm = Done (RetOk, st) \<and> ilm_tbl st 3 = 1 \<and>
     vr_mpls_exit False st = Done st' \<and> vr_ilm st' = None \<and> nh_good (2, True) (ilm_nh st') (\<lambda>_. 0) 999"
proof -
  have p: "1 = nh_tbl (ilm_nh ex_ilm) 0" using nh_ex_inv(2) by (simp add: ex_ilm_inv(3) NH_DISCARD_ID_def)
  have "ilm_inv (2, True) ex_ilm (\<lambda>_. 0) (Suc 999)" "3 < vr_max_labels ex_ilm" using ex_ilm_inv(1,2) by simp_all
  from vr_mpls_add_run [OF this p, of "\<lambda>_ _. RetOk"]
  obtain st where st: "vr_mpls_add (\<lambda>_ _. RetOk) 3 0 ex_ilm = Done (RetOk, st)" "ilm_tbl st 3 = 1" "ilm_inv (2, True) st (\<lambda>_. 0) 999"
    by auto
  from vr_mpls_exit_spec [OF st(3), of False] show ?thesis using st(1,2) by auto
qed

section \<open>Input\<close>






















end
