(* ===== verification/VR_Vxlan_Props.thy ===== *)
theory VR_Vxlan_Props
  imports VR_Vxlan VR_Mpls_Props
begin

text \<open>
  What the table of virtual networks promises: it maps the 24 bits of a network number to a nexthop and
  holds one reference per network; a request that the offload driver refuses changes no lookup; the
  exit gives all references back. A packet is handled without reading behind its tail.
\<close>

section \<open>The invariant\<close>

definition vx_lookup :: "vx_state \<Rightarrow> u32 \<Rightarrow> nh_ptr" where
  "vx_lookup st vnid = (case vr_itable_get (vr_vxlan_table st) vnid of None \<Rightarrow> 0 | Some p \<Rightarrow> p)"

text \<open>The map from the network numbers to the entries.\<close>

definition vx_tbl :: "vx_state \<Rightarrow> nat \<Rightarrow> nh_ptr" where
  "vx_tbl st k = (if k < 2 ^ 24 then vx_lookup st (of_nat k) else 0)"

definition vx_key :: "u32 \<Rightarrow> nat" where
  "vx_key vnid = unat vnid mod 2 ^ 24"

definition vx_ok :: "vx_state \<Rightarrow> bool" where
  "vx_ok st \<longleftrightarrow> itable_wf (vr_vxlan_table st) \<and> itable_key (vr_vxlan_table st) = vx_key \<and>
     (\<forall>x. vr_itable_get (vr_vxlan_table st) x \<noteq> Some 0)"

definition vx_inv :: "nat \<times> bool \<Rightarrow> vx_state \<Rightarrow> (nh_ptr \<Rightarrow> nat) \<Rightarrow> nat \<Rightarrow> bool" where
  "vx_inv L st ext n \<longleftrightarrow> vx_ok st \<and> nh_good L (vx_nh st) (\<lambda>q. ext q + nhr.held (vx_tbl st) q) n"

lemma vx_ok_wf:
  assumes "vx_ok st"
  shows "itable_wf (vr_vxlan_table st)" "itable_key (vr_vxlan_table st) = vx_key"
  using assms by (auto simp: vx_ok_def)

lemma vx_nh_simps [simp]: "vx_lookup (st\<lparr>vx_nh := s\<rparr>) = vx_lookup st" "vx_tbl (st\<lparr>vx_nh := s\<rparr>) = vx_tbl st" "vx_ok (st\<lparr>vx_nh := s\<rparr>) = vx_ok st"
  by (simp_all add: vx_lookup_def vx_tbl_def vx_ok_def fun_eq_iff)

lemma vx_finite [simp]: "finite {k. vx_tbl st k \<noteq> 0}"
  by (rule finite_subset [of _ "{..<2 ^ 24}"]) (auto simp: vx_tbl_def split: if_splits)

lemma vx_key_nat: "k < 2 ^ 24 \<Longrightarrow> vx_key (of_nat k) = k"
  by (simp add: vx_key_def unat_of_nat take_bit_nat_eq_self)

lemma vx_tbl_key:
  assumes "vx_ok st"
  shows "vx_tbl st (vx_key x) = vx_lookup st x"
proof -
  have k: "vx_key x < 2 ^ 24" by (simp add: vx_key_def)
  then show ?thesis using itbl.get_key [OF vx_ok_wf(1) [OF assms], of "of_nat (vx_key x)" x] vx_key_nat [OF k]
    by (simp add: vx_tbl_def vx_lookup_def vx_ok_wf(2) [OF assms])
qed

text \<open>A change of the lookups at one network.\<close>

lemma vx_tbl_upd:
  assumes "vx_lookup st' = (\<lambda>y. if vx_key y = vx_key x then p else vx_lookup st y)"
  shows "vx_tbl st' = (vx_tbl st)(vx_key x := p)"
proof
  fix k
  have lt: "vx_key x < 2 ^ 24" by (simp add: vx_key_def)
  show "vx_tbl st' k = ((vx_tbl st)(vx_key x := p)) k"
  proof (cases "k < 2 ^ 24")
    case True
    then show ?thesis unfolding vx_tbl_def assms if_P [OF True] vx_key_nat [OF True] by (simp add: fun_upd_def)
  next
    case False
    then have "k \<noteq> vx_key x" using lt by blast
    then show ?thesis unfolding vx_tbl_def if_not_P [OF False] fun_upd_def by simp
  qed
qed

lemma vx_tbl_cong: "vx_lookup st' = vx_lookup st \<Longrightarrow> vx_tbl st' = vx_tbl st"
  by (simp add: vx_tbl_def fun_eq_iff)

text \<open>Storing and deleting an entry.\<close>

lemma vx_set:
  assumes ok: "vx_ok st" and r: "vr_itable_set ok (vr_vxlan_table st) vnid (Some p) = (r, tb)" and p: "p \<noteq> 0"
  defines "st' \<equiv> st\<lparr>vr_vxlan_table := tb\<rparr>"
  shows "vx_ok st'"
    "r = ItErr \<Longrightarrow> vx_lookup st' = vx_lookup st \<and> vx_lookup st vnid = 0"
    "r \<noteq> ItErr \<Longrightarrow> r = ItOld (vr_itable_get (vr_vxlan_table st) vnid) \<and>
       vx_lookup st' = (\<lambda>y. if vx_key y = vx_key vnid then p else vx_lookup st y)"
proof -
  note w = vx_ok_wf [OF ok]
  note put = itbl.put_wf [OF w(1) r]
  show err: "r = ItErr \<Longrightarrow> vx_lookup st' = vx_lookup st \<and> vx_lookup st vnid = 0"
    using itbl.put_err [OF w(1), of ok vnid "Some p" tb] vr_itable_set_present [OF w(1), of vnid ok "Some p"] r
    by (auto simp: vx_lookup_def st'_def fun_eq_iff split: option.split)
  show old: "r \<noteq> ItErr \<Longrightarrow> r = ItOld (vr_itable_get (vr_vxlan_table st) vnid) \<and>
       vx_lookup st' = (\<lambda>y. if vx_key y = vx_key vnid then p else vx_lookup st y)"
    using itbl.put_old [OF w(1), of ok vnid "Some p" _ tb] r w(2) by (cases r) (auto simp: vx_lookup_def st'_def fun_eq_iff)
  have "vr_itable_get tb x \<noteq> Some 0" for x
  proof (cases r)
    case ItErr
    then show ?thesis using itbl.put_err [OF w(1), of ok vnid "Some p" tb] r ok by (simp add: vx_ok_def)
  next
    case (ItOld old)
    then show ?thesis using itbl.put_old [OF w(1), of ok vnid "Some p" old tb] r ok p by (auto simp: vx_ok_def)
  qed
  then show "vx_ok st'" using put w(2) by (simp add: vx_ok_def st'_def)
qed

lemma vx_del:
  assumes ok: "vx_ok st" and r: "vr_itable_del (vr_vxlan_table st) vnid = (old, tb)"
  defines "st' \<equiv> st\<lparr>vr_vxlan_table := tb\<rparr>"
  shows "vx_ok st'" "old = vr_itable_get (vr_vxlan_table st) vnid"
    "vx_lookup st' = (\<lambda>y. if vx_key y = vx_key vnid then 0 else vx_lookup st y)"
proof -
  note w = vx_ok_wf [OF ok]
  note d = itbl.del_wf [OF w(1) r] itbl.del_old [OF w(1) r]
  show "vx_ok st'" using d ok w(2) by (auto simp: vx_ok_def st'_def)
  show "old = vr_itable_get (vr_vxlan_table st) vnid" using d(2) by simp
  show "vx_lookup st' = (\<lambda>y. if vx_key y = vx_key vnid then 0 else vx_lookup st y)"
    using d(2) w(2) by (auto simp: vx_lookup_def st'_def)
qed

lemma vx_lookup_key: "vx_ok st \<Longrightarrow> vx_key x = vx_key y \<Longrightarrow> vx_lookup st x = vx_lookup st y"
  using vx_tbl_key by metis

section \<open>Requests\<close>

text \<open>The offload driver refuses: the lookups are as before.\<close>

lemma vx_restore:
  assumes ok: "vx_ok st" and r: "vr_itable_set sc (vr_vxlan_table st) vnid (Some p) = (r, tb)" and p: "p \<noteq> 0"
    and st'_def: "st' = st\<lparr>vr_vxlan_table := case r of ItOld (Some old) \<Rightarrow> snd (vr_itable_set sc' tb vnid (Some old))
                      | _ \<Rightarrow> snd (vr_itable_del tb vnid)\<rparr>"
  shows "vx_ok st' \<and> vx_lookup st' = vx_lookup st"
proof -
  let ?s = "st\<lparr>vr_vxlan_table := tb\<rparr>"
  note s = vx_set [OF ok r p]
  have s1: "vx_ok ?s" by (rule s(1))
  show ?thesis
  proof (cases "\<exists>old. r = ItOld (Some old)")
    case True
    then obtain old where o: "r = ItOld (Some old)" by blast
    then have g: "vr_itable_get (vr_vxlan_table st) vnid = Some old" using s(3) by simp
    moreover have "vr_itable_get (vr_vxlan_table st) vnid \<noteq> Some 0" using ok by (simp add: vx_ok_def)
    ultimately have old: "old \<noteq> 0" "vx_lookup st vnid = old" by (simp_all add: vx_lookup_def)
    obtain r2 tb2 where r2: "vr_itable_set sc' (vr_vxlan_table ?s) vnid (Some old) = (r2, tb2)" by fastforce
    note s2 = vx_set [OF s1 r2 old(1)]
    have "vx_lookup ?s vnid = p" using s(3) o by simp
    then have "r2 \<noteq> ItErr" using s2(2) p by auto
    then have "vx_lookup (?s\<lparr>vr_vxlan_table := tb2\<rparr>) y = vx_lookup st y" for y
      using s2(3) s(3) o vx_lookup_key [OF ok, of y vnid] old(2) by (cases "vx_key y = vx_key vnid") simp_all
    then have "vx_lookup (?s\<lparr>vr_vxlan_table := tb2\<rparr>) = vx_lookup st" by (rule ext)
    then show ?thesis using s2(1) o r2 by (simp add: st'_def)
  next
    case False
    obtain o2 tb2 where d: "vr_itable_del (vr_vxlan_table ?s) vnid = (o2, tb2)" by fastforce
    note s2 = vx_del [OF s1 d]
    have l: "vx_lookup ?s y = vx_lookup st y" if "vx_key y \<noteq> vx_key vnid" for y
      using s(2,3) False that by (cases "r = ItErr") simp_all
    have z: "vx_lookup st vnid = 0"
      using s(2,3) False by (cases "r = ItErr") (auto simp: vx_lookup_def split: option.split)
    have "vx_lookup (?s\<lparr>vr_vxlan_table := tb2\<rparr>) y = vx_lookup st y" for y
      using s2(3) l [of y] vx_lookup_key [OF ok, of y vnid] z by (cases "vx_key y = vx_key vnid") simp_all
    then have "vx_lookup (?s\<lparr>vr_vxlan_table := tb2\<rparr>) = vx_lookup st" by (rule ext)
    moreover have "st' = ?s\<lparr>vr_vxlan_table := tb2\<rparr>"
      using False d by (auto simp: st'_def split: itbl_ret.splits option.splits)
    ultimately show ?thesis using s2(1) by simp
  qed
qed

lemma vx_swap:
  assumes inv: "vx_inv L st ext (Suc n)" and g: "vrouter_get_nexthop nhid (vx_nh st) = (p, s)" and p: "p \<noteq> 0"
    and r: "vr_itable_set ok (vr_vxlan_table st) vnid (Some p) = (r, tb)" "r \<noteq> ItErr"
  shows "vx_inv L (st\<lparr>vr_vxlan_table := tb, vx_nh := (if vx_lookup st vnid = 0 then s else vrouter_put_nexthop (vx_lookup st vnid) s)\<rparr>) ext n"
proof -
  have ok: "vx_ok st" and gd: "nh_good L (vx_nh st) (\<lambda>q. ext q + nhr.held (vx_tbl st) q) (Suc n)" using inv by (simp_all add: vx_inv_def)
  note v = vx_set [OF ok r(1) p]
  have "vx_tbl (st\<lparr>vr_vxlan_table := tb\<rparr>) = (vx_tbl st)(vx_key vnid := p)" using v(3) r(2) by (intro vx_tbl_upd) simp
  moreover have "nh_good L (if vx_lookup st vnid = 0 then s else vrouter_put_nexthop (vx_lookup st vnid) s)
      (\<lambda>q. ext q + nhr.held ((vx_tbl st)(vx_key vnid := p)) q) n"
    using nhr.swap_held [OF vx_finite gd g, of "vx_key vnid"] unfolding vx_tbl_key [OF ok] .
  ultimately show ?thesis using v(1) by (simp add: vx_inv_def)
qed

lemma vr_vxlan_add_run:
  assumes inv: "vx_inv L st ext (Suc n)" and p_def: "p = nh_tbl (vx_nh st) nhid" and r: "vr_vxlan_add ok ok' off vnid nhid st = (ret, st')"
  shows "nh_static (vx_nh st') = nh_static (vx_nh st) \<and>
    (if p \<noteq> 0 \<and> off p vnid = RetOk \<and> ret = RetOk
     then vx_inv L st' ext n \<and> vx_lookup st' = (\<lambda>y. if vx_key y = vx_key vnid then p else vx_lookup st y)
     else vx_lookup st' = vx_lookup st \<and> ret = (if p = 0 \<or> off p vnid = RetOk then RetErr EINVAL else off p vnid) \<and>
          vx_inv L st' (if p \<noteq> 0 \<and> off p vnid = RetOk then (\<lambda>q. ext q + of_bool (q = p)) else ext) n)"
proof -
  have ok: "vx_ok st" and gd: "nh_good L (vx_nh st) (\<lambda>q. ext q + nhr.held (vx_tbl st) q) (Suc n)" using inv by (simp_all add: vx_inv_def)
  obtain s where g: "vrouter_get_nexthop nhid (vx_nh st) = (p, s)"
    using fst_get_nexthop [of nhid "vx_nh st"] by (cases "vrouter_get_nexthop nhid (vx_nh st)") (simp add: p_def)
  have ss: "nh_static s = nh_static (vx_nh st)" using nh_static_get [of nhid "vx_nh st"] g by simp
  obtain o1 tb where o: "vr_itable_set ok (vr_vxlan_table st) vnid (Some p) = (o1, tb)" by fastforce
  have gs: "nh_good L s (\<lambda>q. (ext q + nhr.held (vx_tbl st) q) + of_bool (q = p)) n" if "p \<noteq> 0"
    using nh_good_get(1) [OF gd g that] .
  consider (none) "p = 0" | (off) "p \<noteq> 0" "off p vnid \<noteq> RetOk" | (err) "p \<noteq> 0" "off p vnid = RetOk" "o1 = ItErr"
    | (set) "p \<noteq> 0" "off p vnid = RetOk" "o1 \<noteq> ItErr" by blast
  then show ?thesis
  proof cases
    case none
    then have "s = vx_nh st" using get_nexthop_null(1) gd g by (auto simp: nh_good_def)
    then show ?thesis using r none g nh_good_mono [OF gd, of n] ok by (auto simp: vr_vxlan_add_def vx_inv_def)
  next
    case off
    note re = vx_restore [OF ok o off(1) refl, of ok']
    have "nh_good L (vrouter_put_nexthop p s) (\<lambda>q. ext q + nhr.held (vx_tbl st) q) n" by (rule nh_good_put [OF gs [OF off(1)]])
    moreover have "st' = (st\<lparr>vr_vxlan_table := case o1 of ItOld (Some old) \<Rightarrow> snd (vr_itable_set ok' tb vnid (Some old))
        | _ \<Rightarrow> snd (vr_itable_del tb vnid)\<rparr>)\<lparr>vx_nh := vrouter_put_nexthop p s\<rparr>" "ret = off p vnid"
      using r off g o by (auto simp: vr_vxlan_add_def Let_def)
    ultimately show ?thesis using re off ss vx_tbl_cong [OF conjunct2 [OF re]] by (simp add: vx_inv_def nh_static_put)
  next
    case err
    note v = vx_set [OF ok o err(1)]
    have "st' = (st\<lparr>vr_vxlan_table := tb\<rparr>)\<lparr>vx_nh := s\<rparr>" "ret = RetErr EINVAL" using r err g o by (auto simp: vr_vxlan_add_def Let_def)
    moreover have l: "vx_lookup (st\<lparr>vr_vxlan_table := tb\<rparr>) = vx_lookup st" using v(2) err(3) by simp
    moreover have "nh_good L s (\<lambda>q. ext q + of_bool (q = p) + nhr.held (vx_tbl st) q) n" using gs [OF err(1)] by (simp add: ac_simps)
    ultimately show ?thesis using v(1) err ss vx_tbl_cong [OF l] by (simp add: vx_inv_def)
  next
    case set
    note v = vx_set(3) [OF ok o set(1,3)]
    have z: "vr_itable_get (vr_vxlan_table st) vnid \<noteq> Some 0" using ok by (simp add: vx_ok_def)
    have "st' = st\<lparr>vr_vxlan_table := tb, vx_nh := (if vx_lookup st vnid = 0 then s else vrouter_put_nexthop (vx_lookup st vnid) s)\<rparr>" "ret = RetOk"
      using r set g o v z by (auto simp: vr_vxlan_add_def Let_def vx_lookup_def split: option.splits)
    then show ?thesis using vx_swap [OF inv g set(1) o set(3)] v set ss
      by (simp add: nh_static_put)
  qed
qed

section \<open>Exit\<close>

lemma vx_key_len:
  assumes "itbl_key t = vx_key"
  shows "index_len t = 24"
proof -
  have e: "unat x mod 2 ^ index_len t = unat x mod 2 ^ 24" for x :: u32
    using fun_cong [OF assms, of x] by (simp only: itbl_key_def vx_key_def)
  have "unat (0x1000000 :: u32) = 2 ^ 24" "unat (0x800000 :: u32) = 2 ^ 23" by simp_all
  then have a: "(2 :: nat) ^ 24 mod 2 ^ index_len t = 0" and b: "(2 :: nat) ^ 23 mod 2 ^ index_len t = 2 ^ 23"
    using e [of "0x1000000"] e [of "0x800000"] by simp_all
  have "index_len t \<le> 24" using a by (intro power_dvd_imp_le [of 2]) auto
  moreover have "\<not> index_len t \<le> 23"
  proof
    assume "index_len t \<le> 23"
    then have "(2 :: nat) ^ index_len t dvd 2 ^ 23" by (rule le_imp_power_dvd)
    then show False using b by simp
  qed
  ultimately show ?thesis by simp
qed

lemma vx_held:
  assumes "vx_ok st"
  shows "nhr.held (vx_tbl st) q = nhr.slots (map snd (vr_itable_delete (vr_vxlan_table st))) q"
proof -
  obtain t where t: "vr_vxlan_table st = Some t" "itbl_wf t" using vx_ok_wf(1) [OF assms] by (auto elim: itable_wfE)
  have len: "index_len t = 24" using vx_ok_wf(2) [OF assms] t(1) by (intro vx_key_len) (simp add: itable_key_def)
  have "{k. vx_tbl st k = q} = {y. y < 2 ^ 24 \<and> vr_itable_get (Some t) (of_nat y) = Some q}" if "q \<noteq> 0"
    using that t(1) by (auto simp: vx_tbl_def vx_lookup_def split: if_splits option.splits)
  then show ?thesis using vr_itable_delete_count [OF t(2), of q] t(1) len by (simp add: nhr.held_def nhr.slots_def)
qed

lemma fold_destroy:
  assumes "nh_good L s (\<lambda>q. ext q + nhr.slots (map snd es) q) n"
  shows "nh_good L (fold vr_vxlan_destroy es s) ext n \<and> nh_static (fold vr_vxlan_destroy es s) = nh_static s"
  using assms
proof (induction es arbitrary: s)
  case (Cons e es)
  have "nhr.slots (map snd (e # es)) q = nhr.slots (map snd es) q + nhr.slot (snd e) q" for q
    by (auto simp: nhr.slots_def nhr.slot_def)
  then have "nh_good L s (\<lambda>q. (ext q + nhr.slots (map snd es) q) + nhr.slot (snd e) q) n"
    using Cons.prems by (simp add: add.assoc)
  then have "nh_good L (vr_vxlan_destroy e s) (\<lambda>q. ext q + nhr.slots (map snd es) q) n"
    using nhr.put_slot [of L s "\<lambda>q. ext q + nhr.slots (map snd es) q" "snd e" n] by (cases "snd e = 0") (simp_all add: vr_vxlan_destroy_def)
  moreover have "nh_static (vr_vxlan_destroy e s) = nh_static s" by (simp add: vr_vxlan_destroy_def nh_static_put)
  ultimately show ?case using Cons.IH by simp
qed (simp add: nhr.slots_def)

section \<open>Properties\<close>


text \<open>The table just set up, beside the nexthop table with the discard nexthop.\<close>

definition ex_vx :: vx_state where
  "ex_vx = snd (vr_vxlan_init (\<lambda>_. True) 12 \<lparr>vr_vxlan_table = None, vx_nh = nh_ex\<rparr>)"

lemma vr_vxlan_init_inv:
  assumes "vr_vxlan_init ok ps st = (RetOk, st')" "vr_vxlan_table st = None" "ps < 32" "nh_good L (vx_nh st) ext n"
  shows "vx_inv L st' ext n" "vx_lookup st' = (\<lambda>_. 0)" "vx_nh st' = vx_nh st"
proof -
  obtain t where t: "vr_itable_create ok ps 24 [12, 12] = Some t" "st' = st\<lparr>vr_vxlan_table := Some t\<rparr>"
    using assms(1,2) by (auto simp: vr_vxlan_init_def Let_def split: if_splits)
  note w = vr_itable_create_wf [OF t(1) assms(3)]
  then show l: "vx_lookup st' = (\<lambda>_. 0)" by (simp add: t(2) vx_lookup_def fun_eq_iff)
  have "vx_ok st'" using w by (simp add: vx_ok_def t(2) itable_wf_def itable_key_def itbl_key_def vx_key_def fun_eq_iff)
  moreover have "vx_tbl st' = (\<lambda>_. 0)" by (simp add: vx_tbl_def l fun_eq_iff)
  ultimately show "vx_inv L st' ext n" using assms(4) by (simp add: vx_inv_def t(2))
  show "vx_nh st' = vx_nh st" by (simp add: t(2))
qed

lemma ex_vx_init: "vr_vxlan_init (\<lambda>_. True) 12 \<lparr>vr_vxlan_table = None, vx_nh = nh_ex\<rparr> = (RetOk, ex_vx)"
  by (simp add: ex_vx_def vr_vxlan_init_def vr_itable_create_def Let_def)

lemmas ex_vx_inv = vr_vxlan_init_inv [OF ex_vx_init, of "(2, True)" "\<lambda>_. 0" 1000, simplified, OF nh_ex_good]


text \<open>C13: Tearing the table of networks down drops exactly the references its entries held, however the
  entries are spread over the strides of the index table: the counts are those of the table, of the
  nexthops and of the others (\<open>ext\<close>) alone, and none is left behind.\<close>

theorem vr_vxlan_exit_spec:
  assumes "vx_inv L st ext n"
  shows "nh_good L (vx_nh (vr_vxlan_exit st)) ext n \<and> nh_static (vx_nh (vr_vxlan_exit st)) = nh_static (vx_nh st) \<and>
    vx_lookup (vr_vxlan_exit st) = (\<lambda>_. 0)"
proof -
  have ok: "vx_ok st" and g: "nh_good L (vx_nh st) (\<lambda>q. ext q + nhr.held (vx_tbl st) q) n" using assms by (simp_all add: vx_inv_def)
  have "vx_lookup (vr_vxlan_exit st) = (\<lambda>_. 0)" by (simp add: vr_vxlan_exit_def vx_lookup_def vr_itable_get_def fun_eq_iff)
  then show ?thesis using fold_destroy [OF g [unfolded vx_held [OF ok]]] by (simp add: vr_vxlan_exit_def)
qed

theorem vr_vxlan_exit_spec_witness:
  "\<exists>st. vr_vxlan_add (\<lambda>_. True) (\<lambda>_. True) (\<lambda>_ _. RetOk) 7 0 ex_vx = (RetOk, st) \<and> vx_lookup st 7 = 1 \<and>
     nh_good (2, True) (vx_nh (vr_vxlan_exit st)) (\<lambda>_. 0) 999"
proof -
  have p: "1 = nh_tbl (vx_nh ex_vx) 0" using nh_ex_inv(2) by (simp add: ex_vx_inv(3) NH_DISCARD_ID_def)
  obtain ret st where r: "vr_vxlan_add (\<lambda>_. True) (\<lambda>_. True) (\<lambda>_ _. RetOk) 7 0 ex_vx = (ret, st)" by fastforce
  have wf: "itable_wf (vr_vxlan_table ex_vx)" using ex_vx_inv(1) by (simp add: vx_inv_def vx_ok_def)
  have "fst (vr_itable_set (\<lambda>_. True) (vr_vxlan_table ex_vx) 7 (Some 1)) \<noteq> ItErr" by (rule vr_itable_set_all [OF wf]) simp
  then have ret: "ret = RetOk"
    using r p fst_get_nexthop [of 0 "vx_nh ex_vx"] by (auto simp: vr_vxlan_add_def Let_def split: prod.splits itbl_ret.splits option.splits)
  have "vx_inv (2, True) ex_vx (\<lambda>_. 0) (Suc 999)" using ex_vx_inv(1) by simp
  from vr_vxlan_add_run [OF this p r] have st: "vx_inv (2, True) st (\<lambda>_. 0) 999" "vx_lookup st 7 = 1" by (simp_all add: ret)
  show ?thesis using vr_vxlan_exit_spec [OF st(1)] st(2) r ret by simp
qed

section \<open>Input\<close>






end
