(* ===== verification/VR_Hash.thy ===== *)
theory VR_Hash
  imports VR_Prelude
begin

text \<open>
  The Jenkins hash of \<^verbatim>\<open>include/vr_hash.h\<close>, over bytes and over words. The state is the
  triple of 32 bit registers; every step wraps around.
\<close>

section \<open>Mixing\<close>

definition rolword :: "u32 \<Rightarrow> nat \<Rightarrow> u32" where
  "rolword x k = push_bit k x OR drop_bit (32 - k) x"

text \<open>One line of the macros: \<open>a -= c; a ^= rolword(c, k); c += b\<close>.\<close>

definition hash_mix1 :: "nat \<Rightarrow> u32 \<Rightarrow> u32 \<Rightarrow> u32 \<Rightarrow> u32 \<times> u32" where
  "hash_mix1 k a b c = ((a - c) XOR rolword c k, c + b)"

definition vr_hash_mix :: "u32 \<times> u32 \<times> u32 \<Rightarrow> u32 \<times> u32 \<times> u32" where
  "vr_hash_mix = (\<lambda>(a, b, c).
     let (a, c) = hash_mix1 4 a b c;
         (b, a) = hash_mix1 6 b c a;
         (c, b) = hash_mix1 8 c a b;
         (a, c) = hash_mix1 16 a b c;
         (b, a) = hash_mix1 19 b c a;
         (c, b) = hash_mix1 4 c a b
     in (a, b, c))"

definition hash_final1 :: "nat \<Rightarrow> u32 \<Rightarrow> u32 \<Rightarrow> u32" where
  "hash_final1 k c b = (c XOR b) - rolword b k"

definition vr_hash_final :: "u32 \<times> u32 \<times> u32 \<Rightarrow> u32 \<times> u32 \<times> u32" where
  "vr_hash_final = (\<lambda>(a, b, c).
     let c = hash_final1 14 c b;
         a = hash_final1 11 a c;
         b = hash_final1 25 b a;
         c = hash_final1 16 c b;
         a = hash_final1 4 a c;
         b = hash_final1 14 b a;
         c = hash_final1 24 c b
     in (a, b, c))"

definition VR_HASH_INITVAL :: u32 where "VR_HASH_INITVAL = 0xdeadbeef"

section \<open>Hashing bytes\<close>

text \<open>\<open>__get_unaligned_word\<close> on a little endian machine.\<close>

definition get_unaligned_word :: "u8 list \<Rightarrow> u32" where
  "get_unaligned_word p =
     ucast (p ! 0) OR push_bit 8 (ucast (p ! 1)) OR push_bit 16 (ucast (p ! 2)) OR push_bit 24 (ucast (p ! 3))"

text \<open>The byte at an offset, moved to its place in the register, if the key is that long.\<close>

definition hash_byte :: "u8 list \<Rightarrow> nat \<Rightarrow> nat \<Rightarrow> u32" where
  "hash_byte k i sh = (if i < length k then push_bit sh (ucast (k ! i)) else 0)"

definition hash_last_block :: "u8 list \<Rightarrow> u32 \<times> u32 \<times> u32 \<Rightarrow> u32" where
  "hash_last_block k = (\<lambda>(a, b, c).
     let c = c + hash_byte k 11 24 + hash_byte k 10 16 + hash_byte k 9 8 + hash_byte k 8 0;
         b = b + hash_byte k 7 24 + hash_byte k 6 16 + hash_byte k 5 8 + hash_byte k 4 0;
         a = a + hash_byte k 3 24 + hash_byte k 2 16 + hash_byte k 1 8 + hash_byte k 0 0
     in if k \<noteq> [] then snd (snd (vr_hash_final (a, b, c))) else c)"

function hash_loop :: "u8 list \<Rightarrow> u32 \<times> u32 \<times> u32 \<Rightarrow> u32" where
  "hash_loop k (a, b, c) =
     (if 12 < length k
      then hash_loop (drop 12 k)
             (vr_hash_mix (a + get_unaligned_word k, b + get_unaligned_word (drop 4 k), c + get_unaligned_word (drop 8 k)))
      else hash_last_block k (a, b, c))"
  by pat_completeness auto
termination by (relation "measure (\<lambda>(k, _). length k)") auto

declare hash_loop.simps [simp del]

definition vr_hash :: "u8 list \<Rightarrow> u32 \<Rightarrow> u32" where
  "vr_hash key initval =
     (let i = VR_HASH_INITVAL + of_nat (length key) + initval in hash_loop key (i, i, i))"

section \<open>Hashing words\<close>

fun hash2_loop :: "u32 list \<Rightarrow> u32 \<times> u32 \<times> u32 \<Rightarrow> u32" where
  "hash2_loop (x # y # z # w # k) (a, b, c) = hash2_loop (w # k) (vr_hash_mix (a + x, b + y, c + z))"
| "hash2_loop [x, y, z] (a, b, c) = snd (snd (vr_hash_final (a + x, b + y, c + z)))"
| "hash2_loop [x, y] (a, b, c) = snd (snd (vr_hash_final (a + x, b + y, c)))"
| "hash2_loop [x] (a, b, c) = snd (snd (vr_hash_final (a + x, b, c)))"
| "hash2_loop [] (a, b, c) = c"

definition vr_hash2 :: "u32 list \<Rightarrow> u32 \<Rightarrow> u32" where
  "vr_hash2 k initval =
     (let i = VR_HASH_INITVAL + push_bit 2 (of_nat (length k)) + initval in hash2_loop k (i, i, i))"

definition vr_hash_3words :: "u32 \<Rightarrow> u32 \<Rightarrow> u32 \<Rightarrow> u32 \<Rightarrow> u32" where
  "vr_hash_3words a b c initval =
     snd (snd (vr_hash_final (a + VR_HASH_INITVAL, b + VR_HASH_INITVAL, c + initval)))"

definition vr_hash_2words :: "u32 \<Rightarrow> u32 \<Rightarrow> u32 \<Rightarrow> u32" where
  "vr_hash_2words a b initval = vr_hash_3words a b 0 initval"

definition vr_hash_1word :: "u32 \<Rightarrow> u32 \<Rightarrow> u32" where
  "vr_hash_1word a initval = vr_hash_3words a 0 0 initval"

section \<open>Mixing loses nothing\<close>

text \<open>The inverse of the mixing, run backwards.\<close>

definition hash_unmix1 :: "nat \<Rightarrow> u32 \<Rightarrow> u32 \<Rightarrow> u32 \<Rightarrow> u32 \<times> u32" where
  "hash_unmix1 k a b c = (let c = c - b in ((a XOR rolword c k) + c, c))"

lemma unmix1_mix1: "hash_mix1 k a b c = (a', c') \<Longrightarrow> hash_unmix1 k a' b c' = (a, c)"
  by (auto simp: hash_mix1_def hash_unmix1_def xor.assoc)

definition hash_unmix :: "u32 \<times> u32 \<times> u32 \<Rightarrow> u32 \<times> u32 \<times> u32" where
  "hash_unmix = (\<lambda>(a, b, c).
     let (c, b) = hash_unmix1 4 c a b;
         (b, a) = hash_unmix1 19 b c a;
         (a, c) = hash_unmix1 16 a b c;
         (c, b) = hash_unmix1 8 c a b;
         (b, a) = hash_unmix1 6 b c a;
         (a, c) = hash_unmix1 4 a b c
     in (a, b, c))"

lemma hash_unmix_mix: "hash_unmix (vr_hash_mix s) = s"
  by (cases s) (simp add: vr_hash_mix_def hash_unmix_def unmix1_mix1 split: prod.split)

lemma hash_final1_inj: "hash_final1 k c b = hash_final1 k c' b \<longleftrightarrow> c = c'"
proof
  assume "hash_final1 k c b = hash_final1 k c' b"
  then have "c XOR b = c' XOR b" by (simp add: hash_final1_def)
  then have "(c XOR b) XOR b = (c' XOR b) XOR b" by (rule arg_cong)
  then show "c = c'" by (simp add: xor.assoc)
qed simp

section \<open>Bytes of words\<close>

definition word_bytes :: "u32 \<Rightarrow> u8 list" where
  "word_bytes w = [ucast w, ucast (drop_bit 8 w), ucast (drop_bit 16 w), ucast (drop_bit 24 w)]"

lemma length_word_bytes [simp]: "length (word_bytes w) = 4"
  by (simp add: word_bytes_def)

lemma word_bytes_join:
  "(ucast (ucast w :: u8) :: u32) OR push_bit 8 (ucast (ucast (drop_bit 8 w) :: u8)) OR
   push_bit 16 (ucast (ucast (drop_bit 16 w) :: u8)) OR push_bit 24 (ucast (ucast (drop_bit 24 w) :: u8)) = w"
proof (rule bit_word_eqI)
  fix n
  assume n: "n < LENGTH(32)"
  consider "n < 8" | "8 \<le> n" "n < 16" | "16 \<le> n" "n < 24" | "24 \<le> n" by linarith
  then show "bit (ucast (ucast w :: u8) OR push_bit 8 (ucast (ucast (drop_bit 8 w) :: u8)) OR
     push_bit 16 (ucast (ucast (drop_bit 16 w) :: u8)) OR push_bit 24 (ucast (ucast (drop_bit 24 w) :: u8)) :: u32) n = bit w n"
    using n by cases (auto simp: bit_or_iff bit_push_bit_iff bit_ucast_iff bit_drop_bit_eq)
qed

lemma get_word_bytes: "get_unaligned_word (word_bytes w @ xs) = w"
  using word_bytes_join [of w] by (simp add: get_unaligned_word_def word_bytes_def)

text \<open>The last block adds the bytes of a word one by one, the others read the word.\<close>

lemma word_bytes_sum:
  fixes w x :: u32
  shows "x + push_bit 24 (ucast (ucast (drop_bit 24 w) :: u8)) + push_bit 16 (ucast (ucast (drop_bit 16 w) :: u8)) +
    push_bit 8 (ucast (ucast (drop_bit 8 w) :: u8)) + ucast (ucast w :: u8) = x + w"
proof -
  let ?a = "push_bit 24 (ucast (ucast (drop_bit 24 w) :: u8)) :: u32" and ?b = "push_bit 16 (ucast (ucast (drop_bit 16 w) :: u8)) :: u32"
    and ?c = "push_bit 8 (ucast (ucast (drop_bit 8 w) :: u8)) :: u32" and ?d = "ucast (ucast w :: u8) :: u32"
  have "?a + ?b = ?a OR ?b"
    by (rule disjunctive_add) (auto simp: bit_push_bit_iff bit_ucast_iff bit_drop_bit_eq)
  moreover have "(?a OR ?b) + ?c = (?a OR ?b) OR ?c"
    by (rule disjunctive_add) (auto simp: bit_or_iff bit_push_bit_iff bit_ucast_iff bit_drop_bit_eq)
  moreover have "((?a OR ?b) OR ?c) + ?d = ((?a OR ?b) OR ?c) OR ?d"
    by (rule disjunctive_add) (auto simp: bit_or_iff bit_push_bit_iff bit_ucast_iff bit_drop_bit_eq)
  moreover have "((?a OR ?b) OR ?c) OR ?d = w" using word_bytes_join [of w] by (simp add: ac_simps)
  ultimately have "?a + ?b + ?c + ?d = w" by simp
  then show ?thesis by (simp add: add.assoc)
qed

lemma hash_bytes_word:
  assumes "drop i k = word_bytes w @ r"
  shows "x + hash_byte k (i + 3) 24 + hash_byte k (i + 2) 16 + hash_byte k (i + 1) 8 + hash_byte k i 0 = x + w"
proof -
  have len: "i + 3 < length k" using arg_cong [OF assms, of length] by simp
  have "hash_byte k (i + j) sh = push_bit sh (ucast (word_bytes w ! j))" if "j < 4" for j sh
  proof -
    have "k ! (i + j) = drop i k ! j" using len that by simp
    then show ?thesis using assms len that by (simp add: hash_byte_def nth_append)
  qed
  from this [of 0] this [of 1] this [of 2] this [of 3] word_bytes_sum [of x w] show ?thesis
    by (simp add: word_bytes_def)
qed

lemma hash_byte_beyond: "length k \<le> i \<Longrightarrow> hash_byte k i sh = 0"
  by (simp add: hash_byte_def)

lemma last_block_words:
  assumes "length ws \<le> 3" "ws \<noteq> []"
  shows "hash_last_block (concat (map word_bytes ws)) (a, b, c) =
    snd (snd (vr_hash_final (a + ws ! 0, if 1 < length ws then b + ws ! 1 else b, if 2 < length ws then c + ws ! 2 else c)))"
proof -
  let ?k = "concat (map word_bytes ws)"
  obtain w ws' where ws: "ws = w # ws'" using assms(2) by (cases ws) auto
  have len: "length (concat (map word_bytes vs)) = 4 * length vs" for vs by (induction vs) simp_all
  have blk: "x + hash_byte ?k (4 * i + 3) 24 + hash_byte ?k (4 * i + 2) 16 + hash_byte ?k (4 * i + 1) 8 + hash_byte ?k (4 * i) 0 =
    (if i < length ws then x + ws ! i else x)" for i x
  proof (cases "i < length ws")
    case True
    have "drop (4 * i) ?k = concat (map word_bytes (drop i ws))"
      using len [of "take i ws"] True
        arg_cong [OF append_take_drop_id [of i ws], of "\<lambda>ws. drop (4 * i) (concat (map word_bytes ws))"]
      by (simp only: map_append concat_append drop_append) simp
    then have "drop (4 * i) ?k = word_bytes (ws ! i) @ concat (map word_bytes (drop (Suc i) ws))"
      using Cons_nth_drop_Suc [OF True, symmetric] by simp
    from hash_bytes_word [OF this] True show ?thesis by simp
  qed (simp add: hash_byte_beyond len)
  have "?k \<noteq> []" using len [of ws] assms(2) by (metis length_0_conv mult_eq_0_iff zero_neq_numeral)
  moreover have "c + hash_byte ?k 11 24 + hash_byte ?k 10 16 + hash_byte ?k 9 8 + hash_byte ?k 8 0 =
    (if 2 < length ws then c + ws ! 2 else c)" using blk [of c 2] by simp
  moreover have "b + hash_byte ?k 7 24 + hash_byte ?k 6 16 + hash_byte ?k 5 8 + hash_byte ?k 4 0 =
    (if 1 < length ws then b + ws ! 1 else b)" using blk [of b 1] by simp
  moreover have "a + hash_byte ?k 3 24 + hash_byte ?k 2 16 + hash_byte ?k 1 8 + hash_byte ?k 0 0 = a + ws ! 0"
    using blk [of a 0] assms(2) by (simp add: numeral_2_eq_2)
  ultimately show ?thesis by (simp only: hash_last_block_def Let_def prod.case not_False_eq_True if_True)
qed

lemma hash_loop_words: "hash_loop (concat (map word_bytes ws)) s = hash2_loop ws s"
proof (induction ws s rule: hash2_loop.induct)
  case (1 x y z w k a b c)
  let ?k = "concat (map word_bytes (w # k))"
  have "hash_loop (concat (map word_bytes (x # y # z # w # k))) (a, b, c) =
    hash_loop ?k (vr_hash_mix (a + x, b + y, c + z))"
    by (subst hash_loop.simps) (simp add: get_word_bytes)
  then show ?case using 1 by simp
next
  case (2 x y z a b c)
  show ?case using last_block_words [of "[x, y, z]"] by (subst hash_loop.simps) simp
next
  case (3 x y a b c)
  show ?case using last_block_words [of "[x, y]"] by (subst hash_loop.simps) simp
next
  case (4 x a b c)
  show ?case using last_block_words [of "[x]"] by (subst hash_loop.simps) simp
next
  case (5 a b c)
  show ?case by (subst hash_loop.simps) (simp add: hash_last_block_def hash_byte_def)
qed

section \<open>Properties\<close>

text \<open>
  C28: hashing an array of words (\<open>vr_hash2\<close>) gives what hashing its bytes (\<open>vr_hash\<close>) gives on a
  little endian machine, for every length and initial value.
\<close>

theorem vr_hash2_bytes: "vr_hash2 ws initval = vr_hash (concat (map word_bytes ws)) initval"
proof -
  have "length (concat (map word_bytes ws)) = 4 * length ws" by (induction ws) simp_all
  then show ?thesis by (simp add: vr_hash2_def vr_hash_def hash_loop_words push_bit_eq_mult mult.commute)
qed

text \<open>
  C29: mixing a block into the state of the hash (\<open>__vr_hash_mix\<close>) is reversible, as its comment
  says: the state before can be computed from the state after, so no two states are merged.
\<close>

theorem vr_hash_mix_reversible: "hash_unmix (vr_hash_mix s) = s \<and> (vr_hash_mix s = vr_hash_mix s' \<longleftrightarrow> s = s')"
  using hash_unmix_mix by metis

end
