(* ===== verification/VR_Htable.thy ===== *)
theory VR_Htable
  imports VR_Hash VR_Btable
begin

text \<open>
  \<^verbatim>\<open>dp-core/vr_htable.c\<close>: the hash table under the bridge, the flow and the sub interface tables.
  A bucket is four consecutive entries of the main table; what does not fit goes to an entry of
  the overflow table, linked behind the last entry of the bucket. An overflow entry is given
  back in steps: it is marked, unlinked by scheduled work and put on the free list after a grace
  period.

  An entry is named by its index: the main table first, then the overflow table. That
  different indices are different, aligned addresses is the property of the big tables. A client
  stores its data behind the header of an entry (\<open>hentry_body\<close>) and gives the function \<open>gk\<close>
  that reads the key from them. The model follows one thread of control: a compare and swap
  succeeds. What the environment decides (allocations, scheduled work, \<open>vr_not_ready\<close>) is an
  argument.
\<close>

section \<open>Data\<close>

record 'p vr_hentry =
  hentry_next :: "nat option"
  hentry_index :: u32
  hentry_bucket_index :: u32
  hentry_next_index :: u32
  hentry_flags :: u8
  hentry_body :: 'p

record vr_hentry_delete_data =
  hd_index :: u32
  hd_count :: u16
  hd_scheduled :: u16

text \<open>
  \<open>ht_work\<close> are the buckets whose deletion work was scheduled and \<open>ht_defer\<close> the entries that
  wait for the end of the grace period.
\<close>

record 'p vr_htable =
  ht_hentries :: u32
  ht_oentries :: u32
  ht_entry_size :: u32
  ht_key_size :: u32
  ht_bucket_size :: u32
  ht_htable :: vr_btable
  ht_otable :: "vr_btable option"
  ht_ents :: "'p vr_hentry list"
  ht_dtable :: "vr_hentry_delete_data list"
  ht_free_oentry_head :: "nat option"
  ht_used_oentries :: u32
  ht_used_entries :: u32
  ht_work :: "nat list"
  ht_defer :: "nat list"

definition VR_HENTRIES_PER_BUCKET :: u32 where "VR_HENTRIES_PER_BUCKET = 4"
definition VR_HENTRY_FLAG_VALID :: u8 where "VR_HENTRY_FLAG_VALID = 0x1"
definition VR_HENTRY_FLAG_DELETE_MARKED :: u8 where "VR_HENTRY_FLAG_DELETE_MARKED = 0x2"
definition VR_HENTRY_FLAG_DELETE_PROCESSED :: u8 where "VR_HENTRY_FLAG_DELETE_PROCESSED = 0x4"
definition VR_HENTRY_FLAG_UNDER_DELETION :: u8 where
  "VR_HENTRY_FLAG_UNDER_DELETION = VR_HENTRY_FLAG_DELETE_MARKED OR VR_HENTRY_FLAG_DELETE_PROCESSED"
definition VR_HENTRY_FLAG_IN_FREE_LIST :: u8 where "VR_HENTRY_FLAG_IN_FREE_LIST = 0x8"
definition VR_INVALID_HENTRY_INDEX :: u32 where "VR_INVALID_HENTRY_INDEX = 0xFFFFFFFF"

lemmas hentry_flag_defs = VR_HENTRY_FLAG_VALID_def VR_HENTRY_FLAG_DELETE_MARKED_def
  VR_HENTRY_FLAG_DELETE_PROCESSED_def VR_HENTRY_FLAG_IN_FREE_LIST_def VR_HENTRY_FLAG_UNDER_DELETION_def

abbreviation hent_upd :: "nat \<Rightarrow> ('p vr_hentry \<Rightarrow> 'p vr_hentry) \<Rightarrow> 'p vr_htable \<Rightarrow> 'p vr_htable" where
  "hent_upd i f t \<equiv> t\<lparr>ht_ents := (ht_ents t)[i := f (ht_ents t ! i)]\<rparr>"

definition hentry_valid :: "'p vr_hentry \<Rightarrow> bool" where
  "hentry_valid ent \<longleftrightarrow> hentry_flags ent AND VR_HENTRY_FLAG_VALID \<noteq> 0"

section \<open>The free list and access by index\<close>

definition vr_htable_get_free_oentry :: "'p vr_htable \<Rightarrow> nat option \<times> 'p vr_htable" where
  "vr_htable_get_free_oentry table =
     (case ht_free_oentry_head table of
        None \<Rightarrow> (None, table)
      | Some ent \<Rightarrow>
          (Some ent,
           hent_upd ent (\<lambda>e. e\<lparr>hentry_next := None,
                               hentry_flags := hentry_flags e AND NOT VR_HENTRY_FLAG_IN_FREE_LIST\<rparr>)
             (table\<lparr>ht_free_oentry_head := hentry_next (ht_ents table ! ent),
                    ht_used_oentries := ht_used_oentries table + 1\<rparr>)))"

definition vr_htable_put_free_oentry :: "nat \<Rightarrow> 'p vr_htable \<Rightarrow> 'p vr_htable" where
  "vr_htable_put_free_oentry ent table =
     (if hentry_index (ht_ents table ! ent) < ht_hentries table then table
      else if hentry_flags (ht_ents table ! ent) AND VR_HENTRY_FLAG_IN_FREE_LIST \<noteq> 0 then table
      else hent_upd ent (\<lambda>e. e\<lparr>hentry_flags := hentry_flags e OR VR_HENTRY_FLAG_IN_FREE_LIST,
                               hentry_next := ht_free_oentry_head table\<rparr>)
             (table\<lparr>ht_free_oentry_head := Some ent, ht_used_oentries := ht_used_oentries table - 1\<rparr>))"

text \<open>\<open>__vr_htable_get_hentry_by_index\<close>, then the variant for valid entries.\<close>

definition get_hentry_by_index_raw :: "'p vr_htable \<Rightarrow> u32 \<Rightarrow> nat option" where
  "get_hentry_by_index_raw table index =
     (if index < ht_hentries table then Some (unat index)
      else if index < ht_oentries table + ht_hentries table then Some (unat index)
      else None)"

definition vr_htable_get_hentry_by_index :: "'p vr_htable \<Rightarrow> u32 \<Rightarrow> nat option" where
  "vr_htable_get_hentry_by_index table index =
     (case get_hentry_by_index_raw table index of
        None \<Rightarrow> None
      | Some ent \<Rightarrow> if hentry_valid (ht_ents table ! ent) then Some ent else None)"

text \<open>
  The traversals: the callback sees every index of a range with its entry, if that is valid. The
  range is one of unsigned integers, so it is empty when its end wraps around.
\<close>

definition trav_indices :: "u32 \<Rightarrow> u32 \<Rightarrow> u32 list" where
  "trav_indices start rng = map of_nat [unat start..<unat (start + rng)]"

definition vr_htable_trav_range ::
  "u32 \<Rightarrow> u32 \<Rightarrow> (nat option \<Rightarrow> u32 \<Rightarrow> 's \<Rightarrow> 's) \<Rightarrow> 'p vr_htable \<Rightarrow> 's \<Rightarrow> u32 \<times> 's" where
  "vr_htable_trav_range start rng cb table s =
     fold (\<lambda>i (_, s). let hindex = i mod (ht_oentries table + ht_hentries table)
                      in (hindex, cb (vr_htable_get_hentry_by_index table hindex) hindex s))
       (trav_indices start rng) (0, s)"

definition vr_htable_trav ::
  "u32 \<Rightarrow> (nat option \<Rightarrow> u32 \<Rightarrow> 's \<Rightarrow> 's) \<Rightarrow> 'p vr_htable \<Rightarrow> 's \<Rightarrow> u32 \<times> 's" where
  "vr_htable_trav marker cb table s =
     vr_htable_trav_range marker (ht_hentries table + ht_oentries table - marker) cb table s"

section \<open>Giving overflow entries back\<close>

definition vr_htable_oentry_invalidate :: "nat \<Rightarrow> 'p vr_htable \<Rightarrow> 'p vr_htable" where
  "vr_htable_oentry_invalidate ent table =
     (if hentry_index (ht_ents table ! ent) < ht_hentries table then table
      else vr_htable_put_free_oentry ent
             (hent_upd ent (\<lambda>e. e\<lparr>hentry_flags := hentry_flags e AND VR_HENTRY_FLAG_IN_FREE_LIST,
                                  hentry_bucket_index := VR_INVALID_HENTRY_INDEX,
                                  hentry_next_index := VR_INVALID_HENTRY_INDEX, hentry_next := None\<rparr>) table))"

text \<open>\<open>vr_htable_hentry_defer_delete\<close> runs for the first entry that waits.\<close>

definition vr_htable_hentry_defer_delete :: "'p vr_htable \<Rightarrow> 'p vr_htable" where
  "vr_htable_hentry_defer_delete table =
     (case ht_defer table of
        [] \<Rightarrow> table
      | i # is \<Rightarrow>
          (case get_hentry_by_index_raw table (of_nat i) of
             None \<Rightarrow> table\<lparr>ht_defer := is\<rparr>
           | Some ent \<Rightarrow> vr_htable_oentry_invalidate ent (table\<lparr>ht_defer := is\<rparr>)))"

text \<open>
  The loop of the scheduled deletion. \<open>n\<close> bounds the length of the list, \<open>nr\<close> is
  \<open>vr_not_ready\<close> and \<open>dok i\<close> tells whether the data to defer entry \<open>i\<close> can be allocated.
  \<open>unlink\<close> takes a marked entry out of the list; \<open>Fault\<close> is an access outside of the table or a
  list that is longer than the table.
\<close>

definition hentry_unlink :: "nat \<Rightarrow> nat \<Rightarrow> 'p vr_htable \<Rightarrow> 'p vr_htable" where
  "hentry_unlink prev ent table =
     (let next = hentry_next (ht_ents table ! ent);
          ni = (case next of Some n \<Rightarrow> hentry_index (ht_ents table ! n) | None \<Rightarrow> VR_INVALID_HENTRY_INDEX);
          table = hent_upd prev (\<lambda>e. e\<lparr>hentry_next := next, hentry_next_index := ni\<rparr>) table
      in hent_upd ent (\<lambda>e. e\<lparr>hentry_flags :=
           (hentry_flags e AND NOT VR_HENTRY_FLAG_DELETE_MARKED) OR VR_HENTRY_FLAG_DELETE_PROCESSED\<rparr>) table)"

primrec sched_delete_loop ::
  "nat \<Rightarrow> bool \<Rightarrow> (nat \<Rightarrow> bool) \<Rightarrow> nat \<Rightarrow> nat option \<Rightarrow> nat \<Rightarrow> 'p vr_htable \<Rightarrow> 'p vr_htable exec" where
  "sched_delete_loop 0 nr dok prev ent count table = (if count = 0 \<or> ent = None then Done table else Fault)"
| "sched_delete_loop (Suc n) nr dok prev ent count table =
     (if count = 0 then Done table
      else case ent of
        None \<Rightarrow> Done table
      | Some e \<Rightarrow>
          if length (ht_ents table) \<le> e then Fault
          else let marked = hentry_flags (ht_ents table ! e) AND VR_HENTRY_FLAG_DELETE_MARKED \<noteq> 0;
                   table = (if marked then hentry_unlink prev e table else table);
                   count = (if marked then count - 1 else count);
                   next = hentry_next (ht_ents table ! e);
                   processed = hentry_flags (ht_ents table ! e) AND VR_HENTRY_FLAG_DELETE_PROCESSED \<noteq> 0
               in if processed \<and> nr
                  then sched_delete_loop n nr dok prev next count (vr_htable_oentry_invalidate e table)
                  else let table = (if processed \<and> dok e then table\<lparr>ht_defer := ht_defer table @ [e]\<rparr> else table);
                           prev = (if hentry_flags (ht_ents table ! e) AND VR_HENTRY_FLAG_UNDER_DELETION = 0 then e else prev)
                       in sched_delete_loop n nr dok prev next count table)"

text \<open>\<open>vr_htable_hentry_scheduled_delete\<close> runs for the first bucket that was scheduled.\<close>

definition vr_htable_hentry_scheduled_delete ::
  "bool \<Rightarrow> (nat \<Rightarrow> bool) \<Rightarrow> 'p vr_htable \<Rightarrow> 'p vr_htable exec" where
  "vr_htable_hentry_scheduled_delete nr dok table =
     (case ht_work table of
        [] \<Rightarrow> Done table
      | d # ds \<Rightarrow>
          let table = table\<lparr>ht_work := ds\<rparr>; dd = ht_dtable table ! d
          in case get_hentry_by_index_raw table (hd_index dd) of
               None \<Rightarrow> Done table
             | Some head \<Rightarrow>
                 let table = table\<lparr>ht_dtable := (ht_dtable table)[d := dd\<lparr>
                       hd_scheduled := (if hd_scheduled dd = 1 then 0 else hd_scheduled dd), hd_count := 0\<rparr>]\<rparr>
                 in sched_delete_loop (Suc (length (ht_ents table))) nr dok head
                      (hentry_next (ht_ents table ! head)) (unat (hd_count dd)) table)"

text \<open>\<open>sok\<close> tells whether the work can be scheduled.\<close>

definition vr_htable_release_hentry :: "bool \<Rightarrow> bool \<Rightarrow> nat \<Rightarrow> 'p vr_htable \<Rightarrow> 'p vr_htable exec" where
  "vr_htable_release_hentry nr sok ent table =
     (if \<not> hentry_valid (ht_ents table ! ent) then Done table
      else let table = hent_upd ent (\<lambda>e. e\<lparr>hentry_flags := hentry_flags e AND NOT VR_HENTRY_FLAG_VALID\<rparr>)
                         (table\<lparr>ht_used_entries := ht_used_entries table - 1\<rparr>)
           in if hentry_index (ht_ents table ! ent) < ht_hentries table then Done table
              else if nr then Done table
              else let table = hent_upd ent (\<lambda>e. e\<lparr>hentry_flags := hentry_flags e OR VR_HENTRY_FLAG_DELETE_MARKED\<rparr>) table
                   in case get_hentry_by_index_raw table (hentry_bucket_index (ht_ents table ! ent)) of
                        None \<Rightarrow> Fault
                      | Some head \<Rightarrow>
                          let head_index = hentry_index (ht_ents table ! head);
                              d = unat (head_index div ht_bucket_size table)
                          in if length (ht_dtable table) \<le> d then Fault
                             else let dd = ht_dtable table ! d;
                                      dd = dd\<lparr>hd_count := hd_count dd + 1\<rparr>
                                  in if hd_scheduled dd \<noteq> 0 then Done (table\<lparr>ht_dtable := (ht_dtable table)[d := dd]\<rparr>)
                                     else Done (table\<lparr>ht_dtable := (ht_dtable table)[d := dd\<lparr>hd_index := head_index,
                                                        hd_scheduled := (if sok then 1 else 0)\<rparr>],
                                                      ht_work := (if sok then ht_work table @ [d] else ht_work table)\<rparr>))"

section \<open>Lookup and insertion\<close>

text \<open>The index of the first entry of the bucket of a key, and of its entries.\<close>

definition bucket_start :: "'p vr_htable \<Rightarrow> u8 list \<Rightarrow> u32" where
  "bucket_start table key = (vr_hash key 0 mod ht_hentries table) AND NOT (ht_bucket_size table - 1)"

definition bucket_entries :: "'p vr_htable \<Rightarrow> u8 list \<Rightarrow> nat list" where
  "bucket_entries table key =
     map (\<lambda>i. unat (bucket_start table key + of_nat i)) [0..<unat (ht_bucket_size table)]"

definition vr_htable_get_bucket :: "'p vr_htable \<Rightarrow> u8 list \<Rightarrow> nat option" where
  "vr_htable_get_bucket table key =
     (if bucket_start table key < ht_hentries table then Some (unat (bucket_start table key)) else None)"

text \<open>The first entry of a list of indices that passes a test.\<close>

fun scan_entries :: "('p vr_hentry \<Rightarrow> bool) \<Rightarrow> 'p vr_htable \<Rightarrow> nat list \<Rightarrow> nat option exec" where
  "scan_entries P table [] = Done None"
| "scan_entries P table (i # is) =
     (if unat (ht_hentries table) \<le> i \<or> length (ht_ents table) \<le> i then Fault
      else if P (ht_ents table ! i) then Done (Some i) else scan_entries P table is)"

text \<open>The overflow list from a pointer on.\<close>

primrec scan_list :: "nat \<Rightarrow> ('p vr_hentry \<Rightarrow> bool) \<Rightarrow> 'p vr_htable \<Rightarrow> nat option \<Rightarrow> nat option exec" where
  "scan_list 0 P table p = (if p = None then Done None else Fault)"
| "scan_list (Suc n) P table p =
     (case p of
        None \<Rightarrow> Done None
      | Some i \<Rightarrow>
          if length (ht_ents table) \<le> i then Fault
          else if P (ht_ents table ! i) then Done (Some i)
          else scan_list n P table (hentry_next (ht_ents table ! i)))"

definition hentry_has_key :: "('p \<Rightarrow> u8 list option) \<Rightarrow> u8 list \<Rightarrow> 'p vr_hentry \<Rightarrow> bool" where
  "hentry_has_key gk key ent \<longleftrightarrow> hentry_valid ent \<and> gk (hentry_body ent) = Some key"

definition vr_htable_find_hentry :: "('p \<Rightarrow> u8 list option) \<Rightarrow> 'p vr_htable \<Rightarrow> u8 list \<Rightarrow> nat option exec" where
  "vr_htable_find_hentry gk table key =
     exec_bind (scan_entries (hentry_has_key gk key) table (bucket_entries table key))
       (\<lambda>r. case r of
              Some i \<Rightarrow> Done (Some i)
            | None \<Rightarrow> scan_list (length (ht_ents table)) (hentry_has_key gk key) table
                        (hentry_next (ht_ents table ! last (bucket_entries table key))))"

text \<open>
  \<open>vr_htable_find_free_hentry\<close>: a free entry of the bucket, else one of the overflow table, which
  becomes the first one of the list behind the last entry of the bucket.
\<close>

definition link_oentry :: "nat \<Rightarrow> nat \<Rightarrow> 'p vr_htable \<Rightarrow> 'p vr_htable" where
  "link_oentry ent o_ent table =
     (let next = hentry_next (ht_ents table ! ent);
          ni = (case next of Some n \<Rightarrow> hentry_index (ht_ents table ! n) | None \<Rightarrow> VR_INVALID_HENTRY_INDEX);
          table = hent_upd o_ent (\<lambda>e. e\<lparr>hentry_bucket_index := of_nat ent, hentry_next_index := ni,
                                        hentry_flags := VR_HENTRY_FLAG_VALID, hentry_next := next\<rparr>) table
      in hent_upd ent (\<lambda>e. e\<lparr>hentry_next := Some o_ent,
                              hentry_next_index := hentry_index (ht_ents table ! o_ent)\<rparr>) table)"

definition vr_htable_find_free_hentry ::
  "'p vr_htable \<Rightarrow> u8 list \<Rightarrow> (nat option \<times> 'p vr_htable) exec" where
  "vr_htable_find_free_hentry table key =
     exec_bind (scan_entries (\<lambda>e. \<not> hentry_valid e) table (bucket_entries table key))
       (\<lambda>r. case r of
              Some i \<Rightarrow>
                Done (Some i, hent_upd i (\<lambda>e. e\<lparr>hentry_flags := VR_HENTRY_FLAG_VALID,
                                                hentry_bucket_index := VR_INVALID_HENTRY_INDEX\<rparr>)
                                (table\<lparr>ht_used_entries := ht_used_entries table + 1\<rparr>))
            | None \<Rightarrow>
                if ht_oentries table = 0 then Done (None, table)
                else case vr_htable_get_free_oentry table of
                       (None, table) \<Rightarrow> Done (None, table)
                     | (Some o_ent, table) \<Rightarrow>
                         Done (Some o_ent, link_oentry (last (bucket_entries table key)) o_ent
                                 (table\<lparr>ht_used_entries := ht_used_entries table + 1\<rparr>)))"

text \<open>
  \<open>vr_htable_find_duplicate_hentry_index\<close>: the keys found are compared with the memory at the
  entry itself, \<open>img\<close>, not with its key. The overflow table is searched from the hash on.
\<close>

definition dup_match ::
  "('p \<Rightarrow> u8 list option) \<Rightarrow> (nat \<Rightarrow> u8 list) \<Rightarrow> nat \<Rightarrow> nat \<Rightarrow> nat \<Rightarrow> 'p vr_htable \<Rightarrow> nat \<Rightarrow> bool" where
  "dup_match gk img hentry key_len n table i \<longleftrightarrow>
     hentry_index (ht_ents table ! i) \<noteq> VR_INVALID_HENTRY_INDEX \<and> i \<noteq> hentry \<and>
     (case gk (hentry_body (ht_ents table ! i)) of
        None \<Rightarrow> False
      | Some hkey \<Rightarrow> length hkey = key_len \<and> take n hkey = take n (img hentry))"

definition vr_htable_find_duplicate_hentry_index ::
  "('p \<Rightarrow> u8 list option) \<Rightarrow> (nat \<Rightarrow> u8 list) \<Rightarrow> nat \<Rightarrow> 'p vr_htable \<Rightarrow> nat option exec" where
  "vr_htable_find_duplicate_hentry_index gk img hentry table =
     (case gk (hentry_body (ht_ents table ! hentry)) of
        None \<Rightarrow> Fault
      | Some hkey \<Rightarrow>
          (case find (dup_match gk img hentry (length hkey) (length hkey) table) (bucket_entries table hkey) of
             Some i \<Rightarrow> Done (Some i)
           | None \<Rightarrow>
               if ht_oentries table = 0 then Fault
               else Done (find (dup_match gk img hentry (length hkey) (unat (ht_key_size table)) table)
                      (map (\<lambda>i. unat (ht_hentries table +
                              (vr_hash hkey 0 mod ht_oentries table + of_nat i) mod ht_oentries table))
                         [0..<unat (ht_oentries table)]))))"

section \<open>Creation, reset and sizes\<close>

definition vr_htable_used_oflow_entries :: "'p vr_htable option \<Rightarrow> u32" where
  "vr_htable_used_oflow_entries ht = (case ht of Some table \<Rightarrow> ht_used_oentries table | None \<Rightarrow> 0)"

definition vr_htable_used_total_entries :: "'p vr_htable option \<Rightarrow> u32" where
  "vr_htable_used_total_entries ht = (case ht of Some table \<Rightarrow> ht_used_entries table | None \<Rightarrow> 0)"

definition vr_htable_size :: "'p vr_htable option \<Rightarrow> u32" where
  "vr_htable_size ht =
     (case ht of
        None \<Rightarrow> 0
      | Some table \<Rightarrow> vr_btable_size (ht_htable table) +
          (case ht_otable table of None \<Rightarrow> 0 | Some ot \<Rightarrow> vr_btable_size ot))"

definition vr_htable_get_address :: "'p vr_htable \<Rightarrow> u64 \<Rightarrow> addr option exec" where
  "vr_htable_get_address table offset =
     (let size = vr_btable_size (ht_htable table)
      in if ucast size \<le> offset
         then (case ht_otable table of
                 None \<Rightarrow> Fault
               | Some ot \<Rightarrow> Done (vr_btable_get_address ot (ucast (offset - ucast size))))
         else Done (vr_btable_get_address (ht_htable table) (ucast offset)))"

text \<open>
  \<open>__vr_htable_create\<close>. \<open>mem\<close> is what the memory of the tables holds: zeroes when it was
  allocated here. \<open>ht\<close>, \<open>ot\<close> and \<open>dt\<close> are the results of the allocations or of the attachments.
\<close>

definition round_entries :: "u32 \<Rightarrow> u32" where
  "round_entries entries =
     ((entries + VR_HENTRIES_PER_BUCKET - 1) div VR_HENTRIES_PER_BUCKET) * VR_HENTRIES_PER_BUCKET"

definition init_hentry :: "nat \<Rightarrow> nat \<Rightarrow> nat \<Rightarrow> 'p vr_hentry \<Rightarrow> 'p vr_hentry" where
  "init_hentry entries oentries i ent =
     (let ent = ent\<lparr>hentry_index := of_nat i, hentry_next_index := VR_INVALID_HENTRY_INDEX\<rparr>
      in if i < entries then ent
         else let ent = ent\<lparr>hentry_flags := hentry_flags ent OR VR_HENTRY_FLAG_IN_FREE_LIST\<rparr>
              in if Suc i < entries + oentries then ent\<lparr>hentry_next := Some (Suc i)\<rparr> else ent)"

definition vr_htable_create_raw ::
  "bool \<Rightarrow> (u32 \<Rightarrow> vr_btable option) \<Rightarrow> (u32 \<Rightarrow> vr_btable option) \<Rightarrow> (u32 \<Rightarrow> vr_btable option) \<Rightarrow>
   'p vr_hentry list \<Rightarrow> u32 \<Rightarrow> u32 \<Rightarrow> u32 \<Rightarrow> u32 \<Rightarrow> u32 \<Rightarrow> 'p vr_htable option" where
  "vr_htable_create_raw zok ht ot dt mem entries oentries entry_size key_size bucket_size =
     (if entry_size = 0 \<or> entries = 0 then None
      else if bucket_size \<noteq> 0 \<and> bucket_size \<noteq> VR_HENTRIES_PER_BUCKET then None
      else if \<not> zok then None
      else let entries = round_entries entries
           in case ht entries of
                None \<Rightarrow> None
              | Some htable \<Rightarrow>
                  if oentries \<noteq> 0 \<and> (ot oentries = None \<or> dt (entries div VR_HENTRIES_PER_BUCKET) = None) then None
                  else Some
                    \<lparr>ht_hentries = entries, ht_oentries = oentries, ht_entry_size = entry_size, ht_key_size = key_size,
                     ht_bucket_size = VR_HENTRIES_PER_BUCKET, ht_htable = htable,
                     ht_otable = (if oentries = 0 then None else ot oentries),
                     ht_ents = map (\<lambda>i. init_hentry (unat entries) (unat oentries) i (mem ! i))
                                 [0..<unat entries + unat oentries],
                     ht_dtable = (if oentries = 0 then []
                                  else replicate (unat (entries div VR_HENTRIES_PER_BUCKET))
                                         \<lparr>hd_index = 0, hd_count = 0, hd_scheduled = 0\<rparr>),
                     ht_free_oentry_head = (if oentries = 0 then None else Some (unat entries)),
                     ht_used_oentries = 0, ht_used_entries = 0, ht_work = [], ht_defer = []\<rparr>)"

text \<open>\<open>vr_htable_create\<close> allocates all the memory; \<open>z\<close> and \<open>page\<close> are the outcomes per table.\<close>

definition vr_htable_create ::
  "bool \<Rightarrow> (nat \<Rightarrow> bool) \<Rightarrow> (nat \<Rightarrow> nat \<Rightarrow> chunk option) \<Rightarrow> 'p vr_hentry list \<Rightarrow> u32 \<Rightarrow> u32 \<Rightarrow> u32 \<Rightarrow> u32 \<Rightarrow> u32 \<Rightarrow> 'p vr_htable option" where
  "vr_htable_create zok z page mem entries oentries entry_size key_size bucket_size =
     vr_htable_create_raw zok (\<lambda>n. vr_btable_alloc (z 0) (page 0) n entry_size) (\<lambda>n. vr_btable_alloc (z 1) (page 1) n entry_size)
       (\<lambda>n. vr_btable_alloc (z 2) (page 2) n 16) mem entries oentries entry_size key_size bucket_size"

text \<open>\<open>vr_htable_attach\<close> uses the memory of the caller where it has some.\<close>

definition htable_btable ::
  "bool \<Rightarrow> (nat \<Rightarrow> chunk option) \<Rightarrow> chunk option \<Rightarrow> u32 \<Rightarrow> u32 \<Rightarrow> vr_btable option exec" where
  "htable_btable z page base n entry_size =
     (case base of
        None \<Rightarrow> Done (vr_btable_alloc z page n entry_size)
      | Some b \<Rightarrow> exec_bind (vr_btable_attach z [\<lparr>iov_base = b, iov_len = ucast (entry_size * n)\<rparr>] (ucast entry_size))
                    (\<lambda>(t, _). Done t))"

definition vr_htable_attach ::
  "bool \<Rightarrow> (nat \<Rightarrow> bool) \<Rightarrow> (nat \<Rightarrow> nat \<Rightarrow> chunk option) \<Rightarrow> chunk option \<Rightarrow> chunk option \<Rightarrow>
   'p vr_hentry list \<Rightarrow> u32 \<Rightarrow> u32 \<Rightarrow> u32 \<Rightarrow> u32 \<Rightarrow> u32 \<Rightarrow> 'p vr_htable option exec" where
  "vr_htable_attach zok z page htable otable mem entries oentries entry_size key_size bucket_size =
     (if entries = 0 \<or> otable \<noteq> None \<and> oentries = 0 then Done None
      else if entry_size = 0 \<or> bucket_size \<noteq> 0 \<and> bucket_size \<noteq> VR_HENTRIES_PER_BUCKET \<or> \<not> zok then Done None
      else exec_bind (htable_btable (z 0) (page 0) htable (round_entries entries) entry_size) (\<lambda>h.
             if h = None \<or> oentries = 0
             then Done (vr_htable_create_raw zok (\<lambda>_. h) (\<lambda>_. None) (\<lambda>_. None) mem
                          entries oentries entry_size key_size bucket_size)
             else exec_bind (htable_btable (z 1) (page 1) otable oentries entry_size) (\<lambda>ov.
                    Done (vr_htable_create_raw zok (\<lambda>_. h) (\<lambda>_. ov) (\<lambda>n. vr_btable_alloc (z 2) (page 2) n 16) mem
                            entries oentries entry_size key_size bucket_size))))"

text \<open>\<open>vr_htable_delete\<close> frees the three big tables: the chunks it gives back.\<close>

definition vr_htable_delete :: "vr_btable option \<Rightarrow> vr_btable option \<Rightarrow> vr_btable option \<Rightarrow> chunk list" where
  "vr_htable_delete ht ot dt = vr_btable_free ht @ vr_btable_free ot @ vr_btable_free dt"

text \<open>
  \<open>vr_htable_reset\<close>: the callback of the client on every entry, then the entry is made invalid,
  and the list behind an entry of the main table is given back. \<open>cb\<close> may release the entry.
\<close>

definition hentry_drop_valid :: "nat \<Rightarrow> 'p vr_htable \<Rightarrow> 'p vr_htable" where
  "hentry_drop_valid i table =
     (if hentry_valid (ht_ents table ! i)
      then hent_upd i (\<lambda>e. e\<lparr>hentry_flags := hentry_flags e AND NOT VR_HENTRY_FLAG_VALID\<rparr>)
             (table\<lparr>ht_used_entries := ht_used_entries table - 1\<rparr>)
      else table)"

primrec reset_list :: "nat \<Rightarrow> nat option \<Rightarrow> 'p vr_htable \<Rightarrow> 'p vr_htable exec" where
  "reset_list 0 p table = (if p = None then Done table else Fault)"
| "reset_list (Suc n) p table =
     (case p of
        None \<Rightarrow> Done table
      | Some i \<Rightarrow>
          if length (ht_ents table) \<le> i then Fault
          else reset_list n (hentry_next (ht_ents table ! i))
                 (vr_htable_oentry_invalidate i (hentry_drop_valid i table)))"

definition reset_entry ::
  "(nat \<Rightarrow> 'p vr_htable \<times> 's \<Rightarrow> ('p vr_htable \<times> 's) exec) \<Rightarrow> nat \<Rightarrow> 'p vr_htable \<times> 's \<Rightarrow> ('p vr_htable \<times> 's) exec" where
  "reset_entry cb i st =
     exec_bind (cb i st) (\<lambda>(table, s).
       let table = hentry_drop_valid i table;
           next = hentry_next (ht_ents table ! i)
       in if i < unat (ht_hentries table) \<and> next \<noteq> None
          then exec_bind (reset_list (length (ht_ents table)) next
                 (hent_upd i (\<lambda>e. e\<lparr>hentry_next := None, hentry_next_index := VR_INVALID_HENTRY_INDEX\<rparr>) table))
                 (\<lambda>table. Done (table, s))
          else Done (table, s))"

definition vr_htable_reset ::
  "(nat \<Rightarrow> 'p vr_htable \<times> 's \<Rightarrow> ('p vr_htable \<times> 's) exec) \<Rightarrow> 'p vr_htable \<times> 's \<Rightarrow> ('p vr_htable \<times> 's) exec" where
  "vr_htable_reset cb st =
     fold (\<lambda>i r. exec_bind r (reset_entry cb i))
       [0..<unat (ht_hentries (fst st) + ht_oentries (fst st))] (Done st)"

end
