(* ===== verification/VR_Htable_Inv.thy ===== *)
theory VR_Htable_Inv
  imports VR_Htable
begin

text \<open>
  The invariant of the hash table: every overflow entry is on the free list, on the list of one
  bucket, or waiting to be freed; a valid entry is in the bucket of its key or on the list behind
  it. Every operation keeps it, and a lookup finds a key exactly when a valid entry has it.
\<close>

section \<open>Linked lists of entries\<close>

text \<open>Following the pointers from \<open>p\<close> visits \<open>xs\<close> and gets to \<open>q\<close>.\<close>

fun seg :: "'p vr_hentry list \<Rightarrow> nat option \<Rightarrow> nat list \<Rightarrow> nat option \<Rightarrow> bool" where
  "seg h p [] q \<longleftrightarrow> p = q"
| "seg h p (x # xs) q \<longleftrightarrow> p = Some x \<and> x < length h \<and> seg h (hentry_next (h ! x)) xs q"

lemma seg_append: "seg h p (xs @ ys) q \<longleftrightarrow> (\<exists>r. seg h p xs r \<and> seg h r ys q)"
  by (induction xs arbitrary: p) auto

lemma seg_upd: "i \<notin> set xs \<Longrightarrow> seg (h[i := e]) p xs q = seg h p xs q"
  by (induction xs arbitrary: p) auto

lemma seg_upd_next:
  assumes "hentry_next e = hentry_next (h ! i)"
  shows "seg (h[i := e]) p xs q = seg h p xs q"
proof -
  have "hentry_next (h[i := e] ! x) = hentry_next (h ! x)" if "x < length h" for x
    using that assms by (cases "x = i") auto
  then show ?thesis by (induction xs arbitrary: p) auto
qed

lemma seg_None: "seg h None xs q \<longleftrightarrow> xs = [] \<and> q = None"
  by (cases xs) auto

lemma seg_hd: "seg h p xs None \<Longrightarrow> p = (if xs = [] then None else Some (hd xs))"
  by (cases xs) auto

lemma seg_less: "seg h p xs q \<Longrightarrow> x \<in> set xs \<Longrightarrow> x < length h"
  by (induction xs arbitrary: p) auto

text \<open>Taking the entry behind \<open>prev\<close> out of a list.\<close>

lemma seg_unlink:
  assumes "seg h p (as @ prev # e # bs) q" "distinct (as @ prev # e # bs)"
    and "hentry_next e' = hentry_next (h ! e)"
  shows "seg (h[prev := e']) p (as @ prev # bs) q"
proof -
  obtain r where r: "seg h p as r" "seg h r (prev # e # bs) q" using assms(1) by (auto simp: seg_append)
  have p: "r = Some prev" "prev < length h" "seg h (hentry_next (h ! e)) bs q" using r(2) by simp_all
  then have "seg (h[prev := e']) r (prev # bs) q" using assms(2,3) by (simp add: seg_upd)
  moreover have "seg (h[prev := e']) p as r" using r(1) assms(2) by (simp add: seg_upd)
  ultimately show ?thesis by (auto simp: seg_append)
qed

section \<open>Flags\<close>

lemma and_eq_bit:
  "(f :: u8) AND 0x1 = 0 \<longleftrightarrow> \<not> bit f 0" "f AND 0x2 = 0 \<longleftrightarrow> \<not> bit f 1"
  "f AND 0x4 = 0 \<longleftrightarrow> \<not> bit f 2" "f AND 0x8 = 0 \<longleftrightarrow> \<not> bit f 3"
  using and_exp_eq_0_iff_not_bit [of f 0] and_exp_eq_0_iff_not_bit [of f 1] and_exp_eq_0_iff_not_bit [of f 2]
    and_exp_eq_0_iff_not_bit [of f 3] by simp_all

lemma flag_tests:
  "f AND VR_HENTRY_FLAG_VALID = 0 \<longleftrightarrow> \<not> bit f 0"
  "f AND VR_HENTRY_FLAG_DELETE_MARKED = 0 \<longleftrightarrow> \<not> bit f 1"
  "f AND VR_HENTRY_FLAG_DELETE_PROCESSED = 0 \<longleftrightarrow> \<not> bit f 2"
  "f AND VR_HENTRY_FLAG_IN_FREE_LIST = 0 \<longleftrightarrow> \<not> bit f 3"
  unfolding hentry_flag_defs by (rule and_eq_bit)+

lemma flag_under_deletion: "f AND VR_HENTRY_FLAG_UNDER_DELETION = 0 \<longleftrightarrow> \<not> bit f 1 \<and> \<not> bit f 2"
proof -
  have "f AND VR_HENTRY_FLAG_UNDER_DELETION = (f AND VR_HENTRY_FLAG_DELETE_MARKED) OR (f AND VR_HENTRY_FLAG_DELETE_PROCESSED)"
    unfolding VR_HENTRY_FLAG_UNDER_DELETION_def by (rule bit.conj_disj_distrib)
  then show ?thesis using flag_tests(2,3) [of f] by (simp add: or_eq_0_iff)
qed

lemma bit_pow_u8: "n < 8 \<Longrightarrow> bit (2 ^ n :: u8) i \<longleftrightarrow> i = n"
  by (auto simp: bit_exp_iff)

lemma flag_bits [simp]:
  "bit VR_HENTRY_FLAG_VALID i \<longleftrightarrow> i = 0" "bit VR_HENTRY_FLAG_DELETE_MARKED i \<longleftrightarrow> i = 1"
  "bit VR_HENTRY_FLAG_DELETE_PROCESSED i \<longleftrightarrow> i = 2" "bit VR_HENTRY_FLAG_IN_FREE_LIST i \<longleftrightarrow> i = 3"
proof -
  have f: "VR_HENTRY_FLAG_VALID = 2 ^ 0" "VR_HENTRY_FLAG_DELETE_MARKED = 2 ^ 1" "VR_HENTRY_FLAG_DELETE_PROCESSED = 2 ^ 2"
    "VR_HENTRY_FLAG_IN_FREE_LIST = 2 ^ 3" by (simp_all add: hentry_flag_defs)
  show "bit VR_HENTRY_FLAG_VALID i \<longleftrightarrow> i = 0" unfolding f(1) by (rule bit_pow_u8) simp
  show "bit VR_HENTRY_FLAG_DELETE_MARKED i \<longleftrightarrow> i = 1" unfolding f(2) by (rule bit_pow_u8) simp
  show "bit VR_HENTRY_FLAG_DELETE_PROCESSED i \<longleftrightarrow> i = 2" unfolding f(3) by (rule bit_pow_u8) simp
  show "bit VR_HENTRY_FLAG_IN_FREE_LIST i \<longleftrightarrow> i = 3" unfolding f(4) by (rule bit_pow_u8) simp
qed

lemma hentry_valid_bit: "hentry_valid e \<longleftrightarrow> bit (hentry_flags e) 0"
  by (simp add: hentry_valid_def flag_tests)

lemmas flag_simps = flag_tests flag_under_deletion hentry_valid_bit bit_and_iff bit_or_iff bit_not_iff

section \<open>Buckets\<close>

abbreviation ht_H :: "'p vr_htable \<Rightarrow> nat" where "ht_H t \<equiv> unat (ht_hentries t)"
abbreviation ht_N :: "'p vr_htable \<Rightarrow> nat" where "ht_N t \<equiv> length (ht_ents t)"

text \<open>The last entry of the bucket of a key.\<close>

definition bucket_tail :: "'p vr_htable \<Rightarrow> u8 list \<Rightarrow> nat" where
  "bucket_tail t k = 4 * ((unat (vr_hash k 0) mod ht_H t) div 4) + 3"

lemma unat_and_not_3: "unat ((x :: u32) AND NOT 3) = 4 * (unat x div 4)"
proof -
  have s: "2 \<le> n \<Longrightarrow> Suc (Suc (n - 2)) = n" for n :: nat by simp
  have "x AND NOT (mask 2) = push_bit 2 (drop_bit 2 x)"
    by (rule bit_word_eqI)
      (auto simp: bit_and_iff bit_not_iff bit_mask_iff bit_push_bit_iff bit_drop_bit_eq not_less s)
  then have "x AND NOT 3 = push_bit 2 (drop_bit 2 x)" by (simp add: mask_eq_exp_minus_1)
  moreover have "4 * (unat x div 4) < 2 ^ LENGTH(32)"
    by (rule le_less_trans [OF _ unsigned_less [of x]]) simp
  moreover have "unat (push_bit 2 (drop_bit 2 x)) = take_bit LENGTH(32) (4 * (unat x div 4))"
    unfolding unsigned_push_bit_eq unat_drop_bit_u32 by (simp add: push_bit_eq_mult mult.commute)
  ultimately show ?thesis by (simp only: take_bit_nat_eq_self)
qed

lemma bucket_entries_eq:
  assumes "ht_bucket_size t = 4" "0 < ht_H t" "4 dvd ht_H t"
  shows "bucket_entries t k = map (\<lambda>i. bucket_tail t k - 3 + i) [0..<4]" "bucket_tail t k < ht_H t"
    "bucket_tail t k mod 4 = 3" "last (bucket_entries t k) = bucket_tail t k"
proof -
  let ?q = "(unat (vr_hash k 0) mod ht_H t) div 4"
  have r: "unat (vr_hash k 0) mod ht_H t < ht_H t" using assms(2) by simp
  obtain m where m: "ht_H t = 4 * m" using assms(3) by blast
  then have q: "?q < m" using r by (simp add: less_mult_imp_div_less mult.commute)
  then show b: "bucket_tail t k < ht_H t" using m by (simp add: bucket_tail_def)
  show "bucket_tail t k mod 4 = 3" by (simp add: bucket_tail_def)
  have s: "unat (bucket_start t k) = 4 * ?q"
    using unat_and_not_3 [of "vr_hash k 0 mod ht_hentries t"] by (simp add: bucket_start_def assms(1) unat_mod)
  have "unat (bucket_start t k + of_nat i) = bucket_tail t k - 3 + i" if "i < 4" for i
  proof -
    have "bucket_tail t k < 4294967296" using b unat_u32_less [of "ht_hentries t"] by linarith
    then have "4 * ?q + i < 2 ^ 32" using that by (simp add: bucket_tail_def)
    then show ?thesis using that s by (simp add: unat_word_ariths unat_of_nat bucket_tail_def)
  qed
  then show e: "bucket_entries t k = map (\<lambda>i. bucket_tail t k - 3 + i) [0..<4]"
    by (simp add: bucket_entries_def assms(1))
  show "last (bucket_entries t k) = bucket_tail t k"
    unfolding e by (simp add: upt_rec [of 0 4] bucket_tail_def last_map)
qed

section \<open>The invariant\<close>

text \<open>
  \<open>L h\<close> is the list behind the entry \<open>h\<close> of the main table and \<open>L (ht_H t)\<close> the free list.
  The invariant has four parts: the sizes, the lists, the flags, and the keys.
\<close>

definition ht_sizes :: "'p vr_htable \<Rightarrow> bool" where
  [vr_inv]: "ht_sizes t \<longleftrightarrow>
     ht_bucket_size t = 4 \<and> 0 < ht_H t \<and> 4 dvd ht_H t \<and> ht_N t = ht_H t + unat (ht_oentries t) \<and> ht_N t < 2 ^ 32 \<and>
     (ht_oentries t \<noteq> 0 \<longrightarrow> length (ht_dtable t) = ht_H t div 4) \<and>
     (\<forall>i<ht_N t. hentry_index (ht_ents t ! i) = of_nat i) \<and>
     (\<forall>d\<in>set (ht_work t). d < length (ht_dtable t) \<and> unat (hd_index (ht_dtable t ! d)) < ht_H t)"

definition ht_lists :: "'p vr_htable \<Rightarrow> (nat \<Rightarrow> nat list) \<Rightarrow> bool" where
  [vr_inv]: "ht_lists t L \<longleftrightarrow>
     (\<forall>h<ht_H t. seg (ht_ents t) (Some h) (h # L h) None) \<and>
     seg (ht_ents t) (ht_free_oentry_head t) (L (ht_H t)) None \<and>
     (\<forall>a\<le>ht_H t. distinct (L a) \<and> set (L a) \<subseteq> {ht_H t..<ht_N t} \<and> set (L a) \<inter> set (ht_defer t) = {}) \<and>
     (\<forall>a\<le>ht_H t. \<forall>b\<le>ht_H t. a \<noteq> b \<longrightarrow> set (L a) \<inter> set (L b) = {}) \<and>
     (\<forall>h<ht_H t. h mod 4 \<noteq> 3 \<longrightarrow> L h = []) \<and>
     distinct (ht_defer t) \<and> set (ht_defer t) \<subseteq> {ht_H t..<ht_N t}"

definition ht_flags :: "'p vr_htable \<Rightarrow> (nat \<Rightarrow> nat list) \<Rightarrow> bool" where
  [vr_inv]: "ht_flags t L \<longleftrightarrow>
     (\<forall>h<ht_H t. \<forall>x\<in>set (L h). hentry_bucket_index (ht_ents t ! x) = of_nat h \<and>
        \<not> bit (hentry_flags (ht_ents t ! x)) 3 \<and> \<not> bit (hentry_flags (ht_ents t ! x)) 2 \<and>
        (bit (hentry_flags (ht_ents t ! x)) 1 \<longrightarrow> \<not> bit (hentry_flags (ht_ents t ! x)) 0)) \<and>
     (\<forall>x\<in>{ht_H t..<ht_N t}. bit (hentry_flags (ht_ents t ! x)) 3 \<longleftrightarrow> x \<in> set (L (ht_H t))) \<and>
     (\<forall>x\<in>{ht_H t..<ht_N t}. bit (hentry_flags (ht_ents t ! x)) 0 \<longrightarrow> (\<exists>h<ht_H t. x \<in> set (L h)))"

definition ht_keys :: "('p \<Rightarrow> u8 list option) \<Rightarrow> 'p vr_htable \<Rightarrow> (nat \<Rightarrow> nat list) \<Rightarrow> bool" where
  [vr_inv]: "ht_keys gk t L \<longleftrightarrow>
     (\<forall>i<ht_N t. \<forall>k. gk (hentry_body (ht_ents t ! i)) = Some k \<longrightarrow>
        bit (hentry_flags (ht_ents t ! i)) 0 \<and> i \<in> set (bucket_entries t k @ L (bucket_tail t k)) \<and>
        (\<forall>j<ht_N t. gk (hentry_body (ht_ents t ! j)) = Some k \<longrightarrow> j = i))"

definition ht_wf :: "('p \<Rightarrow> u8 list option) \<Rightarrow> 'p vr_htable \<Rightarrow> (nat \<Rightarrow> nat list) \<Rightarrow> bool" where
  "ht_wf gk t L \<longleftrightarrow> ht_sizes t \<and> ht_lists t L \<and> ht_flags t L \<and> ht_keys gk t L"

definition ht_inv :: "('p \<Rightarrow> u8 list option) \<Rightarrow> 'p vr_htable \<Rightarrow> bool" where
  "ht_inv gk t \<longleftrightarrow> (\<exists>L. ht_wf gk t L)"

text \<open>What the table stores: the index of the entry that has a key.\<close>

definition ht_index :: "('p \<Rightarrow> u8 list option) \<Rightarrow> 'p vr_htable \<Rightarrow> u8 list \<Rightarrow> nat option" where
  "ht_index gk t k =
     (if \<exists>i<ht_N t. gk (hentry_body (ht_ents t ! i)) = Some k
      then Some (THE i. i < ht_N t \<and> gk (hentry_body (ht_ents t ! i)) = Some k) else None)"

lemma ht_listsD:
  assumes "ht_lists t L"
  shows "h < ht_H t \<Longrightarrow> seg (ht_ents t) (Some h) (h # L h) None"
    "seg (ht_ents t) (ht_free_oentry_head t) (L (ht_H t)) None"
    "a \<le> ht_H t \<Longrightarrow> distinct (L a)"
    "a \<le> ht_H t \<Longrightarrow> x \<in> set (L a) \<Longrightarrow> ht_H t \<le> x \<and> x < ht_N t"
    "a \<le> ht_H t \<Longrightarrow> x \<in> set (L a) \<Longrightarrow> x \<notin> set (ht_defer t)"
    "a \<le> ht_H t \<Longrightarrow> b \<le> ht_H t \<Longrightarrow> x \<in> set (L a) \<Longrightarrow> x \<in> set (L b) \<Longrightarrow> a = b"
    "h < ht_H t \<Longrightarrow> h mod 4 \<noteq> 3 \<Longrightarrow> L h = []"
    "distinct (ht_defer t)" "x \<in> set (ht_defer t) \<Longrightarrow> ht_H t \<le> x \<and> x < ht_N t"
proof -
  note d = assms [unfolded ht_lists_def]
  show "h < ht_H t \<Longrightarrow> seg (ht_ents t) (Some h) (h # L h) None" using d by blast
  show "seg (ht_ents t) (ht_free_oentry_head t) (L (ht_H t)) None" using d by blast
  show "a \<le> ht_H t \<Longrightarrow> distinct (L a)" using d by blast
  show "a \<le> ht_H t \<Longrightarrow> x \<in> set (L a) \<Longrightarrow> ht_H t \<le> x \<and> x < ht_N t" using d by (meson atLeastLessThan_iff subsetD)
  show "a \<le> ht_H t \<Longrightarrow> x \<in> set (L a) \<Longrightarrow> x \<notin> set (ht_defer t)" using d by (meson disjoint_iff)
  show "a \<le> ht_H t \<Longrightarrow> b \<le> ht_H t \<Longrightarrow> x \<in> set (L a) \<Longrightarrow> x \<in> set (L b) \<Longrightarrow> a = b" using d by (meson disjoint_iff)
  show "h < ht_H t \<Longrightarrow> h mod 4 \<noteq> 3 \<Longrightarrow> L h = []" using d by blast
  show "distinct (ht_defer t)" using d by blast
  show "x \<in> set (ht_defer t) \<Longrightarrow> ht_H t \<le> x \<and> x < ht_N t" using d by (meson atLeastLessThan_iff subsetD)
qed

text \<open>The flags an entry on the list of a bucket has.\<close>

abbreviation listed_flags :: "u8 \<Rightarrow> bool" where
  "listed_flags f \<equiv> \<not> bit f 3 \<and> \<not> bit f 2 \<and> (bit f 1 \<longrightarrow> \<not> bit f 0)"

lemma ht_flagsD:
  assumes "ht_flags t L"
  shows "h < ht_H t \<Longrightarrow> x \<in> set (L h) \<Longrightarrow>
      hentry_bucket_index (ht_ents t ! x) = of_nat h \<and> listed_flags (hentry_flags (ht_ents t ! x))"
    "ht_H t \<le> x \<Longrightarrow> x < ht_N t \<Longrightarrow> bit (hentry_flags (ht_ents t ! x)) 3 \<longleftrightarrow> x \<in> set (L (ht_H t))"
    "ht_H t \<le> x \<Longrightarrow> x < ht_N t \<Longrightarrow> bit (hentry_flags (ht_ents t ! x)) 0 \<Longrightarrow> \<exists>h<ht_H t. x \<in> set (L h)"
  using assms unfolding ht_flags_def atLeastLessThan_iff Ball_def by blast+

lemma ht_flagsI:
  assumes "\<And>h x. h < ht_H t \<Longrightarrow> x \<in> set (L h) \<Longrightarrow>
      hentry_bucket_index (ht_ents t ! x) = of_nat h \<and> listed_flags (hentry_flags (ht_ents t ! x))"
    "\<And>x. ht_H t \<le> x \<Longrightarrow> x < ht_N t \<Longrightarrow> bit (hentry_flags (ht_ents t ! x)) 3 \<longleftrightarrow> x \<in> set (L (ht_H t))"
    "\<And>x. ht_H t \<le> x \<Longrightarrow> x < ht_N t \<Longrightarrow> bit (hentry_flags (ht_ents t ! x)) 0 \<Longrightarrow> \<exists>h<ht_H t. x \<in> set (L h)"
  shows "ht_flags t L"
  using assms unfolding ht_flags_def atLeastLessThan_iff Ball_def by blast

lemma ht_wfD:
  assumes "ht_wf gk t L"
  shows "ht_sizes t" "ht_lists t L" "ht_flags t L" "ht_keys gk t L"
  using assms by (simp_all add: ht_wf_def)

lemma ht_wf_bucket:
  assumes "ht_wf gk t L"
  shows "bucket_entries t k = map (\<lambda>i. bucket_tail t k - 3 + i) [0..<4]" "bucket_tail t k < ht_H t"
    "bucket_tail t k mod 4 = 3" "last (bucket_entries t k) = bucket_tail t k" "set (bucket_entries t k) \<subseteq> {..<ht_H t}"
proof -
  have s: "ht_bucket_size t = 4" "0 < ht_H t" "4 dvd ht_H t" using assms by (simp_all add: ht_wf_def ht_sizes_def)
  note b = bucket_entries_eq [OF s]
  show "bucket_entries t k = map (\<lambda>i. bucket_tail t k - 3 + i) [0..<4]" "bucket_tail t k < ht_H t"
    "bucket_tail t k mod 4 = 3" "last (bucket_entries t k) = bucket_tail t k" by (rule b)+
  show "set (bucket_entries t k) \<subseteq> {..<ht_H t}"
    unfolding b(1) using b(2) [of k] by (auto simp: bucket_tail_def)
qed

lemma ht_index_Some:
  assumes "ht_wf gk t L"
  shows "ht_index gk t k = Some i \<longleftrightarrow> i < ht_N t \<and> gk (hentry_body (ht_ents t ! i)) = Some k"
proof -
  have u: "\<exists>!i. i < ht_N t \<and> gk (hentry_body (ht_ents t ! i)) = Some k"
    if "i < ht_N t" "gk (hentry_body (ht_ents t ! i)) = Some k" for i
    using assms that unfolding ht_wf_def ht_keys_def by blast
  show ?thesis using theI' [OF u] u by (auto simp: ht_index_def)
qed

lemma ht_index_None: "ht_index gk t k = None \<longleftrightarrow> (\<forall>i<ht_N t. gk (hentry_body (ht_ents t ! i)) \<noteq> Some k)"
  by (auto simp: ht_index_def)

text \<open>The index is determined by the bodies.\<close>

lemma ht_index_cong:
  assumes "ht_N t' = ht_N t" "\<And>i. i < ht_N t \<Longrightarrow> gk (hentry_body (ht_ents t' ! i)) = gk (hentry_body (ht_ents t ! i))"
  shows "ht_index gk t' = ht_index gk t"
proof
  fix k
  have "(i < ht_N t \<and> gk (hentry_body (ht_ents t' ! i)) = Some k) = (i < ht_N t \<and> gk (hentry_body (ht_ents t ! i)) = Some k)" for i
    using assms by auto
  then show "ht_index gk t' k = ht_index gk t k" unfolding ht_index_def assms(1) by simp
qed

section \<open>Lookup\<close>

lemma scan_entries_find:
  "set is \<subseteq> {..<ht_H t} \<Longrightarrow> ht_H t \<le> ht_N t \<Longrightarrow> scan_entries P t is = Done (find (\<lambda>i. P (ht_ents t ! i)) is)"
  by (induction "is") auto

lemma scan_list_find:
  "seg (ht_ents t) p xs None \<Longrightarrow> length xs \<le> n \<Longrightarrow> scan_list n P t p = Done (find (\<lambda>i. P (ht_ents t ! i)) xs)"
proof (induction xs arbitrary: p n)
  case Nil
  then show ?case by (cases n) simp_all
next
  case (Cons x xs)
  then show ?case by (cases n) simp_all
qed

lemma find_SomeD: "find P xs = Some x \<Longrightarrow> x \<in> set xs \<and> P x"
  by (induction xs) (auto split: if_splits)

lemma find_append: "find P (xs @ ys) = (case find P xs of Some x \<Rightarrow> Some x | None \<Rightarrow> find P ys)"
  by (induction xs) simp_all

lemma ht_wf_len:
  assumes "ht_wf gk t L" "a \<le> ht_H t"
  shows "length (L a) \<le> ht_N t"
proof -
  have "distinct (L a)" "set (L a) \<subseteq> {ht_H t..<ht_N t}" using assms by (auto simp: ht_wf_def ht_lists_def)
  then have "length (L a) \<le> card {ht_H t..<ht_N t}" using card_mono [of "{ht_H t..<ht_N t}" "set (L a)"] distinct_card by fastforce
  then show ?thesis by simp
qed

lemma find_hentry_find:
  assumes wf: "ht_wf gk t L"
  shows "vr_htable_find_hentry gk t k =
    Done (find (\<lambda>i. hentry_has_key gk k (ht_ents t ! i)) (bucket_entries t k @ L (bucket_tail t k)))"
proof -
  note b = ht_wf_bucket [OF wf, of k]
  have "seg (ht_ents t) (hentry_next (ht_ents t ! bucket_tail t k)) (L (bucket_tail t k)) None"
    using wf b(2) by (simp add: ht_wf_def ht_lists_def)
  moreover have "ht_H t \<le> ht_N t" using wf by (simp add: ht_wf_def ht_sizes_def)
  ultimately show ?thesis
    using scan_entries_find [OF b(5)] scan_list_find ht_wf_len [OF wf, of "bucket_tail t k"] b(2,4)
    by (auto simp: vr_htable_find_hentry_def find_append split: option.split)
qed

lemma find_hentry_index:
  assumes wf: "ht_wf gk t L"
  shows "vr_htable_find_hentry gk t k = Done (ht_index gk t k)"
proof -
  let ?l = "bucket_entries t k @ L (bucket_tail t k)" and ?P = "\<lambda>i. hentry_has_key gk k (ht_ents t ! i)"
  have l: "set ?l \<subseteq> {..<ht_N t}"
  proof -
    have "x < ht_N t" if "x \<in> set (L (bucket_tail t k))" for x
      using ht_listsD(4) [OF ht_wfD(2) [OF wf] _ that] ht_wf_bucket(2) [OF wf, of k] by simp
    moreover have "ht_H t \<le> ht_N t" using wf by (simp add: ht_wf_def ht_sizes_def)
    ultimately show ?thesis using ht_wf_bucket(5) [OF wf, of k] by auto
  qed
  have "find ?P ?l = ht_index gk t k"
  proof (cases "find ?P ?l")
    case None
    then have "\<not> hentry_has_key gk k (ht_ents t ! i)" if "i \<in> set ?l" for i using that by (auto simp: find_None_iff)
    moreover have "hentry_has_key gk k (ht_ents t ! i) \<and> i \<in> set ?l"
      if "i < ht_N t" "gk (hentry_body (ht_ents t ! i)) = Some k" for i
      using wf that by (auto simp: ht_wf_def ht_keys_def hentry_has_key_def hentry_valid_bit)
    ultimately have "ht_index gk t k = None" unfolding ht_index_None by blast
    then show ?thesis using None by simp
  next
    case (Some i)
    then have "hentry_has_key gk k (ht_ents t ! i)" "i \<in> set ?l" using find_SomeD by fastforce+
    then have "ht_index gk t k = Some i" unfolding ht_index_Some [OF wf] using l by (auto simp: hentry_has_key_def)
    then show ?thesis using Some by simp
  qed
  then show ?thesis by (simp add: find_hentry_find [OF wf])
qed

section \<open>Changing the body of an entry\<close>

lemma bucket_simps [simp]:
  "bucket_entries (t\<lparr>ht_ents := es\<rparr>) = bucket_entries t" "bucket_tail (t\<lparr>ht_ents := es\<rparr>) = bucket_tail t"
  "bucket_entries (t\<lparr>ht_used_entries := u\<rparr>) = bucket_entries t" "bucket_tail (t\<lparr>ht_used_entries := u\<rparr>) = bucket_tail t"
  "bucket_entries (t\<lparr>ht_used_oentries := u\<rparr>) = bucket_entries t" "bucket_tail (t\<lparr>ht_used_oentries := u\<rparr>) = bucket_tail t"
  "bucket_entries (t\<lparr>ht_free_oentry_head := hp\<rparr>) = bucket_entries t" "bucket_tail (t\<lparr>ht_free_oentry_head := hp\<rparr>) = bucket_tail t"
  "bucket_entries (t\<lparr>ht_dtable := dt\<rparr>) = bucket_entries t" "bucket_tail (t\<lparr>ht_dtable := dt\<rparr>) = bucket_tail t"
  "bucket_entries (t\<lparr>ht_work := w\<rparr>) = bucket_entries t" "bucket_tail (t\<lparr>ht_work := w\<rparr>) = bucket_tail t"
  "bucket_entries (t\<lparr>ht_defer := ds\<rparr>) = bucket_entries t" "bucket_tail (t\<lparr>ht_defer := ds\<rparr>) = bucket_tail t"
  by (auto simp: bucket_entries_def bucket_start_def bucket_tail_def fun_eq_iff)

lemma upd_field: "g e = g (es ! i) \<Longrightarrow> g (es[i := e] ! j) = g (es ! j)"
  by (cases "i < length es"; cases "j = i") (simp_all add: list_update_beyond)

lemma ht_sizes_upd:
  assumes "ht_sizes t" "hentry_index e = hentry_index (ht_ents t ! i)"
  shows "ht_sizes (t\<lparr>ht_ents := (ht_ents t)[i := e]\<rparr>)"
  using assms(1) by (simp add: ht_sizes_def upd_field [where g = hentry_index, OF assms(2)])

lemma ht_lists_upd:
  assumes "ht_lists t L" "hentry_next e = hentry_next (ht_ents t ! i)"
  shows "ht_lists (t\<lparr>ht_ents := (ht_ents t)[i := e]\<rparr>) L"
  using assms(1) by (simp add: ht_lists_def seg_upd_next [OF assms(2)] del: seg.simps)

definition ht_set_body :: "nat \<Rightarrow> ('p \<Rightarrow> 'p) \<Rightarrow> 'p vr_htable \<Rightarrow> 'p vr_htable" where
  "ht_set_body i f t = hent_upd i (hentry_body_update f) t"

lemma ht_flags_body: "ht_flags t L \<Longrightarrow> ht_flags (ht_set_body i f t) L"
  by (simp add: ht_flags_def ht_set_body_def upd_field [where g = hentry_flags] upd_field [where g = hentry_bucket_index])

lemma ht_wf_set_body:
  assumes wf: "ht_wf gk t L" and i: "i < ht_N t" "bit (hentry_flags (ht_ents t ! i)) 0"
    and k: "\<And>k. gk (f (hentry_body (ht_ents t ! i))) = Some k \<Longrightarrow>
      i \<in> set (bucket_entries t k @ L (bucket_tail t k)) \<and>
      (\<forall>j<ht_N t. gk (hentry_body (ht_ents t ! j)) = Some k \<longrightarrow> j = i)"
  shows "ht_wf gk (ht_set_body i f t) L"
    "ht_index gk (ht_set_body i f t) k' =
       (if gk (f (hentry_body (ht_ents t ! i))) = Some k' then Some i
        else if ht_index gk t k' = Some i then None else ht_index gk t k')"
proof -
  let ?t = "ht_set_body i f t"
  have b: "hentry_body (ht_ents ?t ! j) = (if j = i then f (hentry_body (ht_ents t ! i)) else hentry_body (ht_ents t ! j))"
    "hentry_flags (ht_ents ?t ! j) = hentry_flags (ht_ents t ! j)" for j
    using i(1) by (cases "j = i"; simp add: ht_set_body_def)+
  have N: "ht_N ?t = ht_N t" by (simp add: ht_set_body_def)
  have be: "bucket_entries ?t = bucket_entries t" "bucket_tail ?t = bucket_tail t" by (simp_all add: ht_set_body_def)
  have "ht_keys gk ?t L"
    unfolding ht_keys_def N be
  proof (intro allI impI)
    fix j k
    assume j: "j < ht_N t" "gk (hentry_body (ht_ents ?t ! j)) = Some k"
    have old: "bit (hentry_flags (ht_ents t ! j)) 0 \<and> j \<in> set (bucket_entries t k @ L (bucket_tail t k)) \<and>
      (\<forall>j'<ht_N t. gk (hentry_body (ht_ents t ! j')) = Some k \<longrightarrow> j' = j)" if "gk (hentry_body (ht_ents t ! j)) = Some k"
      using ht_wfD(4) [OF wf] j(1) that unfolding ht_keys_def by blast
    show "bit (hentry_flags (ht_ents ?t ! j)) 0 \<and> j \<in> set (bucket_entries t k @ L (bucket_tail t k)) \<and>
      (\<forall>j'<ht_N t. gk (hentry_body (ht_ents ?t ! j')) = Some k \<longrightarrow> j' = j)"
    proof (cases "j = i")
      case True
      then show ?thesis using k [of k] j i(2) by (auto simp: b)
    next
      case False
      then have jk: "gk (hentry_body (ht_ents t ! j)) = Some k" using j(2) by (simp add: b)
      have "gk (f (hentry_body (ht_ents t ! i))) \<noteq> Some k"
      proof
        assume "gk (f (hentry_body (ht_ents t ! i))) = Some k"
        from k [OF this] jk j(1) False show False by blast
      qed
      then show ?thesis using old [OF jk] by (simp add: b)
    qed
  qed
  then show wf': "ht_wf gk ?t L"
    using ht_wfD(1-3) [OF wf] ht_flags_body [of t L i f]
    by (auto simp: ht_wf_def ht_set_body_def intro: ht_sizes_upd ht_lists_upd)
  show "ht_index gk ?t k' = (if gk (f (hentry_body (ht_ents t ! i))) = Some k' then Some i
        else if ht_index gk t k' = Some i then None else ht_index gk t k')"
  proof (cases "ht_index gk ?t k'")
    case None
    then have n: "gk (hentry_body (ht_ents ?t ! j)) \<noteq> Some k'" if "j < ht_N t" for j
      using that ht_index_None [of gk ?t k'] by (simp add: N)
    have "j = i" if "ht_index gk t k' = Some j" for j
      using n [of j] that ht_index_Some [OF wf, of k' j] by (cases "j = i") (simp_all add: b)
    then show ?thesis using n [OF i(1)] None by (cases "ht_index gk t k'") (simp_all add: b)
  next
    case (Some j)
    then have j: "j < ht_N t" "gk (hentry_body (ht_ents ?t ! j)) = Some k'" using ht_index_Some [OF wf', of k' j] by (simp_all add: N)
    have "ht_index gk ?t k' = Some i" if "gk (f (hentry_body (ht_ents t ! i))) = Some k'"
      using ht_index_Some [OF wf', of k' i] that i(1) by (simp add: N b)
    moreover have "ht_index gk t k' = Some j" if "j \<noteq> i"
      using ht_index_Some [OF wf, of k' j] j that by (simp add: b)
    ultimately show ?thesis using Some j(2) by (cases "j = i") (auto simp: b)
  qed
qed

section \<open>Taking an entry\<close>

lemma ht_flags_main:
  assumes "ht_flags t L" "ht_lists t L" "i < ht_H t"
  shows "ht_flags (t\<lparr>ht_ents := (ht_ents t)[i := e]\<rparr>) L"
proof -
  have "(ht_ents t)[i := e] ! x = ht_ents t ! x" if "ht_H t \<le> x" for x
    using that assms(3) by simp
  moreover have "ht_H t \<le> x" if "h < ht_H t" "x \<in> set (L h)" for h x
    using ht_listsD(4) [OF assms(2) _ that(2)] that(1) by simp
  ultimately show ?thesis using assms(1) by (simp add: ht_flags_def)
qed

lemma ht_keys_upd:
  assumes "ht_keys gk t L" "hentry_body e = hentry_body (ht_ents t ! i)"
    "gk (hentry_body (ht_ents t ! i)) \<noteq> None \<Longrightarrow> bit (hentry_flags e) 0"
  shows "ht_keys gk (t\<lparr>ht_ents := (ht_ents t)[i := e]\<rparr>) L"
proof -
  have b: "hentry_body ((ht_ents t)[i := e] ! j) = hentry_body (ht_ents t ! j)" for j
    by (rule upd_field [where g = hentry_body, OF assms(2)])
  have "bit (hentry_flags ((ht_ents t)[i := e] ! j)) 0"
    if "j < ht_N t" "gk (hentry_body (ht_ents t ! j)) = Some k" for j k
    using assms(1,3) that by (cases "j = i") (auto simp: ht_keys_def)
  then show ?thesis using assms(1) by (simp add: ht_keys_def b)
qed

lemma ht_keys_mono:
  assumes "ht_keys gk t L" "\<And>h. h < ht_H t \<Longrightarrow> set (L h) \<subseteq> set (L' h)" "\<And>k. bucket_tail t k < ht_H t"
  shows "ht_keys gk t L'"
  unfolding ht_keys_def
proof (intro allI impI)
  fix i k
  assume "i < ht_N t" "gk (hentry_body (ht_ents t ! i)) = Some k"
  then show "bit (hentry_flags (ht_ents t ! i)) 0 \<and> i \<in> set (bucket_entries t k @ L' (bucket_tail t k)) \<and>
    (\<forall>j<ht_N t. gk (hentry_body (ht_ents t ! j)) = Some k \<longrightarrow> j = i)"
    using assms(1,2) assms(3) [of k] unfolding ht_keys_def set_append by blast
qed

lemma ht_keys_invalid: "ht_keys gk t L \<Longrightarrow> i < ht_N t \<Longrightarrow> \<not> bit (hentry_flags (ht_ents t ! i)) 0 \<Longrightarrow> gk (hentry_body (ht_ents t ! i)) = None"
  unfolding ht_keys_def by (metis not_None_eq)

lemma ht_wf_counts:
  "ht_wf gk (t\<lparr>ht_used_entries := u\<rparr>) L = ht_wf gk t L" "ht_wf gk (t\<lparr>ht_used_oentries := u\<rparr>) L = ht_wf gk t L"
  by (simp_all add: ht_wf_def ht_sizes_def ht_lists_def ht_flags_def ht_keys_def)

lemma find_free_main:
  assumes wf: "ht_wf gk t L" and i: "i < ht_H t" "\<not> bit (hentry_flags (ht_ents t ! i)) 0"
  shows "ht_wf gk (hent_upd i (\<lambda>e. e\<lparr>hentry_flags := VR_HENTRY_FLAG_VALID, hentry_bucket_index := b\<rparr>) t) L"
  unfolding ht_wf_def using ht_wfD [OF wf] i
  by (intro conjI ht_sizes_upd ht_lists_upd ht_flags_main ht_keys_upd) simp_all

lemma find_free_oflow_lists:
  assumes sz: "ht_sizes t" and ls: "ht_lists t L" and bt: "bt < ht_H t" "bt mod 4 = 3" and fl: "L (ht_H t) = o' # fl"
    and en: "hentry_next e1 = hentry_next (ht_ents t ! bt)" "hentry_next e2 = Some o'"
  shows "ht_lists (t\<lparr>ht_ents := (ht_ents t)[o' := e1, bt := e2], ht_free_oentry_head := hentry_next (ht_ents t ! o')\<rparr>)
    (L(ht_H t := fl, bt := o' # L bt))"
proof -
  let ?H = "ht_H t" and ?es = "(ht_ents t)[o' := e1, bt := e2]" and ?L = "L(ht_H t := fl, bt := o' # L bt)"
  note d = ht_listsD [OF ls]
  have o': "?H \<le> o'" "o' < ht_N t" "o' \<notin> set (ht_defer t)" using d(4,5) [of ?H o'] fl by simp_all
  have ne: "bt \<noteq> ?H" "bt \<noteq> o'" using bt o' by simp_all
  have fls: "o' \<notin> set fl" "distinct fl" "set fl \<subseteq> set (L ?H)" using d(3) [of ?H] fl by auto
  have oth: "o' \<notin> set (L h)" if "h < ?H" for h using d(6) [of h ?H o'] fl that by auto
  have tln: "bt \<notin> set (L a)" if "a \<le> ?H" for a using d(4) [of a bt] that bt by auto
  have mem: "set (?L a) \<subseteq> set (L a) \<union> {o'}" "a \<noteq> bt \<Longrightarrow> set (?L a) \<subseteq> set (L a)" "a \<noteq> bt \<Longrightarrow> a \<le> ?H \<Longrightarrow> o' \<notin> set (?L a)" for a
    using fls fl oth ne by auto
  have "seg ?es (Some h) (h # ?L h) None" if h: "h < ?H" for h
  proof (cases "h = bt")
    case True
    have "seg (ht_ents t) (hentry_next (ht_ents t ! bt)) (L bt) None" using d(1) [OF bt(1)] by simp
    then show ?thesis using True en ne o' oth [OF bt(1)] tln [of bt] bt by (auto simp: seg_upd sz)
  next
    case False
    have "o' \<notin> set (h # L h)" "bt \<notin> set (h # L h)" using oth [OF h] o' h False tln [of h] by auto
    then show ?thesis using d(1) [OF h] False h by (simp add: seg_upd del: seg.simps)
  qed
  moreover have "seg ?es (hentry_next (ht_ents t ! o')) (?L ?H) None"
  proof -
    have "seg (ht_ents t) (hentry_next (ht_ents t ! o')) fl None" using d(2) fl by simp
    moreover have "bt \<notin> set fl" using tln [of ?H] fls(3) by auto
    ultimately show ?thesis using ne fls(1) by (simp add: seg_upd)
  qed
  moreover have "distinct (?L a) \<and> set (?L a) \<subseteq> {?H..<ht_N t} \<and> set (?L a) \<inter> set (ht_defer t) = {}" if a: "a \<le> ?H" for a
  proof -
    have "distinct (?L a)" using d(3) [OF a] fls(2) oth [OF bt(1)] d(3) [of bt] bt by auto
    moreover have "x \<in> {?H..<ht_N t} \<and> x \<notin> set (ht_defer t)" if "x \<in> set (?L a)" for x
      using mem(1) [of a] that d(4) [OF a, of x] d(5) [OF a, of x] o' by auto
    ultimately show ?thesis by blast
  qed
  moreover have "set (?L a) \<inter> set (?L b) = {}" if ab: "a \<le> ?H" "b \<le> ?H" "a \<noteq> b" for a b
  proof -
    have "set (L a) \<inter> set (L b) = {}" using d(6) [OF ab(1,2)] ab(3) by blast
    moreover have "a \<noteq> bt \<or> b \<noteq> bt" using ab(3) by blast
    ultimately show ?thesis using mem [of a] mem [of b] ab by (cases "a = bt"; cases "b = bt") blast+
  qed
  moreover have "?L h = []" if "h < ?H" "h mod 4 \<noteq> 3" for h using d(7) [OF that] bt that by auto
  ultimately show ?thesis using d(8,9) unfolding ht_lists_def by auto
qed

lemma find_free_oflow_flags:
  assumes fg: "ht_flags t L" and ls: "ht_lists t L" and bt: "bt < ht_H t" and fl: "L (ht_H t) = o' # fl"
    and e1: "hentry_bucket_index e1 = of_nat bt" "hentry_flags e1 = VR_HENTRY_FLAG_VALID"
  shows "ht_flags (t\<lparr>ht_ents := (ht_ents t)[o' := e1, bt := e2], ht_free_oentry_head := p\<rparr>) (L(ht_H t := fl, bt := o' # L bt))"
    (is "ht_flags ?t ?L")
proof -
  let ?H = "ht_H t"
  note d = ht_listsD [OF ls] and f = ht_flagsD [OF fg]
  have o': "?H \<le> o'" "o' < ht_N t" "o' \<notin> set fl" using d(4) [of ?H o'] d(3) [of ?H] fl by simp_all
  have oth: "o' \<notin> set (L h)" if "h < ?H" for h using d(6) [of h ?H o'] fl that by auto
  have x: "ht_ents ?t ! x = (if x = o' then e1 else ht_ents t ! x)" if "?H \<le> x" for x using that bt o' by auto
  have ge: "?H \<le> x" if "h < ?H" "x \<in> set (L h)" for h x using d(4) [of h x] that by simp
  have t: "ht_H ?t = ?H" "ht_N ?t = ht_N t" by simp_all
  show ?thesis
  proof (rule ht_flagsI, unfold t)
    fix h x
    assume h: "h < ?H" "x \<in> set (?L h)"
    show "hentry_bucket_index (ht_ents ?t ! x) = of_nat h \<and> listed_flags (hentry_flags (ht_ents ?t ! x))"
    proof (cases "x = o'")
      case True
      then show ?thesis using h oth [of h] x [OF o'(1)] e1 by (auto split: if_splits)
    next
      case False
      then have l: "x \<in> set (L h)" using h by (auto split: if_splits)
      then show ?thesis using f(1) [OF h(1) l] x [OF ge [OF h(1) l]] False by simp
    qed
  next
    fix y
    assume y: "?H \<le> y" "y < ht_N t"
    show "bit (hentry_flags (ht_ents ?t ! y)) 3 \<longleftrightarrow> y \<in> set (?L ?H)"
      using f(2) [OF y] o'(3) e1 bt fl x [OF y(1)] by auto
    show "\<exists>h<?H. y \<in> set (?L h)" if v: "bit (hentry_flags (ht_ents ?t ! y)) 0"
    proof (cases "y = o'")
      case True
      then show ?thesis using bt by (intro exI [of _ bt]) simp
    next
      case False
      then obtain h where "h < ?H" "y \<in> set (L h)" using f(3) [OF y] v x [OF y(1)] by auto
      then show ?thesis by (intro exI [of _ h]) auto
    qed
  qed
qed

lemma find_free_oflow:
  assumes wf: "ht_wf gk t L" and bt: "bt < ht_H t" "bt mod 4 = 3" and fl: "L (ht_H t) = o' # fl"
  shows "\<exists>t'. link_oentry bt o' (snd (vr_htable_get_free_oentry t)) = t' \<and> fst (vr_htable_get_free_oentry t) = Some o' \<and>
    ht_wf gk t' (L(ht_H t := fl, bt := o' # L bt)) \<and> ht_N t' = ht_N t \<and> ht_hentries t' = ht_hentries t \<and>
    o' < ht_N t \<and> \<not> bit (hentry_flags (ht_ents t ! o')) 0 \<and> bit (hentry_flags (ht_ents t' ! o')) 0 \<and>
    (\<forall>j. hentry_body (ht_ents t' ! j) = hentry_body (ht_ents t ! j)) \<and> bucket_entries t' = bucket_entries t"
proof -
  note D = ht_wfD [OF wf] and d = ht_listsD [OF ht_wfD(2) [OF wf]]
  have hd: "ht_free_oentry_head t = Some o'" using d(2) fl by simp
  have o': "ht_H t \<le> o'" "o' < ht_N t" "o' \<noteq> bt" using d(4) [of "ht_H t" o'] fl bt by simp_all
  have "o' \<notin> set (L h)" if "h < ht_H t" for h using d(6) [of h "ht_H t" o'] fl that by auto
  then have inval: "\<not> bit (hentry_flags (ht_ents t ! o')) 0" using D(3) o' unfolding ht_flags_def by auto
  let ?nx = "hentry_next (ht_ents t ! bt)"
  let ?ni = "case ?nx of Some n \<Rightarrow> hentry_index (ht_ents t ! n) | None \<Rightarrow> VR_INVALID_HENTRY_INDEX"
  define e1 where "e1 = (ht_ents t ! o')\<lparr>hentry_bucket_index := of_nat bt, hentry_next_index := ?ni,
     hentry_flags := VR_HENTRY_FLAG_VALID, hentry_next := ?nx\<rparr>"
  define e2 where "e2 = (ht_ents t ! bt)\<lparr>hentry_next := Some o', hentry_next_index := hentry_index (ht_ents t ! o')\<rparr>"
  let ?L = "L(ht_H t := fl, bt := o' # L bt)"
  define t' where "t' = t\<lparr>ht_free_oentry_head := hentry_next (ht_ents t ! o'),
    ht_used_oentries := ht_used_oentries t + 1, ht_ents := (ht_ents t)[o' := e1, bt := e2]\<rparr>"
  have l: "link_oentry bt o' (snd (vr_htable_get_free_oentry t)) = t'" "fst (vr_htable_get_free_oentry t) = Some o'"
    using o' by (simp_all add: vr_htable_get_free_oentry_def hd link_oentry_def Let_def t'_def e1_def e2_def
        upd_field [where g = hentry_index] cong: option.case_cong)
  have body: "hentry_body ((ht_ents t)[o' := e1, bt := e2] ! j) = hentry_body (ht_ents t ! j)" for j
    using upd_field [of hentry_body e2 "(ht_ents t)[o' := e1]" bt j] upd_field [of hentry_body e1 "ht_ents t" o' j] o'
    by (simp add: e1_def e2_def)
  have sz: "ht_sizes (t\<lparr>ht_ents := (ht_ents t)[o' := e1, bt := e2]\<rparr>)"
    using ht_sizes_upd [OF ht_sizes_upd [OF D(1), of e1 o'], of e2 bt] o' by (simp add: e1_def e2_def)
  have fl1: "bit (hentry_flags ((ht_ents t)[o' := e1, bt := e2] ! o')) 0" using o' by (simp add: e1_def)
  have "ht_keys gk (t\<lparr>ht_ents := (ht_ents t)[o' := e1, bt := e2]\<rparr>) L"
  proof -
    have k1: "ht_keys gk (t\<lparr>ht_ents := (ht_ents t)[o' := e1]\<rparr>) L" by (rule ht_keys_upd [OF D(4)]) (simp_all add: e1_def)
    have "bit (hentry_flags e2) 0" if "gk (hentry_body (ht_ents t ! bt)) \<noteq> None"
      using D(4) that bt D(1) unfolding ht_keys_def ht_sizes_def by (auto simp: e2_def)
    then show ?thesis using ht_keys_upd [OF k1, of e2 bt] o' by (simp add: e2_def)
  qed
  then have "ht_keys gk (t\<lparr>ht_ents := (ht_ents t)[o' := e1, bt := e2]\<rparr>) ?L"
    by (rule ht_keys_mono) (use ht_wf_bucket(2) [OF wf] in auto)
  moreover have "ht_lists (t\<lparr>ht_ents := (ht_ents t)[o' := e1, bt := e2], ht_free_oentry_head := hentry_next (ht_ents t ! o')\<rparr>) ?L"
    by (rule find_free_oflow_lists [OF D(1,2) bt fl]) (simp_all add: e1_def e2_def)
  moreover have "ht_flags (t\<lparr>ht_ents := (ht_ents t)[o' := e1, bt := e2], ht_free_oentry_head := hentry_next (ht_ents t ! o')\<rparr>) ?L"
    by (rule find_free_oflow_flags [OF D(3,2) bt(1) fl]) (simp_all add: e1_def)
  ultimately have "ht_wf gk t' ?L"
    using sz by (simp add: t'_def ht_wf_def ht_sizes_def ht_lists_def ht_flags_def ht_keys_def)
  then show ?thesis using l inval body fl1 o' by (intro exI [of _ t']) (simp add: t'_def)
qed

lemma find_free_spec:
  assumes wf: "ht_wf gk t L"
  obtains r t' where "vr_htable_find_free_hentry t k = Done (r, t')" "ht_N t' = ht_N t"
    "\<And>j. hentry_body (ht_ents t' ! j) = hentry_body (ht_ents t ! j)"
    "r = None \<Longrightarrow> t' = t \<and> (\<forall>i\<in>set (bucket_entries t k). hentry_valid (ht_ents t ! i)) \<and> (ht_oentries t = 0 \<or> L (ht_H t) = [])"
    "\<And>i. r = Some i \<Longrightarrow> \<exists>L'. ht_wf gk t' L' \<and> i < ht_N t \<and> \<not> hentry_valid (ht_ents t ! i) \<and>
       bit (hentry_flags (ht_ents t' ! i)) 0 \<and> i \<in> set (bucket_entries t' k @ L' (bucket_tail t' k))"
proof -
  note b = ht_wf_bucket [OF wf, of k]
  have HN: "ht_H t \<le> ht_N t" using ht_wfD(1) [OF wf] by (simp add: ht_sizes_def)
  have sc: "scan_entries (\<lambda>e. \<not> hentry_valid e) t (bucket_entries t k) =
    Done (find (\<lambda>i. \<not> hentry_valid (ht_ents t ! i)) (bucket_entries t k))" by (rule scan_entries_find [OF b(5) HN])
  show thesis
  proof (cases "find (\<lambda>i. \<not> hentry_valid (ht_ents t ! i)) (bucket_entries t k)")
    case (Some i)
    then have i: "i \<in> set (bucket_entries t k)" "\<not> hentry_valid (ht_ents t ! i)" using find_SomeD by fastforce+
    then have iH: "i < ht_H t" using b(5) by blast
    let ?t = "hent_upd i (\<lambda>e. e\<lparr>hentry_flags := VR_HENTRY_FLAG_VALID, hentry_bucket_index := VR_INVALID_HENTRY_INDEX\<rparr>)
      (t\<lparr>ht_used_entries := ht_used_entries t + 1\<rparr>)"
    have "ht_wf gk ?t L"
      using find_free_main [of gk "t\<lparr>ht_used_entries := ht_used_entries t + 1\<rparr>" L i VR_INVALID_HENTRY_INDEX] wf iH i(2)
      by (simp add: ht_wf_counts hentry_valid_bit)
    then show ?thesis
      using i iH HN Some sc upd_field [of hentry_body _ "ht_ents t" i]
      by (intro that [of "Some i" ?t]) (auto simp: vr_htable_find_free_hentry_def)
  next
    case None
    then have full: "\<forall>i\<in>set (bucket_entries t k). hentry_valid (ht_ents t ! i)" by (auto simp: find_None_iff)
    show ?thesis
    proof (cases "ht_oentries t = 0 \<or> L (ht_H t) = []")
      case True
      have "ht_free_oentry_head t = None" if "L (ht_H t) = []" using ht_listsD(2) [OF ht_wfD(2) [OF wf]] that by simp
      then show ?thesis
        using True None sc full by (intro that [of None t]) (auto simp: vr_htable_find_free_hentry_def vr_htable_get_free_oentry_def)
    next
      case False
      then obtain o' fl where fl: "L (ht_H t) = o' # fl" by (cases "L (ht_H t)") auto
      from find_free_oflow [OF wf b(2,3) fl] obtain t' where t': "link_oentry (bucket_tail t k) o' (snd (vr_htable_get_free_oentry t)) = t'"
        "fst (vr_htable_get_free_oentry t) = Some o'" "ht_wf gk t' (L(ht_H t := fl, bucket_tail t k := o' # L (bucket_tail t k)))"
        "ht_N t' = ht_N t" "o' < ht_N t" "\<not> bit (hentry_flags (ht_ents t ! o')) 0" "bit (hentry_flags (ht_ents t' ! o')) 0"
        "\<forall>j. hentry_body (ht_ents t' ! j) = hentry_body (ht_ents t ! j)" "ht_hentries t' = ht_hentries t" by blast
      have lk: "link_oentry a c (s\<lparr>ht_used_entries := u\<rparr>) = (link_oentry a c s)\<lparr>ht_used_entries := u\<rparr>" for a c u and s :: "'a vr_htable"
        by (simp add: link_oentry_def Let_def split: option.split)
      have "bucket_entries (snd (vr_htable_get_free_oentry t)) k = bucket_entries t k"
        "ht_used_entries (snd (vr_htable_get_free_oentry t)) = ht_used_entries t"
        by (simp_all add: vr_htable_get_free_oentry_def split: option.split)
      then have "vr_htable_find_free_hentry t k = Done (Some o', t'\<lparr>ht_used_entries := ht_used_entries t + 1\<rparr>)"
        using None sc False t'(1,2) b(4) by (cases "vr_htable_get_free_oentry t") (simp add: vr_htable_find_free_hentry_def lk)
      moreover have "bucket_tail t' k = bucket_tail t k" using t'(9) by (simp add: bucket_tail_def)
      ultimately show ?thesis
        using t' by (intro that [of "Some o'" "t'\<lparr>ht_used_entries := ht_used_entries t + 1\<rparr>"])
          (auto simp: ht_wf_counts hentry_valid_bit intro!: exI [of _ "L(ht_H t := fl, bucket_tail t k := o' # L (bucket_tail t k))"])
    qed
  qed
qed

end
