(* ===== verification/VR_Htable_Del.thy ===== *)
theory VR_Htable_Del
  imports VR_Htable_Inv
begin

text \<open>
  Giving entries of the hash table back: releasing an entry, the scheduled work that unlinks the
  marked overflow entries of a bucket, and the deferred callback that puts them on the free list.
  All keep the invariant and what the table stores.
\<close>

section \<open>Releasing an entry\<close>

lemma ht_flags_upd:
  assumes fg: "ht_flags t L"
    and e: "hentry_bucket_index e = hentry_bucket_index (ht_ents t ! i)"
      "bit (hentry_flags e) 3 = bit (hentry_flags (ht_ents t ! i)) 3"
      "bit (hentry_flags e) 0 \<Longrightarrow> bit (hentry_flags (ht_ents t ! i)) 0"
      "listed_flags (hentry_flags (ht_ents t ! i)) \<Longrightarrow> listed_flags (hentry_flags e)"
  shows "ht_flags (t\<lparr>ht_ents := (ht_ents t)[i := e]\<rparr>) L" (is "ht_flags ?t L")
proof -
  note f = ht_flagsD [OF fg]
  have b: "hentry_bucket_index (ht_ents ?t ! x) = hentry_bucket_index (ht_ents t ! x)"
    "bit (hentry_flags (ht_ents ?t ! x)) 3 = bit (hentry_flags (ht_ents t ! x)) 3"
    "bit (hentry_flags (ht_ents ?t ! x)) 0 \<Longrightarrow> bit (hentry_flags (ht_ents t ! x)) 0"
    "listed_flags (hentry_flags (ht_ents t ! x)) \<Longrightarrow> listed_flags (hentry_flags (ht_ents ?t ! x))" for x
    using e by (cases "x = i"; cases "i < ht_N t"; simp add: list_update_beyond)+
  have t: "ht_H ?t = ht_H t" "ht_N ?t = ht_N t" by simp_all
  show ?thesis
    by (rule ht_flagsI, unfold t b(1,2)) (use f b(3,4) in blast)+
qed

text \<open>What the operations of this theory do not change.\<close>

definition ht_same :: "'p vr_htable \<Rightarrow> 'p vr_htable \<Rightarrow> bool" where
  "ht_same t t' \<longleftrightarrow> ht_N t' = ht_N t \<and> ht_hentries t' = ht_hentries t \<and> ht_oentries t' = ht_oentries t \<and>
     (\<forall>j. hentry_body (ht_ents t' ! j) = hentry_body (ht_ents t ! j))"

lemma ht_same_refl [simp]: "ht_same t t"
  by (simp add: ht_same_def)

lemma ht_same_trans: "ht_same t t1 \<Longrightarrow> ht_same t1 t2 \<Longrightarrow> ht_same t t2"
  by (simp add: ht_same_def)

lemma ht_same_index: "ht_same t t' \<Longrightarrow> ht_index gk t' = ht_index gk t"
  by (rule ht_index_cong) (simp_all add: ht_same_def)

lemma ht_same_upd: "hentry_body e = hentry_body (ht_ents t ! i) \<Longrightarrow> ht_same t (t\<lparr>ht_ents := (ht_ents t)[i := e]\<rparr>)"
  using upd_field [of hentry_body e "ht_ents t" i] by (simp add: ht_same_def)

lemma ht_wf_upd:
  assumes "ht_wf gk t L"
    and "hentry_index e = hentry_index (ht_ents t ! i)" "hentry_next e = hentry_next (ht_ents t ! i)"
      "hentry_bucket_index e = hentry_bucket_index (ht_ents t ! i)" "hentry_body e = hentry_body (ht_ents t ! i)"
      "bit (hentry_flags e) 3 = bit (hentry_flags (ht_ents t ! i)) 3"
      "bit (hentry_flags e) 0 \<Longrightarrow> bit (hentry_flags (ht_ents t ! i)) 0"
      "listed_flags (hentry_flags (ht_ents t ! i)) \<Longrightarrow> listed_flags (hentry_flags e)"
      "gk (hentry_body (ht_ents t ! i)) = None"
  shows "ht_wf gk (t\<lparr>ht_ents := (ht_ents t)[i := e]\<rparr>) L"
  unfolding ht_wf_def using ht_wfD [OF assms(1)] assms(2-)
  by (intro conjI ht_sizes_upd ht_lists_upd ht_flags_upd ht_keys_upd) auto

lemma ht_wf_dtable:
  assumes "ht_wf gk t L" "length dt = length (ht_dtable t)"
    "\<And>d. d \<in> set w \<Longrightarrow> d < length (ht_dtable t) \<and> unat (hd_index (dt ! d)) < ht_H t"
  shows "ht_wf gk (t\<lparr>ht_dtable := dt, ht_work := w\<rparr>) L" (is "ht_wf gk ?t L")
proof -
  have "ht_sizes ?t" using assms(2,3) ht_wfD(1) [OF assms(1)] unfolding ht_sizes_def by simp
  moreover have "ht_lists ?t L = ht_lists t L" "ht_flags ?t L = ht_flags t L" "ht_keys gk ?t L = ht_keys gk t L"
    by (simp_all add: ht_lists_def ht_flags_def ht_keys_def)
  ultimately show ?thesis using ht_wfD [OF assms(1)] by (simp add: ht_wf_def)
qed

lemma get_by_index_raw:
  assumes "ht_wf gk t L" "i < ht_N t"
  shows "get_hentry_by_index_raw t (of_nat i) = Some i"
proof -
  have s: "ht_N t = ht_H t + unat (ht_oentries t)" "ht_N t < 4294967296" using ht_wfD(1) [OF assms(1)] by (simp_all add: ht_sizes_def)
  then have "unat (ht_oentries t + ht_hentries t) = ht_N t" "unat (of_nat i :: u32) = i"
    using assms(2) by (simp_all add: unat_add_u32)
  then show ?thesis using assms(2) s unfolding get_hentry_by_index_raw_def word_less_nat_alt by simp
qed

lemma release_wf:
  assumes wf: "ht_wf gk t L" and i: "i < ht_N t" and g: "gk (hentry_body (ht_ents t ! i)) = None"
  shows "\<exists>t'. vr_htable_release_hentry nr sok i t = Done t' \<and> ht_wf gk t' L \<and> ht_same t t' \<and> \<not> hentry_valid (ht_ents t' ! i)"
proof (cases "hentry_valid (ht_ents t ! i)")
  case False
  then show ?thesis using wf by (simp add: vr_htable_release_hentry_def)
next
  case True
  let ?e = "(ht_ents t ! i)\<lparr>hentry_flags := hentry_flags (ht_ents t ! i) AND NOT VR_HENTRY_FLAG_VALID\<rparr>"
  define t1 where "t1 = hent_upd i (\<lambda>e. e\<lparr>hentry_flags := hentry_flags e AND NOT VR_HENTRY_FLAG_VALID\<rparr>)
    (t\<lparr>ht_used_entries := ht_used_entries t - 1\<rparr>)"
  have wf1: "ht_wf gk t1 L" unfolding t1_def
    by (rule ht_wf_upd) (use wf g in \<open>auto simp: ht_wf_counts flag_simps\<close>)
  have same1: "ht_same t t1" using ht_same_upd [of ?e t i] by (simp add: ht_same_def t1_def)
  have inv1: "\<not> hentry_valid (ht_ents t1 ! i)" using i by (simp add: t1_def flag_simps)
  have ix: "hentry_index (ht_ents t1 ! i) = of_nat i" using ht_wfD(1) [OF wf] i by (simp add: ht_sizes_def t1_def)
  have iH: "hentry_index (ht_ents t1 ! i) < ht_hentries t1 \<longleftrightarrow> i < ht_H t"
    using i ht_wfD(1) [OF wf] unfolding ix word_less_nat_alt by (simp add: t1_def ht_sizes_def)
  note run = vr_htable_release_hentry_def [of nr sok i t, unfolded Let_def, folded t1_def, unfolded iH]
  show ?thesis
  proof (cases "i < ht_H t \<or> nr")
    case True
    then have "vr_htable_release_hentry nr sok i t = Done t1"
      unfolding run using \<open>hentry_valid (ht_ents t ! i)\<close> by (elim disjE) (simp_all only: simp_thms if_True if_False if_cancel)
    then show ?thesis using wf1 same1 inv1 by simp
  next
    case False
    let ?e2 = "(ht_ents t1 ! i)\<lparr>hentry_flags := hentry_flags (ht_ents t1 ! i) OR VR_HENTRY_FLAG_DELETE_MARKED\<rparr>"
    define t2 where "t2 = t1\<lparr>ht_ents := (ht_ents t1)[i := ?e2]\<rparr>"
    have g1: "gk (hentry_body (ht_ents t1 ! i)) = None" using g same1 by (simp add: ht_same_def)
    have wf2: "ht_wf gk t2 L" unfolding t2_def
      by (rule ht_wf_upd [OF wf1]) (use inv1 g1 in \<open>auto simp: flag_simps\<close>)
    have same2: "ht_same t t2" using ht_same_trans [OF same1 ht_same_upd [of ?e2 t1 i]] by (simp add: t2_def)
    have i1: "i < ht_N t1" using i by (simp add: t1_def)
    have inv2: "\<not> hentry_valid (ht_ents t2 ! i)" using inv1 i1 by (simp add: t2_def flag_simps)
    obtain h where h: "h < ht_H t" "i \<in> set (L h)"
      using ht_flagsD(3) [OF ht_wfD(3) [OF wf], of i] False i True by (auto simp: hentry_valid_bit)
    have H: "ht_H t2 = ht_H t" "ht_N t2 = ht_N t" "ht_oentries t2 = ht_oentries t" using same2 by (simp_all add: ht_same_def)
    have bi: "hentry_bucket_index (ht_ents t2 ! i) = of_nat h" using ht_flagsD(1) [OF ht_wfD(3) [OF wf2], of h i] h H by simp
    have hN: "h < ht_N t2" using h(1) H ht_wfD(1) [OF wf] by (simp add: ht_sizes_def)
    have hd: "get_hentry_by_index_raw t2 (of_nat h) = Some h" by (rule get_by_index_raw [OF wf2 hN])
    have hi: "hentry_index (ht_ents t2 ! h) = of_nat h" using ht_wfD(1) [OF wf2] hN by (simp add: ht_sizes_def)
    have hu: "unat (of_nat h :: u32) = h" using hN ht_wfD(1) [OF wf2] by (simp add: ht_sizes_def)
    have "unat ((of_nat h :: u32) div 4) = h div 4" unfolding unat_div hu by simp
    moreover have "ht_bucket_size t2 = 4" "4 dvd ht_H t2" using ht_wfD(1) [OF wf2] by (simp_all add: ht_sizes_def)
    moreover have dl: "length (ht_dtable t2) = ht_H t2 div 4"
      using ht_wfD(1) [OF wf2] False i H ht_wfD(1) [OF wf] by (auto simp: ht_sizes_def)
    ultimately have d: "unat (of_nat h div ht_bucket_size t2) = h div 4" "h div 4 < length (ht_dtable t2)"
      using h(1) H by (auto simp: div_less_mono)
    let ?dd = "(ht_dtable t2 ! (h div 4))\<lparr>hd_count := hd_count (ht_dtable t2 ! (h div 4)) + 1\<rparr>"
    have wk: "d < length (ht_dtable t2) \<and> unat (hd_index (ht_dtable t2 ! d)) < ht_H t2" if "d \<in> set (ht_work t2)" for d
      using ht_wfD(1) [OF wf2] that by (simp add: ht_sizes_def)
    have a: "ht_wf gk (t2\<lparr>ht_dtable := (ht_dtable t2)[h div 4 := ?dd], ht_work := ht_work t2\<rparr>) L"
      by (rule ht_wf_dtable [OF wf2]) (use wk d in \<open>auto simp: nth_list_update\<close>)
    have b: "ht_wf gk (t2\<lparr>ht_dtable := (ht_dtable t2)[h div 4 := ?dd\<lparr>hd_index := of_nat h, hd_scheduled := v\<rparr>], ht_work := w\<rparr>) L"
      if "set w \<subseteq> insert (h div 4) (set (ht_work t2))" for w v
      by (rule ht_wf_dtable [OF wf2]) (use wk d h H hu that in \<open>auto simp: nth_list_update\<close>)
    have same3: "ht_same t (t2\<lparr>ht_dtable := dt, ht_work := w\<rparr>)" "ht_same t (t2\<lparr>ht_dtable := dt\<rparr>)" for dt w
      using same2 by (simp_all add: ht_same_def)
    have "vr_htable_release_hentry nr sok i t =
      (if hd_scheduled ?dd \<noteq> 0 then Done (t2\<lparr>ht_dtable := (ht_dtable t2)[h div 4 := ?dd], ht_work := ht_work t2\<rparr>)
       else Done (t2\<lparr>ht_dtable := (ht_dtable t2)[h div 4 := ?dd\<lparr>hd_index := of_nat h, hd_scheduled := (if sok then 1 else 0)\<rparr>],
         ht_work := (if sok then ht_work t2 @ [h div 4] else ht_work t2)\<rparr>))"
      unfolding run t2_def [symmetric] using True False bi hd hi d by simp
    moreover have "set (if sok then ht_work t2 @ [h div 4] else ht_work t2) \<subseteq> insert (h div 4) (set (ht_work t2))" by auto
    ultimately show ?thesis using a b same3 inv2 by (simp split: if_splits)
  qed
qed

section \<open>Unlinking marked entries\<close>

lemma ht_listsI:
  assumes "\<And>h. h < ht_H t \<Longrightarrow> seg (ht_ents t) (Some h) (h # L h) None"
    "seg (ht_ents t) (ht_free_oentry_head t) (L (ht_H t)) None"
    "\<And>a. a \<le> ht_H t \<Longrightarrow> distinct (L a)"
    "\<And>a x. a \<le> ht_H t \<Longrightarrow> x \<in> set (L a) \<Longrightarrow> ht_H t \<le> x \<and> x < ht_N t \<and> x \<notin> set (ht_defer t)"
    "\<And>a b x. a \<le> ht_H t \<Longrightarrow> b \<le> ht_H t \<Longrightarrow> x \<in> set (L a) \<Longrightarrow> x \<in> set (L b) \<Longrightarrow> a = b"
    "\<And>h. h < ht_H t \<Longrightarrow> h mod 4 \<noteq> 3 \<Longrightarrow> L h = []"
    "distinct (ht_defer t)" "\<And>x. x \<in> set (ht_defer t) \<Longrightarrow> ht_H t \<le> x \<and> x < ht_N t"
  shows "ht_lists t L"
  unfolding ht_lists_def
proof (intro conjI allI impI)
  show "set (L a) \<subseteq> {ht_H t..<ht_N t}" "set (L a) \<inter> set (ht_defer t) = {}" if "a \<le> ht_H t" for a
    using assms(4) [OF that] by auto
  show "set (L a) \<inter> set (L b) = {}" if "a \<le> ht_H t" "b \<le> ht_H t" "a \<noteq> b" for a b
    using assms(5) [OF that(1,2)] that(3) by blast
  show "set (ht_defer t) \<subseteq> {ht_H t..<ht_N t}" using assms(8) by auto
qed (use assms in simp_all)

lemma ht_lists_unlink:
  assumes ls: "ht_lists t L" and h: "h < ht_H t" and l: "L h = pre @ e # rest"
    and e1: "hentry_next e1 = hentry_next (ht_ents t ! e)" and p: "prev = last (h # pre)"
  shows "ht_lists (t\<lparr>ht_ents := (ht_ents t)[prev := e1]\<rparr>) (L(h := pre @ rest))"
proof -
  let ?H = "ht_H t" and ?L = "L(h := pre @ rest)"
  let ?es = "(ht_ents t)[prev := e1]"
  note d = ht_listsD [OF ls]
  have sub: "set (?L a) \<subseteq> set (L a)" for a using l by auto
  have dist: "distinct (?L a)" if "a \<le> ?H" for a using d(3) [OF that] d(3) [of h] h l by auto
  have hn: "h \<notin> set (L a)" if "a \<le> ?H" for a using d(4) [OF that, of h] h by auto
  obtain as where as: "h # pre = as @ [prev]" unfolding p by (metis append_butlast_last_id list.distinct(1))
  have sp: "h # L h = as @ prev # e # rest" "h # pre @ rest = as @ prev # rest" using l as
    by (metis append_Cons append_Nil append_assoc)+
  have pr: "prev = h \<or> prev \<in> set (L h)" using l p by (auto split: if_splits)
  have prn: "prev \<notin> set (L a)" if "a \<le> ?H" "a \<noteq> h" for a
    using pr hn [OF that(1)] d(6) [of h a prev] h that by auto
  have prh: "prev \<noteq> x" if "x < ?H" "x \<noteq> h" for x using pr d(4) [of h prev] h that by auto
  have "seg ?es (Some x) (x # ?L x) None" if x: "x < ?H" for x
  proof (cases "x = h")
    case True
    have "seg (ht_ents t) (Some h) (as @ prev # e # rest) None" using d(1) [OF h] sp(1) by simp
    moreover have "distinct (as @ prev # e # rest)" using sp(1) hn [of h] d(3) [of h] h by (metis distinct.simps(2) less_imp_le)
    ultimately have "seg ?es (Some h) (as @ prev # rest) None" using e1 by (rule seg_unlink)
    then show ?thesis unfolding True fun_upd_same sp(2) .
  next
    case False
    have "prev \<notin> set (x # L x)" using prn [of x] prh [OF x False] False x by simp
    then show ?thesis using d(1) [OF x] False by (simp add: seg_upd del: seg.simps)
  qed
  moreover have "seg ?es (ht_free_oentry_head t) (?L ?H) None"
    using d(2) prn [of ?H] h by (simp add: seg_upd)
  moreover have "x \<in> {?H..<ht_N t} \<and> x \<notin> set (ht_defer t)" if "a \<le> ?H" "x \<in> set (?L a)" for a x
    using d(4,5) [of a x] that sub [of a] by auto
  moreover have "set (?L a) \<inter> set (?L b) = {}" if ab: "a \<le> ?H" "b \<le> ?H" "a \<noteq> b" for a b
    using sub [of a] sub [of b] d(6) [OF ab(1,2)] ab(3) by blast
  moreover have "?L x = []" if "x < ?H" "x mod 4 \<noteq> 3" for x using d(7) [OF that] l by auto
  ultimately show ?thesis using d(8,9) dist unfolding ht_lists_def by (auto simp del: fun_upd_apply seg.simps)
qed

lemma ht_flags_unlink:
  assumes fg: "ht_flags t L" and ls: "ht_lists t L" and h: "h < ht_H t" and l: "L h = pre @ e # rest"
    and e2: "\<not> bit (hentry_flags e2) 0" "\<not> bit (hentry_flags e2) 3"
  shows "ht_flags (t\<lparr>ht_ents := (ht_ents t)[e := e2]\<rparr>) (L(h := pre @ rest))" (is "ht_flags ?t ?L")
proof -
  note d = ht_listsD [OF ls] and f = ht_flagsD [OF fg]
  have eH: "ht_H t \<le> e" "e < ht_N t" using d(4) [of h e] h l by simp_all
  have en: "e \<notin> set (?L a)" if "a \<le> ht_H t" for a
    using d(6) [of h a e] d(3) [of h] h l that by auto
  have sub: "x \<in> set (L a) \<and> x \<noteq> e" if "x \<in> set (?L a)" "a \<le> ht_H t" for x a using that en [of a] l by (auto split: if_splits)
  have keep: "x \<in> set (?L a)" if "x \<in> set (L a)" "x \<noteq> e" for x a using that l by auto
  have t: "ht_H ?t = ht_H t" "ht_N ?t = ht_N t" by simp_all
  have oth: "ht_ents ?t ! x = (if x = e then e2 else ht_ents t ! x)" for x using eH(2) by simp
  show ?thesis
  proof (rule ht_flagsI, unfold t)
    fix a x
    assume a: "a < ht_H t" "x \<in> set (?L a)"
    then show "hentry_bucket_index (ht_ents ?t ! x) = of_nat a \<and> listed_flags (hentry_flags (ht_ents ?t ! x))"
      using f(1) [of a x] sub [of x a] unfolding oth by simp
  next
    fix x
    assume x: "ht_H t \<le> x" "x < ht_N t"
    show "bit (hentry_flags (ht_ents ?t ! x)) 3 \<longleftrightarrow> x \<in> set (?L (ht_H t))"
      using f(2) [OF x] en [of "ht_H t"] e2 h unfolding oth by (simp split: if_splits)
    show "\<exists>h<ht_H t. x \<in> set (?L h)" if v: "bit (hentry_flags (ht_ents ?t ! x)) 0"
    proof -
      have "x \<noteq> e" "bit (hentry_flags (ht_ents t ! x)) 0" using v e2 unfolding oth by (auto split: if_splits)
      then show ?thesis using f(3) [OF x] keep [of x] by blast
    qed
  qed
qed

lemma ht_keys_shrink:
  assumes k: "ht_keys gk t L" and g: "gk (hentry_body (ht_ents t ! e)) = None" and s: "\<And>a. set (L a) \<subseteq> insert e (set (L' a))"
  shows "ht_keys gk t L'"
  unfolding ht_keys_def
proof (intro allI impI)
  fix i k'
  assume i: "i < ht_N t" "gk (hentry_body (ht_ents t ! i)) = Some k'"
  then have "i \<noteq> e" using g by auto
  then show "bit (hentry_flags (ht_ents t ! i)) 0 \<and> i \<in> set (bucket_entries t k' @ L' (bucket_tail t k')) \<and>
    (\<forall>j<ht_N t. gk (hentry_body (ht_ents t ! j)) = Some k' \<longrightarrow> j = i)"
    using k i s [of "bucket_tail t k'"] unfolding ht_keys_def set_append by blast
qed

lemma unlink_wf:
  assumes wf: "ht_wf gk t L" and h: "h < ht_H t" and l: "L h = pre @ e # rest"
    and m: "bit (hentry_flags (ht_ents t ! e)) 1"
  defines "t1 \<equiv> hentry_unlink (last (h # pre)) e t"
  shows "ht_wf gk t1 (L(h := pre @ rest))" "ht_same t t1" "ht_defer t1 = ht_defer t"
    "hentry_next (ht_ents t1 ! e) = hentry_next (ht_ents t ! e)" "bit (hentry_flags (ht_ents t1 ! e)) 2"
proof -
  let ?prev = "last (h # pre)" and ?nx = "hentry_next (ht_ents t ! e)" and ?L = "L(h := pre @ rest)"
  note D = ht_wfD [OF wf] and d = ht_listsD [OF ht_wfD(2) [OF wf]]
  have eH: "ht_H t \<le> e" "e < ht_N t" using d(4) [of h e] h l by simp_all
  have ep: "e \<noteq> ?prev" using d(3) [of h] h l eH by auto
  have pN: "?prev < ht_N t" using seg_less [OF d(1) [OF h], of ?prev] l by auto
  have pv: "gk (hentry_body (ht_ents t ! ?prev)) \<noteq> None \<Longrightarrow> bit (hentry_flags (ht_ents t ! ?prev)) 0"
    by (rule ccontr) (use ht_keys_invalid [OF D(4) pN] in simp)
  have lf: "listed_flags (hentry_flags (ht_ents t ! e))" using ht_flagsD(1) [OF D(3), of h e] h l by simp
  then have inv: "\<not> bit (hentry_flags (ht_ents t ! e)) 0" using m by simp
  have g: "gk (hentry_body (ht_ents t ! e)) = None" by (rule ht_keys_invalid [OF D(4) eH(2) inv])
  define e1 where "e1 = (ht_ents t ! ?prev)\<lparr>hentry_next := ?nx, hentry_next_index :=
    (case ?nx of Some n \<Rightarrow> hentry_index (ht_ents t ! n) | None \<Rightarrow> VR_INVALID_HENTRY_INDEX)\<rparr>"
  define e2 where "e2 = (ht_ents t ! e)\<lparr>hentry_flags := (hentry_flags (ht_ents t ! e) AND NOT VR_HENTRY_FLAG_DELETE_MARKED)
    OR VR_HENTRY_FLAG_DELETE_PROCESSED\<rparr>"
  define ta where "ta = t\<lparr>ht_ents := (ht_ents t)[?prev := e1]\<rparr>"
  have ta_e: "ht_ents ta ! e = ht_ents t ! e" using ep by (simp add: ta_def)
  have t1: "t1 = ta\<lparr>ht_ents := (ht_ents ta)[e := e2]\<rparr>"
    using ep by (simp add: t1_def hentry_unlink_def Let_def ta_def e1_def e2_def)
  have sa: "ht_same t ta" unfolding ta_def by (rule ht_same_upd) (simp add: e1_def)
  have s1: "ht_same ta t1" unfolding t1 by (rule ht_same_upd) (simp add: e2_def ta_e)
  show "ht_same t t1" by (rule ht_same_trans [OF sa s1])
  have e2f: "\<not> bit (hentry_flags e2) 0" "\<not> bit (hentry_flags e2) 3" using inv lf by (simp_all add: e2_def flag_simps)
  have "ht_sizes t1" unfolding t1 ta_def using D(1) ep by (intro ht_sizes_upd) (simp_all add: e1_def e2_def)
  moreover have "ht_lists t1 ?L" unfolding t1
    by (rule ht_lists_upd) (use ht_lists_unlink [OF D(2) h l, of e1 ?prev] ta_e in \<open>simp_all add: e1_def e2_def ta_def\<close>)
  moreover have "ht_flags t1 ?L"
  proof -
    define tb where "tb = t\<lparr>ht_ents := (ht_ents t)[e := e2]\<rparr>"
    have tb: "t1 = tb\<lparr>ht_ents := (ht_ents tb)[?prev := e1]\<rparr>"
      using list_update_swap [OF ep, of "ht_ents t" e2 e1] by (simp add: t1 ta_def tb_def)
    have "ht_flags tb ?L" unfolding tb_def by (rule ht_flags_unlink [OF D(3,2) h l e2f])
    moreover have "ht_ents tb ! ?prev = ht_ents t ! ?prev" unfolding tb_def using ep by simp
    ultimately show ?thesis unfolding tb by (intro ht_flags_upd) (simp_all add: e1_def)
  qed
  moreover have "ht_keys gk t1 ?L"
  proof -
    have "ht_keys gk ta L" unfolding ta_def
      by (rule ht_keys_upd [OF D(4)]) (use pv in \<open>simp_all add: e1_def\<close>)
    then have "ht_keys gk t1 L" unfolding t1 by (rule ht_keys_upd) (simp_all add: e2_def ta_e g)
    then show ?thesis by (rule ht_keys_shrink [where e = e]) (use g s1 sa l in \<open>auto simp: ht_same_def\<close>)
  qed
  ultimately show "ht_wf gk t1 ?L" by (simp add: ht_wf_def)
  show "ht_defer t1 = ht_defer t" by (simp add: t1 ta_def)
  show "hentry_next (ht_ents t1 ! e) = hentry_next (ht_ents t ! e)" "bit (hentry_flags (ht_ents t1 ! e)) 2"
    using eH by (simp_all add: t1 ta_def e2_def flag_simps)
qed

lemma invalidate_wf:
  assumes wf: "ht_wf gk t L" and e: "ht_H t \<le> e" "e < ht_N t" and n: "\<And>a. a \<le> ht_H t \<Longrightarrow> e \<notin> set (L a)" "e \<notin> set (ht_defer t)"
  defines "t1 \<equiv> vr_htable_oentry_invalidate e t"
  shows "ht_wf gk t1 (L(ht_H t := e # L (ht_H t)))" "ht_same t t1"
proof -
  let ?H = "ht_H t" and ?L = "L(ht_H t := e # L (ht_H t))"
  note D = ht_wfD [OF wf] and d = ht_listsD [OF ht_wfD(2) [OF wf]] and f = ht_flagsD [OF ht_wfD(3) [OF wf]]
  have inv: "\<not> bit (hentry_flags (ht_ents t ! e)) 0" using f(3) [OF e] n(1) by auto
  have fr: "\<not> bit (hentry_flags (ht_ents t ! e)) 3" using f(2) [OF e] n(1) by simp
  have "ht_N t < 2 ^ 32" "hentry_index (ht_ents t ! e) = of_nat e" using D(1) e by (simp_all add: ht_sizes_def)
  then have ix: "\<not> hentry_index (ht_ents t ! e) < ht_hentries t"
    using e unfolding word_less_nat_alt by simp
  define e2 where "e2 = (ht_ents t ! e)\<lparr>hentry_bucket_index := VR_INVALID_HENTRY_INDEX,
    hentry_next_index := VR_INVALID_HENTRY_INDEX,
    hentry_flags := (hentry_flags (ht_ents t ! e) AND VR_HENTRY_FLAG_IN_FREE_LIST) OR VR_HENTRY_FLAG_IN_FREE_LIST,
    hentry_next := ht_free_oentry_head t\<rparr>"
  define ta where "ta = t\<lparr>ht_ents := (ht_ents t)[e := e2]\<rparr>"
  have t1: "t1 = t\<lparr>ht_free_oentry_head := Some e, ht_used_oentries := ht_used_oentries t - 1, ht_ents := ht_ents ta\<rparr>"
    unfolding t1_def vr_htable_oentry_invalidate_def vr_htable_put_free_oentry_def
    using ix fr e by (simp add: flag_simps e2_def ta_def)
  have sa: "ht_same t ta" unfolding ta_def by (rule ht_same_upd) (simp add: e2_def)
  then show "ht_same t t1" by (simp add: t1 ht_same_def ta_def)
  have o': "ht_ents ta ! x = (if x = e then e2 else ht_ents t ! x)" for x using e by (simp add: ta_def)
  have e2f: "bit (hentry_flags e2) 3" "\<not> bit (hentry_flags e2) 0" by (simp_all add: e2_def flag_simps)
  have [simp]: "ht_hentries ta = ht_hentries t" "ht_N ta = ht_N t" "ht_defer ta = ht_defer t" by (simp_all add: ta_def)
  have "ht_sizes ta" unfolding ta_def using D(1) by (intro ht_sizes_upd) (simp_all add: e2_def)
  moreover have "ht_lists t1 ?L"
  proof -
    have "seg (ht_ents ta) (Some h) (h # ?L h) None" if "h < ?H" for h
      using d(1) [OF that] n(1) [of h] that e by (simp add: ta_def seg_upd del: seg.simps)
    moreover have "seg (ht_ents ta) (Some e) (?L ?H) None"
      using d(2) n(1) [of ?H] e by (simp add: ta_def seg_upd e2_def)
    moreover have "?H \<le> x \<and> x < ht_N t \<and> x \<notin> set (ht_defer t)" if "a \<le> ?H" "x \<in> set (?L a)" for a x
      using d(4,5) [of a x] that n(2) e by (auto split: if_splits)
    moreover have "distinct (?L a)" if "a \<le> ?H" for a using d(3) [OF that] d(3) [of ?H] n(1) by simp
    moreover have "a = b" if ab: "a \<le> ?H" "b \<le> ?H" "x \<in> set (?L a)" "x \<in> set (?L b)" for a b x
      using d(6) [OF ab(1,2)] ab n(1) [OF ab(1)] n(1) [OF ab(2)] by (auto split: if_splits)
    moreover have "?L h = []" if "h < ?H" "h mod 4 \<noteq> 3" for h using d(7) [OF that] that by simp
    moreover have "ht_hentries t1 = ht_hentries t" "ht_ents t1 = ht_ents ta" "ht_free_oentry_head t1 = Some e" "ht_defer t1 = ht_defer t"
      by (simp_all add: t1)
    ultimately show ?thesis using d(8,9) by (intro ht_listsI) (simp_all only: \<open>ht_N ta = ht_N t\<close> simp_thms)
  qed
  moreover have "ht_flags ta ?L"
  proof (rule ht_flagsI)
    show "hentry_bucket_index (ht_ents ta ! x) = of_nat h \<and> listed_flags (hentry_flags (ht_ents ta ! x))"
      if "h < ht_H ta" "x \<in> set (?L h)" for h x using f(1) [of h x] n(1) [of h] that by (auto simp: o')
    show "bit (hentry_flags (ht_ents ta ! x)) 3 \<longleftrightarrow> x \<in> set (?L (ht_H ta))" if "ht_H ta \<le> x" "x < ht_N ta" for x
      using f(2) [of x] that e2f by (simp add: o')
    show "\<exists>h<ht_H ta. x \<in> set (?L h)" if "ht_H ta \<le> x" "x < ht_N ta" "bit (hentry_flags (ht_ents ta ! x)) 0" for x
      using f(3) [of x] that e2f by (fastforce simp: o' split: if_splits)
  qed
  moreover have "ht_keys gk ta ?L"
  proof (rule ht_keys_mono [where L = L])
    show "ht_keys gk ta L" unfolding ta_def
      by (rule ht_keys_upd [OF D(4)]) (use ht_keys_invalid [OF D(4) e(2) inv] in \<open>simp_all add: e2_def\<close>)
    show "bucket_tail ta k < ht_H ta" for k using ht_wf_bucket(2) [OF wf, of k] by (simp add: bucket_tail_def)
  qed simp
  ultimately show "ht_wf gk t1 ?L"
    by (simp add: t1 ta_def ht_wf_def ht_sizes_def ht_flags_def ht_keys_def bucket_entries_def bucket_start_def bucket_tail_def)
qed

lemma ht_wf_defer:
  assumes wf: "ht_wf gk t L" and e: "ht_H t \<le> e" "e < ht_N t" and n: "\<And>a. a \<le> ht_H t \<Longrightarrow> e \<notin> set (L a)" "e \<notin> set (ht_defer t)"
  shows "ht_wf gk (t\<lparr>ht_defer := ht_defer t @ [e]\<rparr>) L"
proof -
  have "ht_lists (t\<lparr>ht_defer := ht_defer t @ [e]\<rparr>) L"
    using ht_wfD(2) [OF wf] e n unfolding ht_lists_def by (auto simp del: seg.simps)
  then show ?thesis using ht_wfD [OF wf]
    by (simp add: ht_wf_def ht_sizes_def ht_flags_def ht_keys_def bucket_entries_def bucket_start_def bucket_tail_def)
qed

lemma sched_delete_loop_wf:
  assumes "ht_wf gk t L" "h < ht_H t" "L h = pre @ rest" "prev = last (h # pre)"
    "ent = (case rest of [] \<Rightarrow> None | e # _ \<Rightarrow> Some e)" "length rest < n"
  shows "\<exists>t' L'. sched_delete_loop n nr dok prev ent count t = Done t' \<and> ht_wf gk t' L' \<and> ht_same t t'"
  using assms
proof (induction rest arbitrary: t L pre prev ent count n)
  case Nil
  then show ?case by (cases n) auto
next
  case (Cons e rest)
  note wf = Cons.prems(1) and h = Cons.prems(2) and l = Cons.prems(3)
  obtain m where n: "n = Suc m" "length rest < m" using Cons.prems(6) by (cases n) auto
  have ent: "ent = Some e" using Cons.prems(5) by simp
  note d = ht_listsD [OF ht_wfD(2) [OF wf]]
  have eH: "ht_H t \<le> e" "e < ht_N t" "e \<notin> set (ht_defer t)" using d(4,5) [of h e] h l by simp_all
  have lf: "listed_flags (hentry_flags (ht_ents t ! e))" using ht_flagsD(1) [OF ht_wfD(3) [OF wf] h, of e] l by simp
  have nx: "hentry_next (ht_ents t ! e) = (case rest of [] \<Rightarrow> None | e # _ \<Rightarrow> Some e)"
    using d(1) [OF h] l by (auto simp: seg_append split: list.splits dest!: seg_hd)
  show ?case
  proof (cases "count = 0 \<or> \<not> bit (hentry_flags (ht_ents t ! e)) 1")
    case True
    have "\<exists>t' L'. sched_delete_loop m nr dok e (hentry_next (ht_ents t ! e)) count t = Done t' \<and> ht_wf gk t' L' \<and> ht_same t t'"
      by (rule Cons.IH [OF wf h, of "pre @ [e]"]) (use l nx n in auto)
    then show ?thesis using True wf eH lf n by (auto simp: ent flag_simps Let_def)
  next
    case False
    define t1 where "t1 = hentry_unlink prev e t"
    let ?L = "L(h := pre @ rest)"
    have m: "bit (hentry_flags (ht_ents t ! e)) 1" "count \<noteq> 0" using False by simp_all
    note u = unlink_wf [OF wf h l m(1), folded Cons.prems(4), folded t1_def]
    have t1: "ht_H t1 = ht_H t" "ht_N t1 = ht_N t" using u(2) by (simp_all add: ht_same_def)
    have en: "e \<notin> set (?L a)" if "a \<le> ht_H t1" for a
      using d(6) [of h a e] d(3) [of h] h l that t1 by auto
    have e1: "ht_H t1 \<le> e" "e < ht_N t1" "e \<notin> set (ht_defer t1)" using eH t1 u(3) by simp_all
    have nx1: "hentry_next (ht_ents t1 ! e) = (case rest of [] \<Rightarrow> None | e # _ \<Rightarrow> Some e)" using u(4) nx by simp
    have go: "\<exists>t' L'. sched_delete_loop m nr dok prev (hentry_next (ht_ents t1 ! e)) (count - 1) t2 = Done t' \<and> ht_wf gk t' L' \<and> ht_same t t'"
      if w: "ht_wf gk t2 L2" "ht_same t1 t2" "L2 h = pre @ rest" for t2 L2
    proof -
      have s: "ht_same t t2" by (rule ht_same_trans [OF u(2) w(2)])
      have "h < ht_H t2" using h s by (simp add: ht_same_def)
      then obtain t' L' where "sched_delete_loop m nr dok prev (hentry_next (ht_ents t1 ! e)) (count - 1) t2 = Done t'"
        "ht_wf gk t' L'" "ht_same t2 t'"
        using Cons.IH [OF w(1) _ w(3) Cons.prems(4) nx1 n(2)] by blast
      then show ?thesis using ht_same_trans [OF s] by blast
    qed
    have step: "sched_delete_loop n nr dok prev ent count t =
      (if nr then sched_delete_loop m nr dok prev (hentry_next (ht_ents t1 ! e)) (count - 1) (vr_htable_oentry_invalidate e t1)
       else sched_delete_loop m nr dok prev (hentry_next (ht_ents t1 ! e)) (count - 1)
         (if dok e then t1\<lparr>ht_defer := ht_defer t1 @ [e]\<rparr> else t1))"
      using m eH u(5) by (simp add: n ent flag_simps Let_def t1_def [symmetric])
    note iv = invalidate_wf [OF u(1) e1(1,2) en e1(3)]
    note df = ht_wf_defer [OF u(1) e1(1,2) en e1(3)]
    have "ht_same t1 (t1\<lparr>ht_defer := ht_defer t1 @ [e]\<rparr>)" by (simp add: ht_same_def)
    moreover have "(?L(ht_H t1 := e # ?L (ht_H t1))) h = pre @ rest" using h t1 by simp
    ultimately show ?thesis unfolding step
      using go [OF iv] go [OF df] go [OF u(1)] by (cases nr; cases "dok e"; simp only: if_True if_False fun_upd_same ht_same_refl)
  qed
qed

lemma ht_N_bound:
  assumes "ht_wf gk t L" "h < ht_H t"
  shows "length (L h) \<le> ht_N t"
proof -
  have "card (set (L h)) \<le> card {..<ht_N t}"
    by (rule card_mono) (use ht_listsD(4) [OF ht_wfD(2) [OF assms(1)], of h] assms(2) in auto)
  then show ?thesis using distinct_card [OF ht_listsD(3) [OF ht_wfD(2) [OF assms(1)], of h]] assms(2) by simp
qed

lemma scheduled_delete_wf:
  assumes wf: "ht_wf gk t L"
  shows "\<exists>t' L'. vr_htable_hentry_scheduled_delete nr dok t = Done t' \<and> ht_wf gk t' L' \<and> ht_same t t'"
proof (cases "ht_work t")
  case Nil
  then show ?thesis using wf by (auto simp: vr_htable_hentry_scheduled_delete_def)
next
  case (Cons d ds)
  note D = ht_wfD(1) [OF wf]
  define dd where "dd = (ht_dtable t ! d)\<lparr>hd_scheduled :=
    (if hd_scheduled (ht_dtable t ! d) = 1 then 0 else hd_scheduled (ht_dtable t ! d)), hd_count := 0\<rparr>"
  define h where "h = unat (hd_index (ht_dtable t ! d))"
  define t1 where "t1 = t\<lparr>ht_dtable := (ht_dtable t)[d := dd], ht_work := ds\<rparr>"
  have w: "x < length (ht_dtable t) \<and> unat (hd_index (ht_dtable t ! x)) < ht_H t" if "x \<in> set (d # ds)" for x
    using D that unfolding ht_sizes_def Cons [symmetric] by blast
  then have h: "h < ht_H t" by (simp add: h_def)
  have wf1: "ht_wf gk t1 L" unfolding t1_def
    by (rule ht_wf_dtable [OF wf]) (use w in \<open>auto simp: dd_def nth_list_update\<close>)
  have same: "ht_same t t1" by (simp add: t1_def ht_same_def)
  have t1_eq: "t\<lparr>ht_work := ds, ht_dtable := (ht_dtable t)[d := dd]\<rparr> = t1" unfolding t1_def
    by (rule vr_htable.equality) simp_all
  have g: "get_hentry_by_index_raw (t\<lparr>ht_work := ds\<rparr>) (hd_index (ht_dtable t ! d)) = Some h"
    using h by (simp add: get_hentry_by_index_raw_def h_def word_less_nat_alt)
  have run: "vr_htable_hentry_scheduled_delete nr dok t =
    sched_delete_loop (Suc (ht_N t)) nr dok h (hentry_next (ht_ents t1 ! h)) (unat (hd_count (ht_dtable t ! d))) t1"
  proof -
    have "ht_dtable (t\<lparr>ht_work := ds\<rparr>) = ht_dtable t" "ht_N t1 = ht_N t" "ht_ents (t\<lparr>ht_work := ds\<rparr>) = ht_ents t" "ht_ents t1 = ht_ents t"
      by (simp_all add: t1_def)
    then show ?thesis
      by (simp only: vr_htable_hentry_scheduled_delete_def Let_def Cons list.case g option.case dd_def [symmetric] t1_eq)
  qed
  have "hentry_next (ht_ents t1 ! h) = (case L h of [] \<Rightarrow> None | e # _ \<Rightarrow> Some e)"
    using ht_listsD(1) [OF ht_wfD(2) [OF wf] h] by (auto simp: t1_def split: list.splits dest!: seg_hd)
  then have "\<exists>t' L'. sched_delete_loop (Suc (ht_N t)) nr dok h (hentry_next (ht_ents t1 ! h)) (unat (hd_count (ht_dtable t ! d))) t1 = Done t' \<and>
      ht_wf gk t' L' \<and> ht_same t1 t'"
    by (intro sched_delete_loop_wf [OF wf1, of h "[]"]) (use h ht_N_bound [OF wf h] in \<open>auto simp: t1_def\<close>)
  then show ?thesis unfolding run using ht_same_trans [OF same] by blast
qed

lemma defer_delete_wf:
  assumes wf: "ht_wf gk t L"
  shows "\<exists>L'. ht_wf gk (vr_htable_hentry_defer_delete t) L' \<and> ht_same t (vr_htable_hentry_defer_delete t)"
proof (cases "ht_defer t")
  case Nil
  then show ?thesis using wf by (auto simp: vr_htable_hentry_defer_delete_def)
next
  case (Cons i rest)
  note d = ht_listsD [OF ht_wfD(2) [OF wf]]
  define t1 where "t1 = t\<lparr>ht_defer := rest\<rparr>"
  have "ht_lists t1 L" using ht_wfD(2) [OF wf] Cons unfolding ht_lists_def t1_def by (auto simp del: seg.simps)
  then have wf1: "ht_wf gk t1 L" using ht_wfD [OF wf]
    by (simp add: t1_def ht_wf_def ht_sizes_def ht_flags_def ht_keys_def bucket_entries_def bucket_start_def bucket_tail_def)
  have i: "ht_H t \<le> i" "i < ht_N t" "i \<notin> set rest" using d(8) d(9) [of i] Cons by simp_all
  have il: "i \<notin> set (L a)" if "a \<le> ht_H t" for a using d(5) [OF that, of i] Cons by auto
  have same: "ht_same t t1" by (simp add: t1_def ht_same_def)
  have t1: "ht_H t1 \<le> i" "i < ht_N t1" "\<And>a. a \<le> ht_H t1 \<Longrightarrow> i \<notin> set (L a)" "i \<notin> set (ht_defer t1)" using i il by (simp_all add: t1_def)
  have "vr_htable_hentry_defer_delete t = vr_htable_oentry_invalidate i t1"
    using get_by_index_raw [OF wf i(2)] Cons by (simp add: vr_htable_hentry_defer_delete_def t1_def)
  then show ?thesis using invalidate_wf [OF wf1 t1] ht_same_trans [OF same] by auto
qed

section \<open>Creating a table\<close>

lemma round_entries_eq:
  assumes "n \<le> 0xFFFFFFFC"
  shows "unat (round_entries n) = 4 * ((unat n + 3) div 4)"
proof -
  have n: "unat n \<le> 0xFFFFFFFC" using assms by (simp add: word_le_nat_alt)
  have "n + 4 - 1 = n + 3" by simp
  moreover have a: "unat (n + 3) = unat n + 3" using n by (simp add: unat_word_ariths)
  moreover have "unat ((n + 3) div 4 * 4) = 4 * ((unat n + 3) div 4)"
    using n by (simp add: unat_word_ariths unat_div a)
  ultimately show ?thesis by (simp only: round_entries_def VR_HENTRIES_PER_BUCKET_def)
qed

lemma seg_upt:
  assumes "\<And>i. a \<le> i \<Longrightarrow> i < n \<Longrightarrow> hentry_next (es ! i) = (if Suc i < n then Some (Suc i) else None)" "n \<le> length es"
  shows "seg es (if a < n then Some a else None) [a..<n] None"
  using assms
proof (induction "n - a" arbitrary: a)
  case (Suc m)
  have "seg es (if Suc a < n then Some (Suc a) else None) [Suc a..<n] None" by (rule Suc.hyps(1)) (use Suc in auto)
  then show ?case using Suc.prems Suc.hyps(2) by (simp add: upt_conv_Cons)
qed simp

lemma init_hentry_simps [simp]:
  "hentry_index (init_hentry e k i x) = of_nat i" "hentry_body (init_hentry e k i x) = hentry_body x"
  "hentry_next (init_hentry e k i x) = (if e \<le> i \<and> Suc i < e + k then Some (Suc i) else hentry_next x)"
  "hentry_flags (init_hentry e k i x) = (if i < e then hentry_flags x else hentry_flags x OR VR_HENTRY_FLAG_IN_FREE_LIST)"
  by (auto simp: init_hentry_def Let_def)

lemma create_wf:
  assumes c: "vr_htable_create_raw zok ht ot dt mem entries oentries esz ksz bsz = Some t"
    and n: "entries \<le> 0xFFFFFFFC" "unat (round_entries entries) + unat oentries < 2 ^ 32"
    and z: "\<And>i. i < unat (round_entries entries) + unat oentries \<Longrightarrow>
      hentry_flags (mem ! i) = 0 \<and> hentry_next (mem ! i) = None \<and> gk (hentry_body (mem ! i)) = None"
  shows "ht_wf gk t (\<lambda>a. if a = ht_H t then [ht_H t..<ht_N t] else [])" (is "ht_wf gk t ?L")
    "ht_H t = 4 * ((unat entries + 3) div 4)" "ht_oentries t = oentries" "ht_index gk t k = None"
proof -
  let ?E = "unat (round_entries entries)"
  have e0: "entries \<noteq> 0" using c by (auto simp: vr_htable_create_raw_def)
  have t: "ht_hentries t = round_entries entries" "ht_oentries t = oentries" "ht_bucket_size t = 4" "ht_work t = []" "ht_defer t = []"
    "ht_free_oentry_head t = (if oentries = 0 then None else Some ?E)"
    "oentries \<noteq> 0 \<Longrightarrow> length (ht_dtable t) = ?E div 4"
    "ht_ents t = map (\<lambda>i. init_hentry ?E (unat oentries) i (mem ! i)) [0..<?E + unat oentries]"
    using c by (auto simp: vr_htable_create_raw_def Let_def VR_HENTRIES_PER_BUCKET_def unat_div split: if_splits option.splits)
  then have N: "ht_N t = ?E + unat oentries" by simp
  have it: "ht_ents t ! i = init_hentry ?E (unat oentries) i (mem ! i)" if "i < ?E + unat oentries" for i
    using that by (simp add: t(8))
  have "unat entries \<noteq> 0" using e0 by (simp add: unat_eq_zero)
  then have E: "0 < ?E" "4 dvd ?E" using round_entries_eq [OF n(1)] by simp_all
  have "ht_sizes t" unfolding ht_sizes_def using E n(2) t(1-5,7) N it by simp
  moreover have "ht_lists t ?L"
  proof (rule ht_listsI)
    show "seg (ht_ents t) (Some h) (h # ?L h) None" if "h < ht_H t" for h
      using that N z [of h] it [of h] by (simp add: t(1))
    have "seg (ht_ents t) (if ?E < ht_N t then Some ?E else None) [?E..<ht_N t] None"
      by (rule seg_upt) (use N z it in auto)
    then show "seg (ht_ents t) (ht_free_oentry_head t) (?L (ht_H t)) None"
      using N unat_eq_zero [of oentries] by (simp add: t(1,6) split: if_splits)
  qed (auto simp: t(5) split: if_splits)
  moreover have "ht_flags t ?L"
    by (rule ht_flagsI) (use it z N t(1) in \<open>auto simp: flag_simps split: if_splits\<close>)
  moreover have nk: "gk (hentry_body (ht_ents t ! i)) = None" if "i < ht_N t" for i using that N it [of i] z [of i] by simp
  then have "ht_keys gk t ?L" by (simp add: ht_keys_def)
  ultimately show "ht_wf gk t ?L" by (simp add: ht_wf_def)
  show "ht_H t = 4 * ((unat entries + 3) div 4)" "ht_oentries t = oentries" using t(1,2) round_entries_eq [OF n(1)] by simp_all
  show "ht_index gk t k = None" using nk by (simp add: ht_index_None)
qed

end
