(* ===== verification/VR_Htable_Map.thy ===== *)
theory VR_Htable_Map
  imports VR_Htable_Del
begin

text \<open>
  The hash table as its clients see it: a map from keys to entries. The locale \<open>entry_table\<close> is
  the contract between a client that stores records under a key and the table. The interpretation
  shows that \<open>vr_htable.c\<close> meets it. Inside the locale, what a client gets when it inserts, changes
  and removes records is proved once.
\<close>

section \<open>The contract\<close>

locale entry_table =
  fixes inv :: "'t \<Rightarrow> bool"
    and index :: "'t \<Rightarrow> 'k \<Rightarrow> nat option"
    and body :: "'t \<Rightarrow> nat \<Rightarrow> 'p"
    and keyof :: "'p \<Rightarrow> 'k option"
    and find :: "'t \<Rightarrow> 'k \<Rightarrow> nat option exec"
    and take_entry :: "'t \<Rightarrow> 'k \<Rightarrow> (nat option \<times> 't) exec"
    and reserved :: "'t \<Rightarrow> 'k \<Rightarrow> nat \<Rightarrow> bool"
    and store :: "nat \<Rightarrow> ('p \<Rightarrow> 'p) \<Rightarrow> 't \<Rightarrow> 't"
    and release :: "nat \<Rightarrow> 't \<Rightarrow> 't exec"
  assumes find_index: "inv t \<Longrightarrow> find t k = Done (index t k)"
    and index_key: "inv t \<Longrightarrow> index t k = Some i \<Longrightarrow> keyof (body t i) = Some k"
    and take_done: "inv t \<Longrightarrow> \<exists>r t'. take_entry t k = Done (r, t') \<and> index t' = index t \<and> body t' = body t \<and> inv t' \<and>
          (\<forall>i. r = Some i \<longrightarrow> reserved t' k i)"
    and store_reserved: "inv t \<Longrightarrow> reserved t k i \<Longrightarrow> index t k = None \<Longrightarrow> keyof (f (body t i)) = Some k \<Longrightarrow>
          inv (store i f t) \<and> index (store i f t) = (index t)(k := Some i)"
    and store_update: "inv t \<Longrightarrow> index t k = Some i \<Longrightarrow> keyof (f (body t i)) = Some k \<Longrightarrow>
          inv (store i f t) \<and> index (store i f t) = index t"
    and store_clear: "inv t \<Longrightarrow> index t k = Some i \<Longrightarrow> keyof (f (body t i)) = None \<Longrightarrow>
          inv (store i f t) \<and> index (store i f t) = (index t)(k := None)"
    and store_body: "inv t \<Longrightarrow> index t k = Some i \<or> reserved t k i \<Longrightarrow> body (store i f t) = (body t)(i := f (body t i))"
    and release_done: "inv t \<Longrightarrow> index t k = Some i \<Longrightarrow> keyof (f (body t i)) = None \<Longrightarrow>
          \<exists>t'. release i (store i f t) = Done t' \<and> inv t' \<and> index t' = index (store i f t) \<and> body t' = body (store i f t)"
begin

text \<open>Writing a record for a key: its entry if it has one, a new one otherwise.\<close>

definition upsert :: "'t \<Rightarrow> 'k \<Rightarrow> ('p \<Rightarrow> 'p) \<Rightarrow> (bool \<times> 't) exec" where
  "upsert t k f = exec_bind (find t k) (\<lambda>r.
     case r of Some i \<Rightarrow> Done (True, store i f t)
     | None \<Rightarrow> exec_bind (take_entry t k) (\<lambda>(r, t). case r of None \<Rightarrow> Done (False, t) | Some i \<Rightarrow> Done (True, store i f t)))"

definition remove :: "'t \<Rightarrow> 'k \<Rightarrow> ('p \<Rightarrow> 'p) \<Rightarrow> (bool \<times> 't) exec" where
  "remove t k f = exec_bind (find t k) (\<lambda>r.
     case r of None \<Rightarrow> Done (False, t) | Some i \<Rightarrow> exec_bind (release i (store i f t)) (\<lambda>t. Done (True, t)))"

text \<open>The records by their key.\<close>

definition content :: "'t \<Rightarrow> 'k \<Rightarrow> 'p option" where
  "content t k = map_option (body t) (index t k)"

lemma content_store:
  assumes "inv t" "index t k = Some i \<or> reserved t k i \<and> index t k = None" "keyof (f (body t i)) = Some k"
  shows "inv (store i f t) \<and> content (store i f t) = (content t)(k \<mapsto> f (body t i)) \<and> index (store i f t) k = Some i"
proof -
  have s: "inv (store i f t)" "index (store i f t) = (index t)(k \<mapsto> i)"
    using assms store_reserved store_update by (auto simp: map_upd_triv)
  have b: "body (store i f t) = (body t)(i := f (body t i))" using assms store_body by blast
  have "j \<noteq> i" if "index t k' = Some j" "k' \<noteq> k" for j k'
  proof
    assume "j = i"
    then have "index (store i f t) k' = Some i" using s(2) that by simp
    then have "keyof (body (store i f t) i) = Some k'" by (rule index_key [OF s(1)])
    then show False using assms(3) b that(2) by simp
  qed
  then have "content (store i f t) k' = ((content t)(k \<mapsto> f (body t i))) k'" for k'
    using s(2) b by (cases "k' = k"; cases "index t k'") (auto simp: content_def)
  then show ?thesis using s by auto
qed

lemma upsert_spec:
  assumes inv: "inv t" and f: "\<And>p. keyof (f p) = Some k"
  shows "\<exists>ok t'. upsert t k f = Done (ok, t') \<and> inv t' \<and>
    (if ok then \<exists>p. content t' = (content t)(k \<mapsto> f p) else content t' = content t)"
proof (cases "index t k")
  case (Some i)
  have "keyof (f (body t i)) = Some k" by (rule f)
  then have "inv (store i f t) \<and> content (store i f t) = (content t)(k \<mapsto> f (body t i))"
    using content_store [OF inv, of k i f] Some by blast
  then show ?thesis using Some find_index [OF inv, of k] by (auto simp: upsert_def)
next
  case None
  obtain r t' where r: "take_entry t k = Done (r, t')" "index t' = index t" "body t' = body t" "inv t'" "\<forall>i. r = Some i \<longrightarrow> reserved t' k i"
    using take_done [OF inv, of k] by blast
  have c: "content t' = content t" by (rule ext) (simp add: content_def r(2,3))
  have "inv (store i f t') \<and> (\<exists>p. content (store i f t') = (content t)(k \<mapsto> f p))" if "r = Some i" for i
    using content_store [OF r(4), of k i f] None f r that c by auto
  then show ?thesis using None find_index [OF inv, of k] r c by (cases r) (auto simp: upsert_def)
qed

lemma remove_spec:
  assumes inv: "inv t" and f: "\<And>p. keyof (f p) = None"
  shows "\<exists>t'. remove t k f = Done (content t k \<noteq> None, t') \<and> inv t' \<and> content t' = (content t)(k := None)"
proof (cases "index t k")
  case None
  then have "(content t)(k := None) = content t" by (auto simp: content_def)
  then show ?thesis using None find_index [OF inv, of k] inv by (auto simp: remove_def content_def)
next
  case (Some i)
  have g: "keyof (f (body t i)) = None" by (rule f)
  have s: "index (store i f t) = (index t)(k := None)" "inv (store i f t)" using store_clear [OF inv Some, of f] g by auto
  have b: "body (store i f t) = (body t)(i := f (body t i))" using store_body inv Some by blast
  obtain t' where t': "release i (store i f t) = Done t'" "inv t'" "index t' = index (store i f t)" "body t' = body (store i f t)"
    using release_done [OF inv Some, of f] g by blast
  have "j \<noteq> i" if "index t k' = Some j" "k' \<noteq> k" for j k'
    using index_key [OF inv Some] index_key [OF inv that(1)] that(2) by auto
  then have "content t' k' = ((content t)(k := None)) k'" for k'
    using s b t' by (cases "k' = k"; cases "index t k'") (auto simp: content_def)
  then show ?thesis using Some find_index [OF inv, of k] t' by (auto simp: remove_def content_def)
qed

end

section \<open>The hash table meets the contract\<close>

definition ht_body :: "'p vr_htable \<Rightarrow> nat \<Rightarrow> 'p" where
  "ht_body t i = hentry_body (ht_ents t ! i)"

text \<open>An entry that was taken for a key, and not written yet.\<close>

definition ht_reserved :: "('p \<Rightarrow> u8 list option) \<Rightarrow> 'p vr_htable \<Rightarrow> u8 list \<Rightarrow> nat \<Rightarrow> bool" where
  "ht_reserved gk t k i \<longleftrightarrow> (\<exists>L. ht_wf gk t L \<and> i < ht_N t \<and> gk (ht_body t i) = None \<and>
     bit (hentry_flags (ht_ents t ! i)) 0 \<and> i \<in> set (bucket_entries t k @ L (bucket_tail t k)))"

lemma ht_index_entry:
  assumes wf: "ht_wf gk t L" and x: "ht_index gk t k = Some i"
  shows "i < ht_N t" "gk (ht_body t i) = Some k" "bit (hentry_flags (ht_ents t ! i)) 0"
    "i \<in> set (bucket_entries t k @ L (bucket_tail t k))"
    "\<And>j. j < ht_N t \<Longrightarrow> gk (ht_body t j) = Some k \<Longrightarrow> j = i"
proof -
  show i: "i < ht_N t" "gk (ht_body t i) = Some k" using x ht_index_Some [OF wf] by (simp_all add: ht_body_def)
  show "bit (hentry_flags (ht_ents t ! i)) 0" "i \<in> set (bucket_entries t k @ L (bucket_tail t k))"
    "\<And>j. j < ht_N t \<Longrightarrow> gk (ht_body t j) = Some k \<Longrightarrow> j = i"
    using ht_wfD(4) [OF wf] i unfolding ht_keys_def ht_body_def by blast+
qed

lemma ht_set_body_body: "i < ht_N t \<Longrightarrow> ht_body (ht_set_body i f t) = (ht_body t)(i := f (ht_body t i))"
  by (auto simp: ht_body_def ht_set_body_def fun_eq_iff nth_list_update)

lemma ht_take:
  assumes "ht_inv gk t"
  shows "\<exists>r t'. vr_htable_find_free_hentry t k = Done (r, t') \<and> ht_index gk t' = ht_index gk t \<and> ht_body t' = ht_body t \<and>
    ht_inv gk t' \<and> (\<forall>i. r = Some i \<longrightarrow> ht_reserved gk t' k i)"
proof -
  obtain L where wf: "ht_wf gk t L" using assms by (auto simp: ht_inv_def)
  obtain r t' where r: "vr_htable_find_free_hentry t k = Done (r, t')" "ht_N t' = ht_N t"
    "\<And>j. hentry_body (ht_ents t' ! j) = hentry_body (ht_ents t ! j)" "r = None \<Longrightarrow> t' = t"
    "\<And>i. r = Some i \<Longrightarrow> \<exists>L'. ht_wf gk t' L' \<and> i < ht_N t \<and> \<not> hentry_valid (ht_ents t ! i) \<and>
       bit (hentry_flags (ht_ents t' ! i)) 0 \<and> i \<in> set (bucket_entries t' k @ L' (bucket_tail t' k))"
    by (rule find_free_spec [OF wf, of k]) blast
  have "gk (hentry_body (ht_ents t ! i)) = None" if "i < ht_N t" "\<not> hentry_valid (ht_ents t ! i)" for i
    using ht_keys_invalid [OF ht_wfD(4) [OF wf]] that by (simp add: hentry_valid_bit)
  then have "ht_reserved gk t' k i" if "r = Some i" for i
    using r(5) [OF that] unfolding ht_reserved_def ht_body_def r(2,3) by blast
  moreover have "ht_inv gk t'"
    using r(4,5) assms by (cases r) (auto simp: ht_inv_def)
  moreover have "ht_index gk t' = ht_index gk t" by (rule ht_index_cong) (simp_all add: r(2,3))
  ultimately show ?thesis using r(1,3) by (auto simp: ht_body_def fun_eq_iff)
qed

lemma ht_store_reserved:
  assumes "ht_reserved gk t k i" "ht_index gk t k = None" "gk (f (ht_body t i)) = Some k"
  shows "ht_inv gk (ht_set_body i f t) \<and> ht_index gk (ht_set_body i f t) = (ht_index gk t)(k := Some i)"
proof -
  obtain L where L: "ht_wf gk t L" "i < ht_N t" "gk (ht_body t i) = None" "bit (hentry_flags (ht_ents t ! i)) 0"
    "i \<in> set (bucket_entries t k @ L (bucket_tail t k))" using assms(1) unfolding ht_reserved_def by blast
  have n: "ht_index gk t k' \<noteq> Some i" for k' using ht_index_Some [OF L(1), of k' i] L(3) by (simp add: ht_body_def)
  note s = ht_wf_set_body [OF L(1,2,4), of f, folded ht_body_def]
  have k: "i \<in> set (bucket_entries t k' @ L (bucket_tail t k')) \<and> (\<forall>j<ht_N t. gk (ht_body t j) = Some k' \<longrightarrow> j = i)"
    if "gk (f (ht_body t i)) = Some k'" for k'
    using that assms(2,3) L(5) by (auto simp: ht_index_None ht_body_def)
  show ?thesis using s [OF k] assms(3) n by (auto simp: ht_inv_def fun_eq_iff)
qed

lemma ht_store_update:
  assumes "ht_inv gk t" "ht_index gk t k = Some i" "gk (f (ht_body t i)) = Some k"
  shows "ht_inv gk (ht_set_body i f t) \<and> ht_index gk (ht_set_body i f t) = ht_index gk t"
proof -
  obtain L where wf: "ht_wf gk t L" using assms(1) by (auto simp: ht_inv_def)
  note e = ht_index_entry [OF wf assms(2)]
  note s = ht_wf_set_body [OF wf e(1,3), of f, folded ht_body_def]
  have k: "i \<in> set (bucket_entries t k' @ L (bucket_tail t k')) \<and> (\<forall>j<ht_N t. gk (ht_body t j) = Some k' \<longrightarrow> j = i)"
    if "gk (f (ht_body t i)) = Some k'" for k' using that assms(3) e(4,5) by auto
  have "ht_index gk t k' \<noteq> Some i" if "k' \<noteq> k" for k' using ht_index_Some [OF wf, of k' i] e(2) that by (simp add: ht_body_def)
  then have "ht_index gk (ht_set_body i f t) k' = ht_index gk t k'" for k' using s(2) [OF k, of k'] assms(2,3) by auto
  then show ?thesis using s(1) [OF k] by (auto simp: ht_inv_def)
qed

lemma ht_store_clear:
  assumes "ht_wf gk t L" "ht_index gk t k = Some i" "gk (f (ht_body t i)) = None"
  shows "ht_wf gk (ht_set_body i f t) L" "ht_index gk (ht_set_body i f t) = (ht_index gk t)(k := None)"
proof -
  note e = ht_index_entry [OF assms(1,2)]
  note s = ht_wf_set_body [OF assms(1) e(1,3), of f, folded ht_body_def]
  have k: "i \<in> set (bucket_entries t k' @ L (bucket_tail t k')) \<and> (\<forall>j<ht_N t. gk (ht_body t j) = Some k' \<longrightarrow> j = i)"
    if "gk (f (ht_body t i)) = Some k'" for k' using that assms(3) by simp
  show "ht_wf gk (ht_set_body i f t) L" by (rule s(1) [OF k])
  have "ht_index gk t k' \<noteq> Some i" if "k' \<noteq> k" for k' using ht_index_Some [OF assms(1), of k' i] e(2) that by (simp add: ht_body_def)
  then have "ht_index gk (ht_set_body i f t) k' = ((ht_index gk t)(k := None)) k'" for k'
    using s(2) [OF k, of k'] assms(2,3) by auto
  then show "ht_index gk (ht_set_body i f t) = (ht_index gk t)(k := None)" by auto
qed

lemma ht_release:
  assumes "ht_inv gk t" "ht_index gk t k = Some i" "gk (f (ht_body t i)) = None"
  shows "\<exists>t'. vr_htable_release_hentry nr sok i (ht_set_body i f t) = Done t' \<and> ht_inv gk t' \<and>
    ht_index gk t' = ht_index gk (ht_set_body i f t) \<and> ht_body t' = ht_body (ht_set_body i f t)"
proof -
  obtain L where wf: "ht_wf gk t L" using assms(1) by (auto simp: ht_inv_def)
  note i = ht_index_entry(1) [OF wf assms(2)]
  have "gk (hentry_body (ht_ents (ht_set_body i f t) ! i)) = None" "i < ht_N (ht_set_body i f t)"
    using fun_cong [OF ht_set_body_body [OF i, of f], of i] assms(3) i by (simp_all add: ht_body_def ht_set_body_def)
  moreover have "ht_wf gk (ht_set_body i f t) L" using ht_store_clear(1) [OF wf assms(2), of f] assms(3) by simp
  ultimately obtain t' where "vr_htable_release_hentry nr sok i (ht_set_body i f t) = Done t'" "ht_wf gk t' L" "ht_same (ht_set_body i f t) t'"
    using release_wf [of gk "ht_set_body i f t" L i nr sok] by blast
  then
  show ?thesis using ht_same_index [of "ht_set_body i f t" t' gk]
    by (intro exI [of _ t'] conjI) (auto simp: ht_inv_def ht_same_def ht_body_def)
qed

interpretation htm: entry_table "ht_inv gk" "ht_index gk" ht_body gk "vr_htable_find_hentry gk" vr_htable_find_free_hentry
  "ht_reserved gk" ht_set_body "vr_htable_release_hentry nr sok" for gk nr sok
proof
  fix t :: "'a vr_htable" and k :: "u8 list" and i :: nat and f :: "'a \<Rightarrow> 'a"
  show "ht_inv gk t \<Longrightarrow> vr_htable_find_hentry gk t k = Done (ht_index gk t k)" by (auto simp: ht_inv_def find_hentry_index)
  show "ht_inv gk t \<Longrightarrow> ht_index gk t k = Some i \<Longrightarrow> gk (ht_body t i) = Some k"
    using ht_index_entry(2) by (auto simp: ht_inv_def)
  show "ht_inv gk t \<Longrightarrow> ht_index gk t k = Some i \<or> ht_reserved gk t k i \<Longrightarrow>
    ht_body (ht_set_body i f t) = (ht_body t)(i := f (ht_body t i))"
    using ht_index_entry(1) ht_set_body_body unfolding ht_inv_def ht_reserved_def by metis
  show "ht_inv gk t \<Longrightarrow> ht_index gk t k = Some i \<Longrightarrow> gk (f (ht_body t i)) = None \<Longrightarrow>
    ht_inv gk (ht_set_body i f t) \<and> ht_index gk (ht_set_body i f t) = (ht_index gk t)(k := None)"
    using ht_store_clear unfolding ht_inv_def by blast
qed (intro ht_take ht_store_reserved ht_store_update ht_release; assumption)+

section \<open>The tables a client can reach\<close>

text \<open>
  The memory of a new table is zeroed, and no record there has a key. A client looks a key up before
  it takes an entry for it, and clears the record before it releases the entry. The scheduled and
  the deferred work run at any time, with any outcome of their allocations.
\<close>

inductive ht_reach :: "('p \<Rightarrow> u8 list option) \<Rightarrow> 'p vr_htable \<Rightarrow> bool" for gk where
  ht_created: "vr_htable_create_raw zok ht ot dt mem entries oentries esz ksz bsz = Some t \<Longrightarrow>
    entries \<le> 0xFFFFFFFC \<Longrightarrow> unat (round_entries entries) + unat oentries < 2 ^ 32 \<Longrightarrow>
    (\<And>i. i < unat (round_entries entries) + unat oentries \<Longrightarrow>
      hentry_flags (mem ! i) = 0 \<and> hentry_next (mem ! i) = None \<and> gk (hentry_body (mem ! i)) = None) \<Longrightarrow> ht_reach gk t"
| ht_inserted: "ht_reach gk t \<Longrightarrow> vr_htable_find_hentry gk t k = Done None \<Longrightarrow> vr_htable_find_free_hentry t k = Done (Some i, t') \<Longrightarrow>
    gk (f (ht_body t' i)) = Some k \<Longrightarrow> ht_reach gk (ht_set_body i f t')"
| ht_updated: "ht_reach gk t \<Longrightarrow> vr_htable_find_hentry gk t k = Done (Some i) \<Longrightarrow> gk (f (ht_body t i)) = Some k \<Longrightarrow>
    ht_reach gk (ht_set_body i f t)"
| ht_removed: "ht_reach gk t \<Longrightarrow> vr_htable_find_hentry gk t k = Done (Some i) \<Longrightarrow> gk (f (ht_body t i)) = None \<Longrightarrow>
    vr_htable_release_hentry nr sok i (ht_set_body i f t) = Done t' \<Longrightarrow> ht_reach gk t'"
| ht_scheduled: "ht_reach gk t \<Longrightarrow> vr_htable_hentry_scheduled_delete nr dok t = Done t' \<Longrightarrow> ht_reach gk t'"
| ht_deferred: "ht_reach gk t \<Longrightarrow> ht_reach gk (vr_htable_hentry_defer_delete t)"

lemma ht_inv_find: "ht_inv gk t \<Longrightarrow> vr_htable_find_hentry gk t k = Done (ht_index gk t k)"
  by (rule htm.find_index)

lemma ht_inv_scheduled: "ht_inv gk t \<Longrightarrow> \<exists>t'. vr_htable_hentry_scheduled_delete nr dok t = Done t' \<and> ht_inv gk t' \<and> ht_same t t'"
  using scheduled_delete_wf unfolding ht_inv_def by blast

lemma ht_inv_deferred: "ht_inv gk t \<Longrightarrow> ht_inv gk (vr_htable_hentry_defer_delete t) \<and> ht_same t (vr_htable_hentry_defer_delete t)"
  using defer_delete_wf unfolding ht_inv_def by blast

lemma ht_reach_inv: "ht_reach gk t \<Longrightarrow> ht_inv gk t"
proof (induction rule: ht_reach.induct)
  case (ht_created zok ht ot dt mem entries oentries esz ksz bsz t)
  then show ?case using create_wf(1) unfolding ht_inv_def by blast
next
  case (ht_inserted t k i t' f)
  then have "ht_index gk t k = None" by (simp add: ht_inv_find)
  then show ?case using ht_take [of gk t k] ht_inserted ht_store_reserved [of gk t' k i f] by auto
next
  case (ht_updated t k i f)
  then show ?case using ht_store_update [of gk t k i f] by (simp add: ht_inv_find)
next
  case (ht_removed t k i f nr sok t')
  then show ?case using ht_release [of gk t k i f nr sok] by (auto simp: ht_inv_find)
next
  case (ht_scheduled t nr dok t')
  then show ?case using ht_inv_scheduled [of gk t nr dok] by auto
qed (simp add: ht_inv_deferred)

section \<open>Properties\<close>

text \<open>
  A table of four main and two overflow entries. A record is its key.
\<close>

definition ex_btable :: vr_btable where
  "ex_btable = \<lparr>vb_entries = 4, vb_esize = 64, vb_partitions = 1, vb_flags = 0, vb_alloc_limit = 4194304,
     vb_alloc_limit_log = 22, vb_alloc_limit_mask = 65535, vb_mem = [1], vb_table_info = [\<lparr>vb_offset = 0, vb_mem_size = 256\<rparr>]\<rparr>"

definition ex_hentry :: "u8 list option vr_hentry" where
  "ex_hentry = \<lparr>hentry_next = None, hentry_index = 0, hentry_bucket_index = 0, hentry_next_index = 0, hentry_flags = 0, hentry_body = None\<rparr>"

definition ex_htable :: "u8 list option vr_htable" where
  "ex_htable = the (vr_htable_create_raw True (\<lambda>_. Some ex_btable) (\<lambda>_. Some ex_btable) (\<lambda>_. Some ex_btable)
     (replicate 6 ex_hentry) 3 2 64 8 0)"

abbreviation ex_key :: "u8 list" where
  "ex_key \<equiv> [1, 2, 3, 4, 5, 6, 7, 8]"

lemma ex_round: "round_entries 3 = 4"
  by (simp add: round_entries_def VR_HENTRIES_PER_BUCKET_def)

lemma ex_htable_reach: "ht_reach id ex_htable"
proof (rule ht_created)
  show "vr_htable_create_raw True (\<lambda>_. Some ex_btable) (\<lambda>_. Some ex_btable) (\<lambda>_. Some ex_btable)
     (replicate 6 ex_hentry) 3 2 64 8 0 = Some ex_htable"
    by (simp add: ex_htable_def vr_htable_create_raw_def Let_def)
qed (simp_all add: ex_round nth_replicate ex_hentry_def)

lemma ex_htable_ents: "ht_ents ex_htable = map (\<lambda>i. init_hentry 4 2 i ex_hentry) [0..<6]"
  by (simp add: ex_htable_def vr_htable_create_raw_def ex_round Let_def nth_replicate upt_rec)

lemma ex_htable_sizes: "ht_hentries ex_htable = 4" "ht_bucket_size ex_htable = 4"
  by (simp_all add: ex_htable_def vr_htable_create_raw_def ex_round VR_HENTRIES_PER_BUCKET_def Let_def)

lemma ex_htable_zero: "ht_N ex_htable = 6" "i < 6 \<Longrightarrow> ht_body ex_htable i = None"
  "i < 6 \<Longrightarrow> \<not> hentry_valid (ht_ents ex_htable ! i)"
  by (simp_all add: ex_htable_ents ht_body_def ex_hentry_def hentry_valid_bit bit_or_iff)

lemmas ex_htable_fields = ex_htable_sizes ex_htable_zero

lemma ex_bucket: "bucket_entries ex_htable k = [0, 1, 2, 3]"
proof -
  have "bucket_tail ex_htable k = 3" by (simp add: bucket_tail_def ex_htable_fields)
  then show ?thesis using bucket_entries_eq(1) [of ex_htable k] by (simp add: ex_htable_fields upt_rec)
qed

lemma ex_find: "vr_htable_find_hentry id ex_htable k = Done None"
  using ht_inv_find [OF ht_reach_inv [OF ex_htable_reach], of k]
  by (simp add: ht_index_None ex_htable_fields ht_body_def [symmetric])

definition ex_taken :: "u8 list option vr_htable" where
  "ex_taken = snd (the_elem {r. vr_htable_find_free_hentry ex_htable ex_key = Done r})"

lemma ex_take: "vr_htable_find_free_hentry ex_htable ex_key = Done (Some 0, ex_taken)"
proof -
  obtain r where "vr_htable_find_free_hentry ex_htable ex_key = Done (Some 0, r)"
    using ex_htable_fields by (simp add: vr_htable_find_free_hentry_def ex_bucket)
  then show ?thesis by (simp add: ex_taken_def)
qed

text \<open>C20: In every table that a client can reach, a record written to a new entry is found under its
  key afterwards, and the lookup of every other key and the record it finds stay the same.\<close>

theorem htable_lookup_after_insert:
  assumes "ht_reach gk t" "vr_htable_find_hentry gk t k = Done None" "vr_htable_find_free_hentry t k = Done (Some i, t')"
    "gk (f (ht_body t i)) = Some k"
  shows "vr_htable_find_hentry gk (ht_set_body i f t') k = Done (Some i) \<and> ht_body (ht_set_body i f t') i = f (ht_body t i) \<and>
    (\<forall>k'. k' \<noteq> k \<longrightarrow> vr_htable_find_hentry gk (ht_set_body i f t') k' = vr_htable_find_hentry gk t k') \<and>
    (\<forall>j. j \<noteq> i \<longrightarrow> ht_body (ht_set_body i f t') j = ht_body t j)"
proof -
  have inv: "ht_inv gk t" using assms(1) by (rule ht_reach_inv)
  then have n: "ht_index gk t k = None" using assms(2) by (simp add: ht_inv_find)
  have t': "ht_index gk t' = ht_index gk t" "ht_body t' = ht_body t" "ht_inv gk t'" "ht_reserved gk t' k i"
    using ht_take [OF inv, of k] assms(3) by auto
  have s: "ht_inv gk (ht_set_body i f t')" "ht_index gk (ht_set_body i f t') = (ht_index gk t)(k := Some i)"
    using ht_store_reserved [OF t'(4), of f] n assms(4) t' by simp_all
  have "ht_body (ht_set_body i f t') = (ht_body t)(i := f (ht_body t i))"
    using htm.store_body [OF t'(3), of k i f] t' by simp
  then show ?thesis using s inv by (simp add: ht_inv_find)
qed

theorem htable_lookup_after_insert_witness:
  "vr_htable_find_hentry id (ht_set_body 0 (\<lambda>_. Some ex_key) ex_taken) ex_key = Done (Some 0)"
  using htable_lookup_after_insert [OF ex_htable_reach ex_find ex_take, of "\<lambda>_. Some ex_key"] by simp

text \<open>What the release of a valid entry does to the entry and to the counter.\<close>

lemma release_effect:
  assumes v: "hentry_valid (ht_ents t ! i)" and i: "i < ht_N t" and r: "vr_htable_release_hentry nr sok i t = Done t'"
  shows "\<not> hentry_valid (ht_ents t' ! i)" "ht_used_entries t' = ht_used_entries t - 1"
    "\<not> hentry_index (ht_ents t ! i) < ht_hentries t \<Longrightarrow> \<not> nr \<Longrightarrow> hentry_flags (ht_ents t' ! i) AND VR_HENTRY_FLAG_DELETE_MARKED \<noteq> 0"
  using r v i unfolding vr_htable_release_hentry_def Let_def
  by (auto simp: flag_simps split: if_splits option.splits)

lemma release_main_reuse:
  assumes "ht_wf gk t' L" "i \<in> set (bucket_entries t' k)" "\<not> hentry_valid (ht_ents t' ! i)"
  shows "\<exists>j t2. vr_htable_find_free_hentry t' k = Done (Some j, t2)"
proof -
  obtain r t2 where r: "vr_htable_find_free_hentry t' k = Done (r, t2)"
    "r = None \<Longrightarrow> t2 = t' \<and> (\<forall>i\<in>set (bucket_entries t' k). hentry_valid (ht_ents t' ! i)) \<and> (ht_oentries t' = 0 \<or> L (ht_H t') = [])"
    by (rule find_free_spec [OF assms(1), of k]) blast
  then show ?thesis using assms(2,3) by (cases r) auto
qed

text \<open>C21: In every table that a client can reach, a key whose record was cleared and whose entry was
  released is not found any more, the release does not go wrong, and other keys are not affected. The
  entry is no longer valid and the table counts one used entry less. If it is an entry of the main
  table, the next search for room for the key finds some; an overflow entry is marked for the
  background deletion, unless the router is not ready.\<close>

theorem htable_lookup_after_release:
  assumes "ht_reach gk t" "vr_htable_find_hentry gk t k = Done (Some i)" "gk (f (ht_body t i)) = None"
  shows "\<exists>t'. vr_htable_release_hentry nr sok i (ht_set_body i f t) = Done t' \<and> vr_htable_find_hentry gk t' k = Done None \<and>
    (\<forall>k'. k' \<noteq> k \<longrightarrow> vr_htable_find_hentry gk t' k' = vr_htable_find_hentry gk t k') \<and>
    \<not> hentry_valid (ht_ents t' ! i) \<and> ht_used_entries t' = ht_used_entries t - 1 \<and>
    (if i < unat (ht_hentries t) then \<exists>j t2. vr_htable_find_free_hentry t' k = Done (Some j, t2)
     else nr \<or> hentry_flags (ht_ents t' ! i) AND VR_HENTRY_FLAG_DELETE_MARKED \<noteq> 0)"
proof -
  have inv: "ht_inv gk t" using assms(1) by (rule ht_reach_inv)
  then have x: "ht_index gk t k = Some i" using assms(2) by (simp add: ht_inv_find)
  obtain L where wf: "ht_wf gk t L" using inv by (auto simp: ht_inv_def)
  note e = ht_index_entry [OF wf x]
  let ?t = "ht_set_body i f t"
  have wf1: "ht_wf gk ?t L" and ix: "ht_index gk ?t = (ht_index gk t)(k := None)"
    using ht_store_clear [OF wf x, of f] assms(3) by simp_all
  have "gk (hentry_body (ht_ents ?t ! i)) = None" "i < ht_N ?t"
    using fun_cong [OF ht_set_body_body [OF e(1), of f], of i] assms(3) e(1) by (simp_all add: ht_body_def ht_set_body_def)
  with release_wf [OF wf1, of i nr sok] obtain t'
    where t': "vr_htable_release_hentry nr sok i ?t = Done t'" "ht_wf gk t' L" "ht_same ?t t'" by blast
  have ei: "ht_ents ?t ! i = (ht_ents t ! i)\<lparr>hentry_body := f (ht_body t i)\<rparr>" using e(1) by (simp add: ht_set_body_def ht_body_def)
  have v: "hentry_valid (ht_ents ?t ! i)" using e(3) by (simp add: ei hentry_valid_bit)
  note eff = release_effect [OF v \<open>i < ht_N ?t\<close> t'(1)]
  have hi: "hentry_index (ht_ents t ! i) = of_nat i" "ht_N t < 2 ^ 32" using ht_wfD(1) [OF wf] e(1) by (simp_all add: ht_sizes_def)
  then have lt: "hentry_index (ht_ents t ! i) < ht_hentries t \<longleftrightarrow> i < unat (ht_hentries t)"
    using e(1) by (simp add: word_less_nat_alt unat_of_nat take_bit_nat_eq_self)
  have be: "bucket_entries t' k = bucket_entries t k" "ht_H t' = ht_H t" "bucket_tail t' k = bucket_tail t k"
    using t'(3) ht_wfD(1) [OF wf] ht_wfD(1) [OF t'(2)]
    by (simp_all add: ht_same_def bucket_entries_def bucket_start_def bucket_tail_def ht_sizes_def ht_set_body_def)
  have room: "\<exists>j t2. vr_htable_find_free_hentry t' k = Done (Some j, t2)" if m: "i < ht_H t"
  proof (rule release_main_reuse [OF t'(2) _ eff(1)])
    have "bucket_tail t k < ht_H t" by (rule ht_wf_bucket(2) [OF wf])
    then have "i \<notin> set (L (bucket_tail t k))" using ht_wfD(2) [OF wf] m unfolding ht_lists_def by (meson atLeastLessThan_iff leD less_imp_le subsetD)
    then show "i \<in> set (bucket_entries t' k)" using e(4) be by simp
  qed
  have "ht_inv gk t'" "ht_index gk t' = (ht_index gk t)(k := None)"
    using t'(2) ht_same_index [OF t'(3), of gk] ix by (auto simp: ht_inv_def)
  moreover have "hentry_flags (ht_ents t' ! i) AND VR_HENTRY_FLAG_DELETE_MARKED \<noteq> 0" if "\<not> i < ht_H t" "\<not> nr"
    by (rule eff(3)) (use that lt in \<open>simp_all add: ei, simp add: ht_set_body_def\<close>)
  moreover have "ht_used_entries t' = ht_used_entries t - 1" using eff(2) by (simp add: ht_set_body_def)
  ultimately show ?thesis using t'(1) inv eff(1) room
    by (intro exI [of _ t']) (auto simp: ht_inv_find)
qed

lemma ex_inserted_reach: "ht_reach id (ht_set_body 0 (\<lambda>_. Some ex_key) ex_taken)"
  by (rule ht_inserted [OF ex_htable_reach ex_find ex_take]) simp

lemma ex_inserted_find: "vr_htable_find_hentry id (ht_set_body 0 (\<lambda>_. Some ex_key) ex_taken) ex_key = Done (Some 0)"
proof -
  note inv = ht_reach_inv [OF ex_htable_reach]
  have t: "ht_reserved id ex_taken ex_key 0" "ht_index id ex_taken = ht_index id ex_htable"
    using ht_take [OF inv, of ex_key] ex_take by auto
  have "ht_index id ex_htable ex_key = None" using ex_find ht_inv_find [OF inv] by simp
  then show ?thesis
    using ht_store_reserved [OF t(1), of "\<lambda>_. Some ex_key"] t(2) ht_inv_find [OF ht_reach_inv [OF ex_inserted_reach]] by simp
qed

theorem htable_lookup_after_release_witness:
  "\<exists>t'. vr_htable_release_hentry False True 0 (ht_set_body 0 (\<lambda>_. None) (ht_set_body 0 (\<lambda>_. Some ex_key) ex_taken)) = Done t' \<and>
    vr_htable_find_hentry id t' ex_key = Done None \<and> \<not> hentry_valid (ht_ents t' ! 0)"
  using htable_lookup_after_release [OF ex_inserted_reach ex_inserted_find, of "\<lambda>_. None" False True] by auto

text \<open>C22: In every table that a client can reach, no list is circular or leaves the table: the lookup,
  the search for a free entry, the release of any entry and the scheduled deletion all end without an
  access outside of the table, and the background work changes no lookup.\<close>

theorem htable_reach_safe:
  assumes "ht_reach gk t"
  shows "\<exists>t1. vr_htable_hentry_scheduled_delete nr dok t = Done t1 \<and>
    (\<forall>k. vr_htable_find_hentry gk t k \<noteq> Fault \<and> vr_htable_find_free_hentry t k \<noteq> Fault \<and>
       vr_htable_find_hentry gk t1 k = vr_htable_find_hentry gk t k \<and>
       vr_htable_find_hentry gk (vr_htable_hentry_defer_delete t) k = vr_htable_find_hentry gk t k)"
proof -
  have inv: "ht_inv gk t" using assms by (rule ht_reach_inv)
  obtain t1 where t1: "vr_htable_hentry_scheduled_delete nr dok t = Done t1" "ht_inv gk t1" "ht_same t t1"
    using ht_inv_scheduled [OF inv] by blast
  note d = ht_inv_deferred [OF inv]
  have "vr_htable_find_free_hentry t k \<noteq> Fault" for k using ht_take [OF inv, of k] by auto
  then show ?thesis using t1 d inv ht_same_index [OF t1(3)] ht_same_index [of t "vr_htable_hentry_defer_delete t" gk]
    by (simp add: ht_inv_find)
qed

theorem htable_reach_safe_witness:
  "\<exists>t1. vr_htable_hentry_scheduled_delete False (\<lambda>_. True) ex_htable = Done t1 \<and> vr_htable_find_hentry id t1 ex_key \<noteq> Fault"
  using htable_reach_safe [OF ex_htable_reach, of False "\<lambda>_. True"] by metis

text \<open>C23: The search for a free entry fails only when the table has no room for the key: all four
  entries of its bucket are valid, and there is no overflow table or its free list is empty. The table
  is then unchanged.\<close>

theorem htable_full:
  assumes "ht_reach gk t"
  shows "vr_htable_find_free_hentry t k = Done (None, t') \<longleftrightarrow> t' = t \<and>
    (\<forall>i\<in>set (bucket_entries t k). hentry_valid (ht_ents t ! i)) \<and> (ht_oentries t = 0 \<or> ht_free_oentry_head t = None)"
proof -
  obtain L where wf: "ht_wf gk t L" using ht_reach_inv [OF assms] by (auto simp: ht_inv_def)
  have b: "set (bucket_entries t k) \<subseteq> {..<ht_H t}" by (rule ht_wf_bucket(5) [OF wf])
  have HN: "ht_H t \<le> ht_N t" using ht_wfD(1) [OF wf] by (simp add: ht_sizes_def)
  have sc: "scan_entries (\<lambda>e. \<not> hentry_valid e) t (bucket_entries t k) =
    Done (find (\<lambda>i. \<not> hentry_valid (ht_ents t ! i)) (bucket_entries t k))" by (rule scan_entries_find [OF b HN])
  have f: "find (\<lambda>i. \<not> hentry_valid (ht_ents t ! i)) (bucket_entries t k) = None \<longleftrightarrow>
    (\<forall>i\<in>set (bucket_entries t k). hentry_valid (ht_ents t ! i))" by (auto simp: find_None_iff)
  show ?thesis unfolding f [symmetric] unfolding vr_htable_find_free_hentry_def sc
    by (auto simp: vr_htable_get_free_oentry_def split: option.splits)
qed

theorem htable_full_witness: "vr_htable_find_free_hentry ex_htable ex_key \<noteq> Done (None, ex_htable)"
  using htable_full [OF ex_htable_reach, of ex_key ex_htable] ex_htable_fields(5) by (simp add: ex_bucket)

text \<open>C24: A table for at least one entry has the number of entries rounded up to a multiple of four,
  and the bucket of every key lies in the main table.\<close>

theorem htable_bucket_bounds:
  assumes "vr_htable_create_raw zok ht ot dt mem entries oentries esz ksz bsz = Some t" "entries \<le> 0xFFFFFFFC"
  shows "unat (ht_hentries t) = 4 * ((unat entries + 3) div 4) \<and> unat entries \<le> unat (ht_hentries t) \<and>
    (\<exists>b. vr_htable_get_bucket t k = Some b \<and> b mod 4 = 0 \<and> b + 4 \<le> unat (ht_hentries t) \<and> bucket_entries t k = [b..<b + 4])"
proof -
  have t: "ht_hentries t = round_entries entries" "ht_bucket_size t = 4" "entries \<noteq> 0"
    using assms(1) by (auto simp: vr_htable_create_raw_def Let_def VR_HENTRIES_PER_BUCKET_def split: if_splits option.splits)
  have H: "ht_H t = 4 * ((unat entries + 3) div 4)" using round_entries_eq [OF assms(2)] t(1) by simp
  have "0 < unat entries" using t(3) by (simp add: unat_gt_0)
  then have E: "0 < ht_H t" "4 dvd ht_H t" using H by simp_all
  note b = bucket_entries_eq [OF t(2) E, of k]
  let ?b = "bucket_tail t k - 3"
  have bt: "bucket_tail t k = ?b + 3" "?b mod 4 = 0" by (simp_all add: bucket_tail_def)
  have be: "bucket_entries t k = [?b..<?b + 4]" unfolding b(1) by (simp add: upt_rec)
  have "unat (bucket_start t k) = hd (bucket_entries t k)" by (simp add: bucket_entries_def t(2) upt_rec)
  then have st: "unat (bucket_start t k) = ?b" using be by (simp add: upt_rec)
  have "?b + 4 \<le> ht_H t" using b(2,3) E(2) bt by presburger
  moreover have "vr_htable_get_bucket t k = Some ?b"
    using st b(2) bt by (simp add: vr_htable_get_bucket_def word_less_nat_alt)
  ultimately show ?thesis using H be bt by auto
qed

theorem htable_bucket_bounds_witness: "\<exists>b. vr_htable_get_bucket ex_htable ex_key = Some b \<and> b + 4 \<le> 4"
proof -
  have "vr_htable_create_raw True (\<lambda>_. Some ex_btable) (\<lambda>_. Some ex_btable) (\<lambda>_. Some ex_btable)
     (replicate 6 ex_hentry) 3 2 64 8 0 = Some ex_htable"
    by (simp add: ex_htable_def vr_htable_create_raw_def Let_def)
  from htable_bucket_bounds [OF this, of ex_key] show ?thesis by (auto simp: ex_htable_fields)
qed

end
