(* ===== verification/VR_Bridge.thy ===== *)
theory VR_Bridge
  imports VR_Htable_Map VR_Nh_Refs VR_Packet
begin

text \<open>
  \<^verbatim>\<open>dp-core/vr_bridge.c\<close>: the MAC table. It is one hash table for all VRFs; the key of an entry is
  its MAC address and its VRF, and the entry holds a reference to the nexthop that frames to this
  address take. The agent adds and deletes entries, and the data path adds an entry when it learns
  the source address of a frame.

  The state is the hash table \<open>vn_rtable\<close>, if it was set up, and the nexthop table. The result of a
  lookup in the hash table is the index of the entry. As in the hash table itself, one thread of
  control is followed, so that a compare and swap succeeds.
\<close>

section \<open>Data\<close>

record vr_bridge_entry =
  be_mac :: "u8 list"
  be_vrf_id :: u16
  be_nh :: nh_ptr
  be_packets :: u64
  be_label :: u32
  be_nh_id :: u32
  be_flags :: u16

record br_state =
  vn_rtable :: "vr_bridge_entry vr_htable option"
  br_nh :: nh_state

definition VR_BE_VALID_FLAG :: u16 where "VR_BE_VALID_FLAG = 0x01"
definition VR_BE_LABEL_VALID_FLAG :: u16 where "VR_BE_LABEL_VALID_FLAG = 0x02"
definition VR_BE_MAC_MOVED_FLAG :: u16 where "VR_BE_MAC_MOVED_FLAG = 0x08"
definition VR_BE_L2_CONTROL_DATA_FLAG :: u16 where "VR_BE_L2_CONTROL_DATA_FLAG = 0x10"
definition VR_BE_MAC_NEW_FLAG :: u16 where "VR_BE_MAC_NEW_FLAG = 0x20"

definition VR_BRIDGE_FLAG_MASK :: "u16 \<Rightarrow> u16" where
  "VR_BRIDGE_FLAG_MASK flags = flags AND NOT (VR_BE_VALID_FLAG OR VR_BE_MAC_NEW_FLAG)"

lemmas be_flag_defs = VR_BE_VALID_FLAG_def VR_BE_LABEL_VALID_FLAG_def VR_BE_MAC_MOVED_FLAG_def
  VR_BE_L2_CONTROL_DATA_FLAG_def VR_BE_MAC_NEW_FLAG_def

definition vr_bcast_mac :: "u8 list" where
  "vr_bcast_mac = replicate VR_ETHER_ALEN 0xFF"

definition IS_MAC_BCAST :: "u8 list \<Rightarrow> bool" where
  "IS_MAC_BCAST mac \<longleftrightarrow> (\<forall>b\<in>set (take VR_ETHER_ALEN mac). b = 0xFF)"

definition IS_MAC_BMCAST :: "u8 list \<Rightarrow> bool" where
  "IS_MAC_BMCAST mac \<longleftrightarrow> mac ! 0 AND 1 \<noteq> 0"

definition MAC_UC_BIT_SET :: int where "MAC_UC_BIT_SET = 1"
definition MAC_BC_BIT_SET :: int where "MAC_BC_BIT_SET = 2"
definition MAC_MC_BIT_SET :: int where "MAC_MC_BIT_SET = 4"

definition vr_bridge_get_mac_type :: "u8 list \<Rightarrow> int" where
  "vr_bridge_get_mac_type mac =
     (if IS_MAC_BCAST mac then MAC_BC_BIT_SET
      else if IS_MAC_BMCAST mac then MAC_MC_BIT_SET
      else MAC_UC_BIT_SET)"

text \<open>
  The bytes of a \<open>vr_bridge_entry_key\<close>, and \<open>bridge_entry_key\<close>, by which the hash table reads the key
  of an entry: one that is not valid has none.
\<close>

definition key_bytes :: "u8 list \<Rightarrow> u16 \<Rightarrow> u8 list" where
  "key_bytes mac vrf = take VR_ETHER_ALEN mac @ [ucast vrf, ucast (drop_bit 8 vrf)]"

definition bridge_entry_key :: "vr_bridge_entry \<Rightarrow> u8 list option" where
  "bridge_entry_key be = (if be_flags be AND VR_BE_VALID_FLAG = 0 then None else Some (key_bytes (be_mac be) (be_vrf_id be)))"

text \<open>Reading and writing an entry.\<close>

definition be_at :: "br_state \<Rightarrow> nat \<Rightarrow> vr_bridge_entry" where
  "be_at st i = ht_body (the (vn_rtable st)) i"

definition be_upd :: "nat \<Rightarrow> (vr_bridge_entry \<Rightarrow> vr_bridge_entry) \<Rightarrow> br_state \<Rightarrow> br_state" where
  "be_upd i f st = st\<lparr>vn_rtable := map_option (ht_set_body i f) (vn_rtable st)\<rparr>"

section \<open>Adding and deleting entries\<close>

definition vr_find_bridge_entry :: "u8 list \<Rightarrow> br_state \<Rightarrow> nat option exec" where
  "vr_find_bridge_entry key st =
     (case vn_rtable st of None \<Rightarrow> Done None | Some t \<Rightarrow> vr_htable_find_hentry bridge_entry_key t key)"

definition vr_find_free_bridge_entry :: "u32 \<Rightarrow> u8 list \<Rightarrow> br_state \<Rightarrow> (nat option \<times> br_state) exec" where
  "vr_find_free_bridge_entry vrf_id mac st =
     (case vn_rtable st of
        None \<Rightarrow> Done (None, st)
      | Some t \<Rightarrow> exec_bind (vr_htable_find_free_hentry t (key_bytes mac (ucast vrf_id)))
                   (\<lambda>(r, t). Done (r, st\<lparr>vn_rtable := Some t\<rparr>)))"

text \<open>
  \<open>bridge_add\<close>, in two steps: a new entry is initialised, and then the nexthop of the entry is
  replaced if its number differs.
\<close>

definition be_init :: "u32 \<Rightarrow> u8 list \<Rightarrow> vr_bridge_entry \<Rightarrow> vr_bridge_entry" where
  "be_init vrf mac be = be\<lparr>be_mac := take VR_ETHER_ALEN mac, be_vrf_id := ucast vrf, be_packets := 0,
     be_flags := VR_BE_VALID_FLAG, be_nh_id := -1\<rparr>"

definition be_set_nh :: "u32 \<Rightarrow> nat \<Rightarrow> br_state \<Rightarrow> br_state" where
  "be_set_nh nid i st =
     (if be_nh_id (be_at st i) = nid then st
      else let old_nh = be_nh (be_at st i)
           in case vrouter_get_nexthop nid (br_nh st) of (nh, s) \<Rightarrow>
                (be_upd i (\<lambda>be. be\<lparr>be_nh := nh, be_nh_id := (if nh \<noteq> 0 then nh_id (nh_heap s ! nh) else -1),
                                   be_flags := be_flags be AND NOT VR_BE_MAC_MOVED_FLAG\<rparr>) st)
                \<lparr>br_nh := (if old_nh = 0 then s else vrouter_put_nexthop old_nh s)\<rparr>)"

definition bridge_add :: "u32 \<Rightarrow> u8 list \<Rightarrow> u32 \<Rightarrow> br_state \<Rightarrow> (nat option \<times> br_state) exec" where
  "bridge_add vrf mac nid st =
     exec_bind (vr_find_bridge_entry (key_bytes mac (ucast vrf)) st) (\<lambda>r.
       case r of
         Some i \<Rightarrow> Done (Some i, be_set_nh nid i st)
       | None \<Rightarrow> exec_bind (vr_find_free_bridge_entry vrf mac st) (\<lambda>(r, st).
                   case r of
                     None \<Rightarrow> Done (None, st)
                   | Some i \<Rightarrow> Done (Some i, be_set_nh nid i (be_upd i (be_init vrf mac) st))))"

text \<open>\<open>__bridge_table_add\<close> and \<open>bridge_table_add\<close>; the request is updated too.\<close>

definition bridge_table_add_raw :: "vr_route_req \<Rightarrow> br_state \<Rightarrow> (vr_ret \<times> vr_route_req \<times> br_state) exec" where
  "bridge_table_add_raw rt st =
     exec_bind (bridge_add (rtr_vrf_id rt) (rtr_mac rt) (rtr_nh_id rt) st) (\<lambda>(r, st).
       case r of
         None \<Rightarrow> Done (RetErr ENOMEM, rt, st)
       | Some i \<Rightarrow>
           let rt = rt\<lparr>rtr_label_flags := VR_BRIDGE_FLAG_MASK (rtr_label_flags rt)\<rparr>;
               st = (if rtr_label_flags rt AND VR_BE_LABEL_VALID_FLAG \<noteq> 0
                     then be_upd i (\<lambda>be. be\<lparr>be_label := rtr_label rt\<rparr>) st else st);
               st = be_upd i (\<lambda>be. be\<lparr>be_flags := VR_BE_VALID_FLAG OR rtr_label_flags rt\<rparr>) st
           in Done (RetOk, rt\<lparr>rtr_index := hentry_index (ht_ents (the (vn_rtable st)) ! i)\<rparr>, st))"

definition bridge_table_add :: "vr_route_req \<Rightarrow> br_state \<Rightarrow> (vr_ret \<times> vr_route_req \<times> br_state) exec" where
  "bridge_table_add rt st =
     (if vn_rtable st = None then Done (RetErr EINVAL, rt, st)
      else if length (rtr_mac rt) \<noteq> VR_ETHER_ALEN then Done (RetErr EINVAL, rt, st)
      else if IS_MAC_ZERO (rtr_mac rt) then Done (RetErr EINVAL, rt, st)
      else case vrouter_get_nexthop (rtr_nh_id rt) (br_nh st) of (nh, s) \<Rightarrow>
             let rt = rt\<lparr>rtr_nh := nh\<rparr>; st = st\<lparr>br_nh := s\<rparr>
             in if nh = 0 then Done (RetErr ENOENT, rt, st)
                else exec_bind (bridge_table_add_raw rt st) (\<lambda>(ret, rt, st).
                       Done (ret, rt, st\<lparr>br_nh := vrouter_put_nexthop (rtr_nh rt) (br_nh st)\<rparr>)))"

text \<open>\<open>sok\<close> tells whether the hash table can schedule the work that deletes the entry.\<close>

definition bridge_table_entry_free :: "bool \<Rightarrow> nat \<Rightarrow> br_state \<Rightarrow> br_state exec" where
  "bridge_table_entry_free sok i st =
     (let nh = be_nh (be_at st i);
          st = be_upd i (\<lambda>be. be\<lparr>be_flags := be_flags be AND NOT VR_BE_VALID_FLAG\<rparr>) st;
          st = (if nh = 0 then st
                else (be_upd i (\<lambda>be. be\<lparr>be_nh := 0, be_nh_id := -1\<rparr>) st)\<lparr>br_nh := vrouter_put_nexthop nh (br_nh st)\<rparr>);
          st = be_upd i (\<lambda>be. be\<lparr>be_packets := 0\<rparr>) st
      in case vn_rtable st of
           None \<Rightarrow> Fault
         | Some t \<Rightarrow> exec_bind (vr_htable_release_hentry (vr_not_ready (br_nh st)) sok i t) (\<lambda>t.
                      Done (st\<lparr>vn_rtable := Some t\<rparr>)))"

definition bridge_table_delete :: "bool \<Rightarrow> vr_route_req \<Rightarrow> br_state \<Rightarrow> (vr_ret \<times> br_state) exec" where
  "bridge_table_delete sok rt st =
     (if vn_rtable st = None then Done (RetErr EINVAL, st)
      else if length (rtr_mac rt) \<noteq> VR_ETHER_ALEN then Done (RetErr EINVAL, st)
      else exec_bind (vr_find_bridge_entry (key_bytes (rtr_mac rt) (ucast (rtr_vrf_id rt))) st) (\<lambda>r.
             case r of
               None \<Rightarrow> Done (RetErr ENOENT, st)
             | Some i \<Rightarrow> exec_bind (bridge_table_entry_free sok i st) (\<lambda>st. Done (RetOk, st))))"

section \<open>Lookup\<close>

definition bridge_update_route_req :: "br_state \<Rightarrow> nat \<Rightarrow> vr_route_req \<Rightarrow> vr_route_req" where
  "bridge_update_route_req st i rt =
     (let be = be_at st i;
          rt = rt\<lparr>rtr_label_flags := be_flags be, rtr_label := be_label be, rtr_nh := be_nh be\<rparr>;
          rt = (if rtr_nh rt \<noteq> 0 then rt\<lparr>rtr_nh_id := nh_id (nh_heap (br_nh st) ! rtr_nh rt)\<rparr> else rt)
      in if rtr_index rt \<noteq> VR_BE_INVALID_INDEX
         then (if rtr_mac rt \<noteq> [] then rt\<lparr>rtr_mac := be_mac be @ drop VR_ETHER_ALEN (rtr_mac rt)\<rparr> else rt)
         else rt\<lparr>rtr_index := hentry_index (ht_ents (the (vn_rtable st)) ! i)\<rparr>)"

text \<open>\<open>__bridge_lookup\<close>: by index, or by address.\<close>

definition bridge_lookup_raw :: "vr_route_req \<Rightarrow> br_state \<Rightarrow> (nat option \<times> vr_route_req) exec" where
  "bridge_lookup_raw rt st =
     (let rt = rt\<lparr>rtr_label_flags := 0, rtr_nh := 0\<rparr>
      in if rtr_index rt \<noteq> VR_BE_INVALID_INDEX
         then (case vn_rtable st of
                 None \<Rightarrow> Done (None, rt)
               | Some t \<Rightarrow> Done (vr_htable_get_hentry_by_index t (rtr_index rt), rt))
         else exec_bind (vr_find_bridge_entry (key_bytes (rtr_mac rt) (ucast (rtr_vrf_id rt))) st) (\<lambda>r. Done (r, rt)))"

definition bridge_table_lookup :: "vr_route_req \<Rightarrow> br_state \<Rightarrow> (nh_ptr \<times> vr_route_req) exec" where
  "bridge_table_lookup rt st =
     exec_bind (bridge_lookup_raw rt st) (\<lambda>(r, rt).
       let rt = (case r of None \<Rightarrow> rt | Some i \<Rightarrow> bridge_update_route_req st i rt)
       in Done (rtr_nh rt, rt))"

definition vr_bridge_lookup :: "vr_route_req \<Rightarrow> br_state \<Rightarrow> (nh_ptr \<times> vr_route_req) exec" where
  "vr_bridge_lookup rt st = (if vn_rtable st = None then Done (0, rt) else bridge_table_lookup rt st)"

text \<open>
  \<open>bridge_lookup\<close>, with the metadata of the frame. The request is one on the stack; the fields that
  the code leaves uninitialised are not read.
\<close>

definition stack_req :: "u8 list \<Rightarrow> u32 \<Rightarrow> vr_route_req" where
  "stack_req mac vrf = \<lparr>rtr_vrf_id = vrf, rtr_family = AF_BRIDGE, rtr_prefix = [], rtr_prefix_len = 0, rtr_label_flags = 0,
     rtr_label = 0, rtr_nh_id = 0, rtr_mac = mac, rtr_replace_plen = 0, rtr_index = VR_BE_INVALID_INDEX, rtr_nh = 0\<rparr>"

definition bridge_lookup :: "u8 list \<Rightarrow> vr_forwarding_md \<Rightarrow> br_state \<Rightarrow> (nat option \<times> vr_forwarding_md) exec" where
  "bridge_lookup mac fmd st =
     exec_bind (bridge_lookup_raw (stack_req mac (scast (fmd_dvrf fmd))) st) (\<lambda>(r, _).
       case r of
         None \<Rightarrow> Done (None, fmd)
       | Some i \<Rightarrow>
           let be = be_at st i;
               fmd = (if be_flags be AND VR_BE_LABEL_VALID_FLAG \<noteq> 0 then vr_fmd_set_label (be_label be) VR_LABEL_TYPE_UNKNOWN fmd else fmd);
               fmd = (if be_flags be AND VR_BE_L2_CONTROL_DATA_FLAG \<noteq> 0 then vr_fmd_update_l2_control_data True fmd else fmd)
           in Done (Some i, fmd))"

text \<open>\<open>__vrouter_bridge_lookup\<close>: a group address is looked up as the broadcast address.\<close>

definition vrouter_bridge_lookup :: "u32 \<Rightarrow> u8 list \<Rightarrow> br_state \<Rightarrow> nh_ptr exec" where
  "vrouter_bridge_lookup vrf_id mac st =
     (if mac = [] then Done 0
      else let mac = (if IS_MAC_BMCAST mac then vr_bcast_mac else mac)
           in exec_bind (vr_bridge_lookup (stack_req mac vrf_id) st) (\<lambda>(nh, _). Done nh))"

definition vr_bridge_route_flags :: "u32 \<Rightarrow> u8 list \<Rightarrow> br_state \<Rightarrow> u16 exec" where
  "vr_bridge_route_flags vrf_id mac st =
     exec_bind (vr_find_bridge_entry (key_bytes mac (ucast vrf_id)) st) (\<lambda>r.
       case r of
         None \<Rightarrow> Done 0
       | Some i \<Rightarrow> Done (if be_flags (be_at st i) AND VR_BE_VALID_FLAG \<noteq> 0 then be_flags (be_at st i) else 0))"

definition vr_bridge_set_route_flags :: "nat option \<Rightarrow> u16 \<Rightarrow> br_state \<Rightarrow> vr_ret \<times> br_state" where
  "vr_bridge_set_route_flags r flags st =
     (case r of
        None \<Rightarrow> (RetErr EINVAL, st)
      | Some i \<Rightarrow>
          let old = be_flags (be_at st i)
          in if old AND VR_BE_VALID_FLAG = 0 then (RetErr EINVAL, st)
             else if old AND flags = flags then (RetErr EEXIST, st)
             else let flags = VR_BRIDGE_FLAG_MASK flags;
                      st = be_upd i (\<lambda>be. be\<lparr>be_flags := flags OR old\<rparr>) st
                  in if old AND flags = flags then (RetErr EEXIST, st) else (RetOk, st))"

definition vr_bridge_table_used_total_entries :: "br_state \<Rightarrow> u32" where
  "vr_bridge_table_used_total_entries st = (if vn_rtable st = None then 0 else vr_htable_used_total_entries (vn_rtable st))"

definition vr_bridge_table_used_oflow_entries :: "br_state \<Rightarrow> u32" where
  "vr_bridge_table_used_oflow_entries st = (if vn_rtable st = None then 0 else vr_htable_used_oflow_entries (vn_rtable st))"

definition bridge_table_get :: "vr_route_req \<Rightarrow> br_state \<Rightarrow> (vr_ret \<times> vr_route_req) exec" where
  "bridge_table_get rt st =
     exec_bind (bridge_table_lookup rt st) (\<lambda>(nh, rt). Done (if nh \<noteq> 0 then RetOk else RetErr ENOENT, rt))"

section \<open>Learning\<close>

text \<open>The fields of an interface that the learning code uses.\<close>

datatype vif_type = VIF_TYPE_HOST | VIF_TYPE_AGENT | VIF_TYPE_PHYSICAL | VIF_TYPE_VIRTUAL | VIF_TYPE_XEN_LL_HOST
  | VIF_TYPE_GATEWAY | VIF_TYPE_VIRTUAL_VLAN | VIF_TYPE_STATS | VIF_TYPE_VLAN | VIF_TYPE_MONITORING

record br_vif =
  vif_type :: vif_type
  vif_flags :: u32
  vif_bridge_table_lock :: "u8 list option"

definition VIF_FLAG_UNKNOWN_UC_FLOOD :: u32 where "VIF_FLAG_UNKNOWN_UC_FLOOD = 0x10000"
definition VIF_FLAG_ETREE_ROOT :: u32 where "VIF_FLAG_ETREE_ROOT = 0x200000"
definition NH_FLAG_UNKNOWN_UC_FLOOD :: u32 where "NH_FLAG_UNKNOWN_UC_FLOOD = 0x010000"

definition vif_is_virtual :: "br_vif \<Rightarrow> bool" where
  "vif_is_virtual vif \<longleftrightarrow> vif_type vif = VIF_TYPE_VIRTUAL \<or> vif_type vif = VIF_TYPE_VIRTUAL_VLAN"

definition vif_is_fabric :: "br_vif \<Rightarrow> bool" where
  "vif_is_fabric vif \<longleftrightarrow> vif_type vif = VIF_TYPE_PHYSICAL"

definition vr_unknown_uc_flood :: "br_vif option \<Rightarrow> nh_ptr \<Rightarrow> nh_state \<Rightarrow> bool" where
  "vr_unknown_uc_flood ingress_vif ingress_nh s =
     (case ingress_vif of
        None \<Rightarrow> False
      | Some vif \<Rightarrow>
          if vif_is_virtual vif then vif_flags vif AND VIF_FLAG_UNKNOWN_UC_FLOOD \<noteq> 0
          else if vif_is_fabric vif \<and> ingress_nh \<noteq> 0 then nh_flags (nh_heap s ! ingress_nh) AND NH_FLAG_UNKNOWN_UC_FLOOD \<noteq> 0
          else False)"

text \<open>
  The lock that a CPU takes on a slot of the interface before it learns an address. \<open>t1ns\<close> is the
  clock at the start, and \<open>env n\<close> what attempt \<open>n\<close> sees: the value that was in the slot and the clock.
  The loop has no bound of its own: it ends when the slot was free, or when the clock shows that 50
  microseconds have passed.
\<close>

definition lock_elapsed :: "u64 \<Rightarrow> u64 \<Rightarrow> u64" where
  "lock_elapsed t1ns t2ns = (if t1ns \<le> t2ns then t2ns - t1ns else 999999999 - t1ns + t2ns)"

partial_function (option) lock_loop :: "u64 \<Rightarrow> (nat \<Rightarrow> u8 \<times> u64) \<Rightarrow> nat \<Rightarrow> bool option" where
  "lock_loop t1ns env n =
     (case env n of (lock, t2ns) \<Rightarrow>
        if lock = 0 then Some True
        else if 50000 \<le> lock_elapsed t1ns t2ns then Some False
        else lock_loop t1ns env (Suc n))"

definition bridge_table_lock ::
  "u32 \<Rightarrow> u64 \<Rightarrow> (nat \<Rightarrow> u8 \<times> u64) \<Rightarrow> u8 list \<Rightarrow> br_vif \<Rightarrow> (nat option \<times> br_vif) option" where
  "bridge_table_lock vr_num_cpus t1ns env mac vif =
     (case vif_bridge_table_lock vif of
        None \<Rightarrow> Some (None, vif)
      | Some l \<Rightarrow>
          let hash = unat (vr_hash (take VR_ETHER_ALEN mac) 0 mod vr_num_cpus)
          in case lock_loop t1ns env 0 of
               None \<Rightarrow> None
             | Some True \<Rightarrow> Some (Some hash, vif\<lparr>vif_bridge_table_lock := Some (l[hash := 1])\<rparr>)
             | Some False \<Rightarrow> Some (None, vif))"

definition bridge_table_unlock :: "nat \<Rightarrow> br_vif \<Rightarrow> br_vif" where
  "bridge_table_unlock cpu vif =
     (case vif_bridge_table_lock vif of None \<Rightarrow> vif | Some l \<Rightarrow> vif\<lparr>vif_bridge_table_lock := Some (l[cpu := 0])\<rparr>)"

datatype mac_learn_t = MAC_LEARN_FAILURE | MAC_LEARNT | MAC_MOVED | MAC_TRAPPED | MAC_EXISTS
datatype trap_reason = AGENT_TRAP_MAC_LEARN | AGENT_TRAP_MAC_MOVE

text \<open>What a call gives: its result, the trap to the agent with the index of the entry, the metadata, the
  interface and the tables.\<close>

type_synonym learn_result = "mac_learn_t \<times> (trap_reason \<times> u32) option \<times> vr_forwarding_md \<times> br_vif \<times> br_state"

text \<open>
  The end of \<open>vr_bridge_learn\<close>: the frame is counted, and trapped where that was decided. \<open>cow\<close> tells
  whether the packet can be copied for the trap.
\<close>

definition learn_finish ::
  "bool \<Rightarrow> mac_learn_t \<Rightarrow> trap_reason option \<Rightarrow> nat \<Rightarrow> vr_forwarding_md \<Rightarrow> br_vif \<Rightarrow> br_state \<Rightarrow> learn_result" where
  "learn_finish cow ml_res trap i fmd vif st =
     (let st = be_upd i (\<lambda>be. be\<lparr>be_packets := be_packets be + 1\<rparr>) st
      in case trap of
           None \<Rightarrow> (ml_res, None, fmd, vif, st)
         | Some reason \<Rightarrow> (if cow then ml_res else MAC_TRAPPED,
                          Some (reason, hentry_index (ht_ents (the (vn_rtable st)) ! i)), fmd, vif, st))"

text \<open>An address that has no nexthop gets the one of the broadcast address.\<close>

definition learn_new ::
  "u32 \<Rightarrow> u64 \<Rightarrow> (nat \<Rightarrow> u8 \<times> u64) \<Rightarrow> bool \<Rightarrow> u8 list \<Rightarrow> vr_forwarding_md \<Rightarrow> br_vif \<Rightarrow> br_state \<Rightarrow> learn_result exec option" where
  "learn_new vr_num_cpus t1ns env cow smac fmd vif st =
     (case bridge_lookup vr_bcast_mac fmd st of
        Fault \<Rightarrow> Some Fault
      | Done (r, fmd) \<Rightarrow>
          let nh = (case r of None \<Rightarrow> 0 | Some i \<Rightarrow> be_nh (be_at st i))
          in if nh = 0 then Some (Done (MAC_LEARN_FAILURE, None, fmd, vif, st))
             else case bridge_table_lock vr_num_cpus t1ns env smac vif of
                    None \<Rightarrow> None
                  | Some (None, vif) \<Rightarrow> Some (Done (MAC_LEARN_FAILURE, None, fmd, vif, st))
                  | Some (Some lock, vif) \<Rightarrow> Some (
                      exec_bind (bridge_add (scast (fmd_dvrf fmd)) smac (nh_id (nh_heap (br_nh st) ! nh)) st) (\<lambda>(r, st).
                        let vif = bridge_table_unlock lock vif
                        in case r of
                             None \<Rightarrow> Done (MAC_LEARN_FAILURE, None, fmd, vif, st)
                           | Some i \<Rightarrow>
                               let st = be_upd i (\<lambda>be. be\<lparr>be_flags := be_flags be OR VR_BE_MAC_NEW_FLAG\<rparr>) st
                               in Done (learn_finish cow MAC_LEARNT (Some AGENT_TRAP_MAC_LEARN) i fmd vif st))))"

text \<open>
  An address that is known may have moved. \<open>src_valid\<close> is what the function \<open>nh_validate_src\<close> of its
  nexthop finds out about the source of the packet.
\<close>

definition learn_known ::
  "(nh_ptr \<Rightarrow> bool) \<Rightarrow> bool \<Rightarrow> nat \<Rightarrow> vr_forwarding_md \<Rightarrow> br_vif \<Rightarrow> br_state \<Rightarrow> learn_result" where
  "learn_known src_valid cow i fmd vif st =
     (let be = be_at st i; nh = be_nh be;
          moved = be_flags be AND VR_BE_MAC_MOVED_FLAG = 0 \<and> nh_validate_src (nh_heap (br_nh st) ! nh) \<noteq> VNull \<and> \<not> src_valid nh
      in case (if moved then vr_bridge_set_route_flags (Some i) VR_BE_MAC_MOVED_FLAG st else (RetErr EEXIST, st)) of (ret, st) \<Rightarrow>
           let trap = (if ret = RetOk then Some AGENT_TRAP_MAC_MOVE else None);
               ml_res = (if be_flags (be_at st i) AND VR_BE_MAC_MOVED_FLAG \<noteq> 0 then MAC_MOVED else MAC_EXISTS)
           in learn_finish cow ml_res trap i fmd vif st)"

definition vr_bridge_learn ::
  "u32 \<Rightarrow> u64 \<Rightarrow> (nat \<Rightarrow> u8 \<times> u64) \<Rightarrow> (nh_ptr \<Rightarrow> bool) \<Rightarrow> bool \<Rightarrow> u8 list option \<Rightarrow> vr_forwarding_md \<Rightarrow> br_vif \<Rightarrow> br_state \<Rightarrow>
   learn_result exec option" where
  "vr_bridge_learn vr_num_cpus t1ns env src_valid cow eth fmd vif st =
     (case eth of
        None \<Rightarrow> Some (Done (MAC_LEARN_FAILURE, None, fmd, vif, st))
      | Some smac \<Rightarrow>
          if IS_MAC_BMCAST smac then Some (Done (MAC_LEARN_FAILURE, None, fmd, vif, st))
          else let fmd = vr_fmd_update_etree True fmd;
                   fmd = (if vif_is_virtual vif then vr_fmd_update_etree_root (vif_flags vif AND VIF_FLAG_ETREE_ROOT \<noteq> 0) fmd else fmd)
               in case bridge_lookup smac fmd st of
                    Fault \<Rightarrow> Some Fault
                  | Done (r, fmd) \<Rightarrow>
                      (case r of
                         Some i \<Rightarrow>
                           if be_nh (be_at st i) = 0 then learn_new vr_num_cpus t1ns env cow smac fmd vif st
                           else Some (Done (learn_known src_valid cow i fmd vif st))
                       | None \<Rightarrow> learn_new vr_num_cpus t1ns env cow smac fmd vif st))"

section \<open>Sizes, dump and shutdown\<close>

definition vr_compute_size_bridge_otable :: "u32 \<Rightarrow> u32 \<Rightarrow> u32" where
  "vr_compute_size_bridge_otable vr_bridge_entries vr_bridge_oentries =
     (if vr_bridge_oentries = 0 then (vr_bridge_entries div 5 + 1023) AND NOT 1023 else vr_bridge_oentries)"

definition vr_bridge_table_size :: "u32 \<Rightarrow> u32 \<Rightarrow> u32" where
  "vr_bridge_table_size vr_bridge_entries vr_bridge_oentries =
     vr_bridge_entries * 64 + vr_compute_size_bridge_otable vr_bridge_entries vr_bridge_oentries * 64"

text \<open>
  \<open>bridge_entry_make_req\<close>, and the loop of \<open>__bridge_table_dump\<close>. \<open>zok i\<close> tells whether the address of
  entry \<open>i\<close> can be allocated, \<open>dok\<close> whether the dump can be set up, and \<open>room n\<close> whether the message has room for one more object after \<open>n\<close>.
  The result is the responses, in order.
\<close>

definition bridge_entry_make_req :: "br_state \<Rightarrow> nat \<Rightarrow> vr_route_req" where
  "bridge_entry_make_req st i =
     (let ent = be_at st i
      in \<lparr>rtr_vrf_id = ucast (be_vrf_id ent), rtr_family = AF_BRIDGE, rtr_prefix = [], rtr_prefix_len = 0,
          rtr_label_flags = be_flags ent, rtr_label = be_label ent,
          rtr_nh_id = (if be_nh ent \<noteq> 0 then nh_id (nh_heap (br_nh st) ! be_nh ent) else 0), rtr_mac = be_mac ent,
          rtr_replace_plen = 0, rtr_index = hentry_index (ht_ents (the (vn_rtable st)) ! i), rtr_nh = 0\<rparr>)"

fun bridge_dump_loop ::
  "(nat \<Rightarrow> bool) \<Rightarrow> (nat \<Rightarrow> bool) \<Rightarrow> vr_route_req \<Rightarrow> br_state \<Rightarrow> vr_bridge_entry vr_htable \<Rightarrow> u32 list \<Rightarrow> bool \<Rightarrow> vr_route_req list \<Rightarrow> vr_route_req list" where
  "bridge_dump_loop zok room req st t [] marker out = out"
| "bridge_dump_loop zok room req st t (x # xs) marker out =
     (case vr_htable_get_hentry_by_index t x of
        None \<Rightarrow> bridge_dump_loop zok room req st t xs marker out
      | Some i \<Rightarrow>
          let be = be_at st i
          in if be_flags be AND VR_BE_VALID_FLAG = 0 \<or> ucast (be_vrf_id be) \<noteq> rtr_vrf_id req
             then bridge_dump_loop zok room req st t xs marker out
             else if \<not> marker
             then bridge_dump_loop zok room req st t xs (be_mac be = take VR_ETHER_ALEN (rtr_mac req)) out
             else if \<not> zok i then bridge_dump_loop zok room req st t xs marker out
             else if \<not> room (length out) then out
             else bridge_dump_loop zok room req st t xs marker (out @ [bridge_entry_make_req st i]))"

definition bridge_table_dump ::
  "bool \<Rightarrow> (nat \<Rightarrow> bool) \<Rightarrow> (nat \<Rightarrow> bool) \<Rightarrow> u32 \<Rightarrow> u32 \<Rightarrow> vr_route_req \<Rightarrow> br_state \<Rightarrow> (vr_ret \<times> vr_route_req list) exec" where
  "bridge_table_dump dok zok room vr_bridge_entries vr_bridge_oentries rt st =
     (if length (rtr_mac rt) \<noteq> VR_ETHER_ALEN then Done (RetErr EINVAL, [])
      else if \<not> dok then Done (RetOk, [])
      else case vn_rtable st of
             None \<Rightarrow> Done (RetOk, [])
           | Some t \<Rightarrow> Done (RetOk, bridge_dump_loop zok room rt st t
                        (map of_nat [0..<unat (vr_bridge_entries + vr_bridge_oentries)]) (IS_MAC_ZERO (rtr_mac rt)) []))"

text \<open>\<open>bridge_table_deinit\<close>: every entry is freed, and without a soft reset the table as well.\<close>

definition free_cb ::
  "bool \<Rightarrow> nat \<Rightarrow> vr_bridge_entry vr_htable \<times> nh_state \<Rightarrow> (vr_bridge_entry vr_htable \<times> nh_state) exec" where
  "free_cb sok i = (\<lambda>(t, s).
     exec_bind (bridge_table_entry_free sok i \<lparr>vn_rtable = Some t, br_nh = s\<rparr>) (\<lambda>st. Done (the (vn_rtable st), br_nh st)))"

definition bridge_table_deinit :: "bool \<Rightarrow> bool \<Rightarrow> br_state \<Rightarrow> br_state exec" where
  "bridge_table_deinit sok soft_reset st =
     (case vn_rtable st of
        None \<Rightarrow> Done st
      | Some t \<Rightarrow> exec_bind (vr_htable_reset (free_cb sok) (t, br_nh st)) (\<lambda>(t, s).
                   Done \<lparr>vn_rtable = (if soft_reset then Some t else None), br_nh = s\<rparr>))"

end
