(* ===== verification/VR_Bridge_Props.thy ===== *)
theory VR_Bridge_Props
  imports VR_Bridge
begin

text \<open>
  The MAC table as a map from addresses to entries. Its operations are updates of that map, and they
  keep the references to the nexthops: every entry holds one. The proofs rest on the contracts of
  the hash table (\<open>htm\<close>) and of the nexthop references (\<open>nhr\<close>).
\<close>

section \<open>The invariant and the abstraction\<close>

definition be_nhs :: "vr_bridge_entry vr_htable \<Rightarrow> nh_ptr list" where
  "be_nhs t = map (\<lambda>e. be_nh (hentry_body e)) (ht_ents t)"

text \<open>
  The hash table is well formed, an entry without a key has no nexthop, and the reference counts are
  exactly the references of the entries and the references \<open>ext\<close> of others, with room for \<open>n\<close> more.
\<close>

definition tbl_inv :: "nat \<times> bool \<Rightarrow> vr_bridge_entry vr_htable \<Rightarrow> nh_state \<Rightarrow> (nh_ptr \<Rightarrow> nat) \<Rightarrow> nat \<Rightarrow> bool" where
  "tbl_inv L t s ext n \<longleftrightarrow> ht_inv bridge_entry_key t \<and>
     (\<forall>i<ht_N t. bridge_entry_key (ht_body t i) = None \<longrightarrow> be_nh (ht_body t i) = 0) \<and>
     nh_good L s (\<lambda>q. ext q + nhr.slots (be_nhs t) q) n"

definition br_inv :: "nat \<times> bool \<Rightarrow> br_state \<Rightarrow> (nh_ptr \<Rightarrow> nat) \<Rightarrow> nat \<Rightarrow> bool" where
  "br_inv L st ext n \<longleftrightarrow>
     (case vn_rtable st of None \<Rightarrow> nh_good L (br_nh st) ext n | Some t \<Rightarrow> tbl_inv L t (br_nh st) ext n)"

abbreviation br_index :: "vr_bridge_entry vr_htable \<Rightarrow> u8 list \<Rightarrow> nat option" where
  "br_index \<equiv> ht_index bridge_entry_key"

definition tbl_map :: "vr_bridge_entry vr_htable \<Rightarrow> u8 list \<Rightarrow> vr_bridge_entry option" where
  "tbl_map t k = map_option (ht_body t) (br_index t k)"

definition br_map :: "br_state \<Rightarrow> u8 list \<Rightarrow> vr_bridge_entry option" where
  "br_map st = (case vn_rtable st of None \<Rightarrow> Map.empty | Some t \<Rightarrow> tbl_map t)"

lemma tbl_map_content: "tbl_map t = htm.content bridge_entry_key t"
  by (rule ext) (simp add: tbl_map_def htm.content_def)

lemma be_nhs_set: "be_nhs (ht_set_body i f t) = (be_nhs t)[i := be_nh (f (ht_body t i))]"
  by (simp add: be_nhs_def ht_set_body_def map_update ht_body_def)

lemma be_nhs_nth: "i < ht_N t \<Longrightarrow> be_nhs t ! i = be_nh (ht_body t i)"
  by (simp add: be_nhs_def ht_body_def)

lemma be_nhs_length [simp]: "length (be_nhs t) = ht_N t"
  by (simp add: be_nhs_def)

lemma ht_N_set_body [simp]: "ht_N (ht_set_body i f t) = ht_N t"
  by (simp add: ht_set_body_def)

lemma be_nhs_cong: "ht_N t' = ht_N t \<Longrightarrow> ht_body t' = ht_body t \<Longrightarrow> be_nhs t' = be_nhs t"
  by (rule nth_equalityI) (simp_all add: be_nhs_nth)

lemma index_lt: "ht_inv gk t \<Longrightarrow> ht_index gk t k = Some i \<Longrightarrow> i < ht_N t"
  using ht_index_entry(1) by (auto simp: ht_inv_def)

section \<open>Writing an entry\<close>

text \<open>Changing fields other than the key and the nexthop.\<close>

lemma tbl_set_field:
  assumes inv: "tbl_inv L t s ext n" and k: "br_index t k = Some i"
    and f: "bridge_entry_key (f (ht_body t i)) = Some k" "be_nh (f (ht_body t i)) = be_nh (ht_body t i)"
  shows "tbl_inv L (ht_set_body i f t) s ext n" "tbl_map (ht_set_body i f t) = (tbl_map t)(k \<mapsto> f (ht_body t i))"
    "br_index (ht_set_body i f t) = br_index t"
proof -
  have h: "ht_inv bridge_entry_key t" using inv by (simp add: tbl_inv_def)
  note i = index_lt [OF h k]
  note c = htm.content_store [OF h, of k i f]
  have "ht_inv bridge_entry_key (ht_set_body i f t)" "tbl_map (ht_set_body i f t) = (tbl_map t)(k \<mapsto> f (ht_body t i))"
    using c k f(1) by (simp_all add: tbl_map_content)
  moreover have "be_nhs (ht_set_body i f t) = be_nhs t" using i be_nhs_nth [OF i] f(2) by (simp add: be_nhs_set list_update_same_conv)
  moreover have "ht_body (ht_set_body i f t) = (ht_body t)(i := f (ht_body t i))" by (rule ht_set_body_body [OF i])
  ultimately show "tbl_inv L (ht_set_body i f t) s ext n" "tbl_map (ht_set_body i f t) = (tbl_map t)(k \<mapsto> f (ht_body t i))"
    using inv f(1) by (simp_all add: tbl_inv_def)
  show "br_index (ht_set_body i f t) = br_index t" using htm.store_update [OF h k, of f] f(1) by simp
qed

text \<open>Taking a new entry for an address.\<close>

lemma find_free_N: "vr_htable_find_free_hentry t k = Done (r, t') \<Longrightarrow> ht_N t' = ht_N t"
  by (auto simp: vr_htable_find_free_hentry_def vr_htable_get_free_oentry_def link_oentry_def Let_def split: option.splits if_splits prod.splits)

lemma tbl_take:
  assumes inv: "tbl_inv L t s ext n" and k: "br_index t k = None"
  shows "\<exists>r t'. vr_htable_find_free_hentry t k = Done (r, t') \<and> tbl_inv L t' s ext n \<and> tbl_map t' = tbl_map t \<and>
    (\<forall>i f. r = Some i \<longrightarrow> bridge_entry_key (f (ht_body t' i)) = Some k \<longrightarrow> be_nh (f (ht_body t' i)) = be_nh (ht_body t' i) \<longrightarrow>
       be_nh (ht_body t' i) = 0 \<and> tbl_inv L (ht_set_body i f t') s ext n \<and>
       br_index (ht_set_body i f t') k = Some i \<and> ht_body (ht_set_body i f t') i = f (ht_body t' i) \<and>
       tbl_map (ht_set_body i f t') = (tbl_map t)(k \<mapsto> f (ht_body t' i)))"
proof -
  have h: "ht_inv bridge_entry_key t" using inv by (simp add: tbl_inv_def)
  obtain r t' where r: "vr_htable_find_free_hentry t k = Done (r, t')" "br_index t' = br_index t" "ht_body t' = ht_body t"
    "ht_inv bridge_entry_key t'" "\<forall>i. r = Some i \<longrightarrow> ht_reserved bridge_entry_key t' k i"
    using htm.take_done [OF h, of k] by blast
  have N: "ht_N t' = ht_N t" by (rule find_free_N [OF r(1)])
  have i': "tbl_inv L t' s ext n" using inv N r(3,4) be_nhs_cong [OF N r(3)] by (simp add: tbl_inv_def)
  have m: "tbl_map t' = tbl_map t" by (rule ext) (simp add: tbl_map_def r(2,3))
  have "be_nh (ht_body t' i) = 0 \<and> tbl_inv L (ht_set_body i f t') s ext n \<and> br_index (ht_set_body i f t') k = Some i \<and>
      ht_body (ht_set_body i f t') i = f (ht_body t' i) \<and> tbl_map (ht_set_body i f t') = (tbl_map t)(k \<mapsto> f (ht_body t' i))"
    if x: "r = Some i" and f: "bridge_entry_key (f (ht_body t' i)) = Some k" "be_nh (f (ht_body t' i)) = be_nh (ht_body t' i)" for i f
  proof -
    have res: "ht_reserved bridge_entry_key t' k i" using r(5) x by simp
    then have i: "i < ht_N t'" "bridge_entry_key (ht_body t' i) = None" by (auto simp: ht_reserved_def)
    have c: "ht_inv bridge_entry_key (ht_set_body i f t')" "tbl_map (ht_set_body i f t') = (tbl_map t')(k \<mapsto> f (ht_body t' i))"
      "br_index (ht_set_body i f t') k = Some i"
      using htm.content_store [OF r(4), of k i f] f(1) res k r(2) by (simp_all add: tbl_map_content)
    have "be_nhs (ht_set_body i f t') = be_nhs t'" using be_nhs_nth [OF i(1)] i(1) f(2) by (simp add: be_nhs_set list_update_same_conv)
    moreover have b: "ht_body (ht_set_body i f t') = (ht_body t')(i := f (ht_body t' i))" by (rule ht_set_body_body [OF i(1)])
    ultimately have "tbl_inv L (ht_set_body i f t') s ext n" using i' c(1) f(1) by (simp add: tbl_inv_def)
    moreover have "be_nh (ht_body t' i) = 0" using i' i by (simp add: tbl_inv_def)
    ultimately show ?thesis using b c m by simp
  qed
  then show ?thesis using r(1) i' m by blast
qed

text \<open>Replacing the nexthop of an entry.\<close>

lemma tbl_swap_nh:
  assumes inv: "tbl_inv L t s ext (Suc n)" and k: "br_index t k = Some i" and g: "vrouter_get_nexthop nid s = (nh, s1)"
    and f: "bridge_entry_key (f (ht_body t i)) = Some k" "be_nh (f (ht_body t i)) = nh"
    and old: "old = be_nh (ht_body t i)"
  shows "tbl_inv L (ht_set_body i f t) (if old = 0 then s1 else vrouter_put_nexthop old s1) ext n"
    "tbl_map (ht_set_body i f t) = (tbl_map t)(k \<mapsto> f (ht_body t i))" "br_index (ht_set_body i f t) = br_index t"
proof -
  have h: "ht_inv bridge_entry_key t" and gd: "nh_good L s (\<lambda>q. ext q + nhr.slots (be_nhs t) q) (Suc n)"
    using inv by (simp_all add: tbl_inv_def)
  note i = index_lt [OF h k]
  have c: "ht_inv bridge_entry_key (ht_set_body i f t)" "tbl_map (ht_set_body i f t) = (tbl_map t)(k \<mapsto> f (ht_body t i))"
    using htm.content_store [OF h, of k i f] k f(1) by (simp_all add: tbl_map_content)
  have "nh_good L (if old = 0 then s1 else vrouter_put_nexthop old s1) (\<lambda>q. ext q + nhr.slots (be_nhs (ht_set_body i f t)) q) n"
    unfolding be_nhs_set f(2) old be_nhs_nth [OF i, symmetric] by (rule nhr.swap_slots [OF gd _ g]) (simp add: i)
  moreover have "ht_body (ht_set_body i f t) = (ht_body t)(i := f (ht_body t i))" by (rule ht_set_body_body [OF i])
  ultimately show "tbl_inv L (ht_set_body i f t) (if old = 0 then s1 else vrouter_put_nexthop old s1) ext n"
    "tbl_map (ht_set_body i f t) = (tbl_map t)(k \<mapsto> f (ht_body t i))"
    using inv c f(1) by (simp_all add: tbl_inv_def)
  show "br_index (ht_set_body i f t) = br_index t" using htm.store_update [OF h k, of f] f(1) by simp
qed

section \<open>Adding an entry\<close>

lemma key_bytes_simps [simp]: "key_bytes (take VR_ETHER_ALEN mac) v = key_bytes mac v"
  by (simp add: key_bytes_def)

lemma be_flag_bits:
  "bit VR_BE_VALID_FLAG j \<longleftrightarrow> j = 0" "bit VR_BE_MAC_MOVED_FLAG j \<longleftrightarrow> j = 3" "bit VR_BE_MAC_NEW_FLAG j \<longleftrightarrow> j = 5"
  by (auto simp: be_flag_defs bit_numeral_rec bit_1_iff split: nat.splits)

lemma be_label_bit: "bit VR_BE_LABEL_VALID_FLAG j \<longleftrightarrow> j = 1"
  by (auto simp: be_flag_defs bit_numeral_rec bit_1_iff split: nat.splits)

lemma be_valid_bit: "f AND VR_BE_VALID_FLAG = 0 \<longleftrightarrow> \<not> bit f 0"
proof -
  have "f AND VR_BE_VALID_FLAG = 0 \<longleftrightarrow> (\<forall>j. \<not> bit (f AND VR_BE_VALID_FLAG) j)" by (metis bit_eqI bit_0_eq bot_apply bot_bool_def)
  then show ?thesis by (auto simp: bit_and_iff be_flag_bits)
qed

lemma be_key_cong:
  assumes "bridge_entry_key be = Some k" "be_mac be' = be_mac be" "be_vrf_id be' = be_vrf_id be" "bit (be_flags be') 0"
  shows "bridge_entry_key be' = Some k"
  using assms by (auto simp: bridge_entry_key_def be_valid_bit split: if_splits)

text \<open>What \<open>be_set_nh\<close> makes of an entry.\<close>

definition with_nh :: "nh_state \<Rightarrow> u32 \<Rightarrow> vr_bridge_entry \<Rightarrow> vr_bridge_entry" where
  "with_nh s nid be =
     (if be_nh_id be = nid then be
      else be\<lparr>be_nh := nh_tbl s nid, be_nh_id := (if nh_tbl s nid \<noteq> 0 then nh_id (nh_heap s ! nh_tbl s nid) else -1),
              be_flags := be_flags be AND NOT VR_BE_MAC_MOVED_FLAG\<rparr>)"

lemma nh_static_id:
  assumes "nh_static s = nh_static s'"
  shows "nh_id (nh_heap s ! p) = nh_id (nh_heap s' ! p)"
proof (cases "p < length (nh_heap s)")
  case True
  then show ?thesis using assms nth_map [of p "nh_heap s" "\<lambda>n. (nh_id n, nh_rid n, nh_type n)"]
      nth_map [of p "nh_heap s'" "\<lambda>n. (nh_id n, nh_rid n, nh_type n)"] nh_static_length [OF assms]
    by (simp add: nh_static_def)
next
  case False
  then have "nh_heap s ! p = [] ! (p - length (nh_heap s))" "nh_heap s' ! p = [] ! (p - length (nh_heap s))"
    using nh_static_length [OF assms] by (simp_all add: nth_append [of "nh_heap s" "[]", simplified] nth_append [of "nh_heap s'" "[]", simplified])
  then show ?thesis by simp
qed

lemma with_nh_static: "nh_static s = nh_static s' \<Longrightarrow> with_nh s = with_nh s'"
  using nh_static_tbl [of s s'] nh_static_id [of s s'] by (simp add: with_nh_def fun_eq_iff)

lemma with_nh_simps [simp]:
  "be_mac (with_nh s nid be) = be_mac be" "be_vrf_id (with_nh s nid be) = be_vrf_id be"
  "bit (be_flags (with_nh s nid be)) 0 = bit (be_flags be) 0" "be_label (with_nh s nid be) = be_label be"
  by (simp_all add: with_nh_def bit_and_iff bit_not_iff be_flag_bits)

lemma be_set_nh_spec:
  assumes t: "vn_rtable st = Some t" "tbl_inv L t (br_nh st) ext (Suc n)" and k: "br_index t k = Some i"
  obtains t' where "vn_rtable (be_set_nh nid i st) = Some t'" "tbl_inv L t' (br_nh (be_set_nh nid i st)) ext n"
    "tbl_map t' = (tbl_map t)(k \<mapsto> with_nh (br_nh st) nid (ht_body t i))" "br_index t' = br_index t"
    "nh_static (br_nh (be_set_nh nid i st)) = nh_static (br_nh st)"
proof (cases "be_nh_id (ht_body t i) = nid")
  case True
  then have st: "be_set_nh nid i st = st" using t(1) by (simp add: be_set_nh_def be_at_def)
  have "with_nh (br_nh st) nid (ht_body t i) = ht_body t i" using True by (simp add: with_nh_def)
  moreover have "(tbl_map t)(k \<mapsto> ht_body t i) = tbl_map t" using k by (auto simp: tbl_map_def)
  moreover have "tbl_inv L t (br_nh st) ext n" using t(2) nh_good_mono [of L "br_nh st" _ "Suc n" n] by (simp add: tbl_inv_def)
  ultimately show ?thesis using that [of t] st t(1) by simp
next
  case False
  obtain nh s1 where g: "vrouter_get_nexthop nid (br_nh st) = (nh, s1)" by (cases "vrouter_get_nexthop nid (br_nh st)")
  have nh: "nh = nh_tbl (br_nh st) nid" "nh_static s1 = nh_static (br_nh st)"
    using fst_get_nexthop [of nid "br_nh st"] nh_static_get [of nid "br_nh st"] g by simp_all
  define f where "f = (\<lambda>be :: vr_bridge_entry. be\<lparr>be_nh := nh, be_nh_id := (if nh \<noteq> 0 then nh_id (nh_heap s1 ! nh) else -1),
    be_flags := be_flags be AND NOT VR_BE_MAC_MOVED_FLAG\<rparr>)"
  have w: "f (ht_body t i) = with_nh (br_nh st) nid (ht_body t i)"
    using False nh nh_static_id [OF nh(2)] by (simp add: f_def with_nh_def)
  let ?old = "be_nh (ht_body t i)"
  have st: "be_set_nh nid i st = \<lparr>vn_rtable = Some (ht_set_body i f t), br_nh = (if ?old = 0 then s1 else vrouter_put_nexthop ?old s1)\<rparr>"
    using False t(1) g by (simp add: be_set_nh_def be_at_def be_upd_def f_def Let_def)
  have "bridge_entry_key (ht_body t i) = Some k" using t(2) k htm.index_key by (auto simp: tbl_inv_def)
  then have key: "bridge_entry_key (f (ht_body t i)) = Some k"
    using be_key_cong [of "ht_body t i" k "f (ht_body t i)"] by (simp add: w) (simp add: bridge_entry_key_def be_valid_bit split: if_splits)
  have nf: "be_nh (f (ht_body t i)) = nh" by (simp add: f_def)
  note s = tbl_swap_nh [OF t(2) k g, of f ?old, OF key nf refl]
  have "nh_static (br_nh (be_set_nh nid i st)) = nh_static (br_nh st)" using st nh(2) nh_static_put [of ?old s1] by simp
  then show ?thesis using that [of "ht_set_body i f t"] s w st by simp
qed

text \<open>The entry of an address, or a new one if it has none.\<close>

definition base_entry :: "(u8 list \<Rightarrow> vr_bridge_entry option) \<Rightarrow> u8 list \<Rightarrow> u32 \<Rightarrow> u8 list \<Rightarrow> vr_bridge_entry \<Rightarrow> bool" where
  "base_entry m k vrf mac e \<longleftrightarrow> (case m k of Some e0 \<Rightarrow> e = e0 | None \<Rightarrow> \<exists>e0. be_nh e0 = 0 \<and> e = be_init vrf mac e0)"

lemma bridge_add_spec:
  assumes t: "vn_rtable st = Some t" "tbl_inv L t (br_nh st) ext (Suc n)" and k: "k = key_bytes mac (ucast vrf)"
  obtains r st' t' where "bridge_add vrf mac nid st = Done (r, st')" "vn_rtable st' = Some t'" "tbl_inv L t' (br_nh st') ext n"
    "nh_static (br_nh st') = nh_static (br_nh st)"
    "r = None \<Longrightarrow> tbl_map t k = None \<and> tbl_map t' = tbl_map t"
    "\<And>i. r = Some i \<Longrightarrow> br_index t' k = Some i \<and>
       (\<exists>e. base_entry (tbl_map t) k vrf mac e \<and>
            tbl_map t' = (tbl_map t)(k \<mapsto> with_nh (br_nh st) nid e))"
proof -
  have h: "ht_inv bridge_entry_key t" using t(2) by (simp add: tbl_inv_def)
  have find: "vr_find_bridge_entry k st = Done (br_index t k)" using htm.find_index [OF h] t(1) by (simp add: vr_find_bridge_entry_def)
  show ?thesis
  proof (cases "br_index t k")
    case (Some i)
    obtain t' where t': "vn_rtable (be_set_nh nid i st) = Some t'" "tbl_inv L t' (br_nh (be_set_nh nid i st)) ext n"
      "tbl_map t' = (tbl_map t)(k \<mapsto> with_nh (br_nh st) nid (ht_body t i))" "br_index t' = br_index t"
      "nh_static (br_nh (be_set_nh nid i st)) = nh_static (br_nh st)" by (rule be_set_nh_spec [OF t Some])
    have "bridge_add vrf mac nid st = Done (Some i, be_set_nh nid i st)" using find Some k by (simp add: bridge_add_def)
    moreover have "tbl_map t k = Some (ht_body t i)" using Some by (simp add: tbl_map_def)
    ultimately show ?thesis using that [of "Some i" "be_set_nh nid i st" t'] t' Some by (auto simp: base_entry_def)
  next
    case None
    let ?f = "be_init vrf mac"
    obtain r t1 where r: "vr_htable_find_free_hentry t k = Done (r, t1)" "tbl_inv L t1 (br_nh st) ext (Suc n)" "tbl_map t1 = tbl_map t"
      and w: "\<And>i f. r = Some i \<Longrightarrow> bridge_entry_key (f (ht_body t1 i)) = Some k \<Longrightarrow> be_nh (f (ht_body t1 i)) = be_nh (ht_body t1 i) \<Longrightarrow>
        be_nh (ht_body t1 i) = 0 \<and> tbl_inv L (ht_set_body i f t1) (br_nh st) ext (Suc n) \<and> br_index (ht_set_body i f t1) k = Some i \<and>
        ht_body (ht_set_body i f t1) i = f (ht_body t1 i) \<and> tbl_map (ht_set_body i f t1) = (tbl_map t)(k \<mapsto> f (ht_body t1 i))"
      using tbl_take [OF t(2) None] by metis
    have free: "vr_find_free_bridge_entry vrf mac st = Done (r, st\<lparr>vn_rtable := Some t1\<rparr>)"
      using t(1) r(1) k by (simp add: vr_find_free_bridge_entry_def)
    have nk: "tbl_map t k = None" using None by (simp add: tbl_map_def)
    show ?thesis
    proof (cases r)
      case r0: None
      have "tbl_inv L t1 (br_nh st) ext n" using r(2) nh_good_mono [of L "br_nh st" _ "Suc n" n] by (simp add: tbl_inv_def)
      moreover have "bridge_add vrf mac nid st = Done (None, st\<lparr>vn_rtable := Some t1\<rparr>)"
        using find None k free r0 by (simp add: bridge_add_def)
      ultimately show ?thesis using that [of None "st\<lparr>vn_rtable := Some t1\<rparr>" t1] r(3) nk by simp
    next
      case ri: (Some i)
      have key: "bridge_entry_key (?f (ht_body t1 i)) = Some k" "be_nh (?f (ht_body t1 i)) = be_nh (ht_body t1 i)"
        using k by (simp_all add: bridge_entry_key_def be_init_def VR_BE_VALID_FLAG_def)
      note w' = w [OF ri, of ?f, OF key]
      let ?st = "be_upd i ?f (st\<lparr>vn_rtable := Some t1\<rparr>)"
      have st: "vn_rtable ?st = Some (ht_set_body i ?f t1)" "br_nh ?st = br_nh st" by (simp_all add: be_upd_def)
      obtain t' where t': "vn_rtable (be_set_nh nid i ?st) = Some t'" "tbl_inv L t' (br_nh (be_set_nh nid i ?st)) ext n"
        "tbl_map t' = (tbl_map (ht_set_body i ?f t1))(k \<mapsto> with_nh (br_nh ?st) nid (ht_body (ht_set_body i ?f t1) i))"
        "br_index t' = br_index (ht_set_body i ?f t1)" "nh_static (br_nh (be_set_nh nid i ?st)) = nh_static (br_nh ?st)"
        by (rule be_set_nh_spec [OF st(1), of L ext n k i nid]) (use w' st in auto)
      have "bridge_add vrf mac nid st = Done (Some i, be_set_nh nid i ?st)"
        using find None k free ri by (simp add: bridge_add_def)
      moreover have "tbl_map t' = (tbl_map t)(k \<mapsto> with_nh (br_nh st) nid (?f (ht_body t1 i)))" using t'(3) w' st by simp
      ultimately show ?thesis using that [of "Some i" "be_set_nh nid i ?st" t'] t' w' st nk by (auto simp: base_entry_def)
    qed
  qed
qed

text \<open>A request takes a reference of its own while it runs.\<close>

lemma tbl_inv_get:
  assumes "tbl_inv L t s ext (Suc n)" "vrouter_get_nexthop nid s = (nh, s1)" "nh \<noteq> 0"
  shows "tbl_inv L t s1 (\<lambda>q. ext q + of_bool (q = nh)) n"
  using assms nhr.get_good [of L s "\<lambda>q. ext q + nhr.slots (be_nhs t) q" n nid nh s1] by (simp add: tbl_inv_def ac_simps)

lemma tbl_inv_put:
  assumes "tbl_inv L t s (\<lambda>q. ext q + of_bool (q = nh)) n"
  shows "tbl_inv L t (vrouter_put_nexthop nh s) ext n"
  using assms nhr.put_good [of L s "\<lambda>q. ext q + nhr.slots (be_nhs t) q" nh n] by (simp add: tbl_inv_def ac_simps)

lemma no_nexthop_m1: "nh_tbl s (-1) = 0"
proof -
  have "vr_max_nexthops s \<le> -1" by (rule word_order.extremum)
  then show ?thesis by (simp add: nh_tbl_def get_nexthop_raw_def)
qed

text \<open>What an add request makes of an entry that holds its nexthop already.\<close>

definition with_req :: "vr_route_req \<Rightarrow> vr_bridge_entry \<Rightarrow> vr_bridge_entry" where
  "with_req rt be =
     (let flags = VR_BRIDGE_FLAG_MASK (rtr_label_flags rt);
          be = (if flags AND VR_BE_LABEL_VALID_FLAG \<noteq> 0 then be\<lparr>be_label := rtr_label rt\<rparr> else be)
      in be\<lparr>be_flags := VR_BE_VALID_FLAG OR flags\<rparr>)"

lemma with_req_simps [simp]:
  "be_mac (with_req rt be) = be_mac be" "be_vrf_id (with_req rt be) = be_vrf_id be" "be_nh (with_req rt be) = be_nh be"
  "be_nh_id (with_req rt be) = be_nh_id be" "be_flags (with_req rt be) = VR_BE_VALID_FLAG OR VR_BRIDGE_FLAG_MASK (rtr_label_flags rt)"
  by (simp_all add: with_req_def Let_def)

lemma set_body_comp: "i < ht_N t \<Longrightarrow> ht_set_body i g (ht_set_body i f t) = ht_set_body i (\<lambda>b. g (f b)) t"
  by (simp add: ht_set_body_def comp_def)

lemma bridge_table_add_raw_spec:
  assumes t: "vn_rtable st = Some t" "tbl_inv L t (br_nh st) ext (Suc n)" and k: "k = key_bytes (rtr_mac rt) (ucast (rtr_vrf_id rt))"
  obtains ret rt' st' t' where "bridge_table_add_raw rt st = Done (ret, rt', st')" "vn_rtable st' = Some t'"
    "tbl_inv L t' (br_nh st') ext n" "nh_static (br_nh st') = nh_static (br_nh st)" "rtr_nh rt' = rtr_nh rt"
    "ret = RetErr ENOMEM \<and> tbl_map t k = None \<and> tbl_map t' = tbl_map t \<or>
     ret = RetOk \<and> (\<exists>e. base_entry (tbl_map t) k (rtr_vrf_id rt) (rtr_mac rt) e \<and>
       tbl_map t' = (tbl_map t)(k \<mapsto> with_req rt (with_nh (br_nh st) (rtr_nh_id rt) e)))"
proof -
  obtain r st1 t1 where a: "bridge_add (rtr_vrf_id rt) (rtr_mac rt) (rtr_nh_id rt) st = Done (r, st1)" "vn_rtable st1 = Some t1"
    "tbl_inv L t1 (br_nh st1) ext n" "nh_static (br_nh st1) = nh_static (br_nh st)"
    "r = None \<Longrightarrow> tbl_map t k = None \<and> tbl_map t1 = tbl_map t"
    and b: "\<And>i. r = Some i \<Longrightarrow> br_index t1 k = Some i \<and>
       (\<exists>e. base_entry (tbl_map t) k (rtr_vrf_id rt) (rtr_mac rt) e \<and>
            tbl_map t1 = (tbl_map t)(k \<mapsto> with_nh (br_nh st) (rtr_nh_id rt) e))"
    by (rule bridge_add_spec [OF t k, where nid = "rtr_nh_id rt"]) blast
  show ?thesis
  proof (cases r)
    case None
    then have "bridge_table_add_raw rt st = Done (RetErr ENOMEM, rt, st1)" using a(1) by (simp add: bridge_table_add_raw_def)
    then show ?thesis using that [of "RetErr ENOMEM" rt st1 t1] a(2-5) None by simp
  next
    case (Some i)
    obtain e where i: "br_index t1 k = Some i" and e: "base_entry (tbl_map t) k (rtr_vrf_id rt) (rtr_mac rt) e"
      "tbl_map t1 = (tbl_map t)(k \<mapsto> with_nh (br_nh st) (rtr_nh_id rt) e)" using b [OF Some] by blast
    have h: "ht_inv bridge_entry_key t1" using a(3) by (simp add: tbl_inv_def)
    have body: "ht_body t1 i = with_nh (br_nh st) (rtr_nh_id rt) e" using fun_cong [OF e(2), of k] i by (simp add: tbl_map_def)
    have key: "bridge_entry_key (ht_body t1 i) = Some k" using htm.index_key [OF h i] .
    have key': "bridge_entry_key (with_req rt (ht_body t1 i)) = Some k"
      by (rule be_key_cong [OF key]) (simp_all add: bit_or_iff be_flag_bits)
    let ?t = "ht_set_body i (with_req rt) t1"
    note w = tbl_set_field [OF a(3) i, of "with_req rt", OF key']
    have "be_upd i (\<lambda>be. be\<lparr>be_flags := VR_BE_VALID_FLAG OR VR_BRIDGE_FLAG_MASK (rtr_label_flags rt)\<rparr>)
        (if VR_BRIDGE_FLAG_MASK (rtr_label_flags rt) AND VR_BE_LABEL_VALID_FLAG \<noteq> 0 then be_upd i (\<lambda>be. be\<lparr>be_label := rtr_label rt\<rparr>) st1 else st1)
      = st1\<lparr>vn_rtable := Some ?t\<rparr>"
      using a(2) set_body_comp [OF index_lt [OF h i]] by (simp add: be_upd_def with_req_def [abs_def] Let_def)
    then obtain rt' where "bridge_table_add_raw rt st = Done (RetOk, rt', st1\<lparr>vn_rtable := Some ?t\<rparr>)" "rtr_nh rt' = rtr_nh rt"
      using a(1) Some by (simp add: bridge_table_add_raw_def Let_def cong: if_cong)
    then show ?thesis using that [of RetOk rt' "st1\<lparr>vn_rtable := Some ?t\<rparr>" ?t] w a(4) e body by auto
  qed
qed

section \<open>Deleting an entry\<close>

text \<open>Releasing a cleared entry changes no record.\<close>

lemma release_same:
  assumes "ht_inv gk t" "ht_index gk t k = Some i" "gk (f (ht_body t i)) = None"
  shows "\<exists>t'. vr_htable_release_hentry nr sok i (ht_set_body i f t) = Done t' \<and> ht_inv gk t' \<and>
    ht_index gk t' = ht_index gk (ht_set_body i f t) \<and> ht_body t' = ht_body (ht_set_body i f t) \<and> ht_N t' = ht_N t"
proof -
  obtain t' where t': "vr_htable_release_hentry nr sok i (ht_set_body i f t) = Done t'" "ht_inv gk t'"
    "ht_index gk t' = ht_index gk (ht_set_body i f t)" "ht_body t' = ht_body (ht_set_body i f t)"
    using ht_release [OF assms(1,2), of f nr sok] assms(3) by blast
  have "ht_N t' = ht_N (ht_set_body i f t)" using t'(1)
    by (auto simp: vr_htable_release_hentry_def Let_def split: if_splits option.splits)
  then show ?thesis using t' by simp
qed

text \<open>What \<open>bridge_table_entry_free\<close> leaves in the memory of the entry.\<close>

definition be_freed :: "vr_bridge_entry \<Rightarrow> vr_bridge_entry" where
  "be_freed be =
     (let be' = be\<lparr>be_flags := be_flags be AND NOT VR_BE_VALID_FLAG\<rparr>;
          be' = (if be_nh be = 0 then be' else be'\<lparr>be_nh := 0, be_nh_id := -1\<rparr>)
      in be'\<lparr>be_packets := 0\<rparr>)"

lemma be_freed_simps [simp]: "bridge_entry_key (be_freed be) = None" "be_nh (be_freed be) = 0"
  by (simp_all add: be_freed_def Let_def bridge_entry_key_def be_valid_bit bit_and_iff bit_not_iff be_flag_bits)

lemma set_body_cong:
  assumes "f (ht_body t i) = g (ht_body t i)"
  shows "ht_set_body i f t = ht_set_body i g t"
proof -
  have "hentry_body_update h e = e\<lparr>hentry_body := h (hentry_body e)\<rparr>" for h and e :: "'a vr_hentry" by simp
  then show ?thesis using assms unfolding ht_set_body_def ht_body_def by metis
qed

lemma entry_free_eq:
  assumes "vn_rtable st = Some t" "i < ht_N t"
  shows "bridge_table_entry_free sok i st =
    (let nh = be_nh (ht_body t i); s = (if nh = 0 then br_nh st else vrouter_put_nexthop nh (br_nh st))
     in exec_bind (vr_htable_release_hentry (vr_not_ready s) sok i (ht_set_body i be_freed t))
          (\<lambda>t. Done \<lparr>vn_rtable = Some t, br_nh = s\<rparr>))"
proof (cases "be_nh (ht_body t i) = 0")
  case True
  let ?g = "\<lambda>be :: vr_bridge_entry. be\<lparr>be_flags := be_flags be AND NOT VR_BE_VALID_FLAG, be_packets := 0\<rparr>"
  have "ht_set_body i ?g t = ht_set_body i be_freed t"
    by (rule set_body_cong) (simp add: be_freed_def True)
  then show ?thesis using True assms set_body_comp [OF assms(2)]
    by (cases st) (simp add: bridge_table_entry_free_def be_at_def be_upd_def Let_def)
next
  case False
  let ?g = "\<lambda>be :: vr_bridge_entry. be\<lparr>be_flags := be_flags be AND NOT VR_BE_VALID_FLAG, be_nh := 0, be_nh_id := -1, be_packets := 0\<rparr>"
  have "ht_set_body i ?g t = ht_set_body i be_freed t"
    by (rule set_body_cong) (use False in \<open>simp add: be_freed_def Let_def\<close>)
  then show ?thesis using False assms set_body_comp [OF assms(2)]
    by (cases st) (simp add: bridge_table_entry_free_def be_at_def be_upd_def Let_def)
qed

lemma entry_free_spec:
  assumes t: "vn_rtable st = Some t" "tbl_inv L t (br_nh st) ext n" and k: "br_index t k = Some i"
  obtains st' t' where "bridge_table_entry_free sok i st = Done st'" "vn_rtable st' = Some t'" "tbl_inv L t' (br_nh st') ext n"
    "nh_static (br_nh st') = nh_static (br_nh st)" "tbl_map t' = (tbl_map t)(k := None)"
proof -
  have h: "ht_inv bridge_entry_key t" and g: "nh_good L (br_nh st) (\<lambda>q. ext q + nhr.slots (be_nhs t) q) n"
    using t(2) by (simp_all add: tbl_inv_def)
  note i = index_lt [OF h k]
  define s where "s = (if be_nh (ht_body t i) = 0 then br_nh st else vrouter_put_nexthop (be_nh (ht_body t i)) (br_nh st))"
  let ?t = "ht_set_body i be_freed t"
  obtain t' where t': "vr_htable_release_hentry (vr_not_ready s) sok i ?t = Done t'" "ht_inv bridge_entry_key t'"
    "br_index t' = br_index ?t" "ht_body t' = ht_body ?t" "ht_N t' = ht_N ?t"
    using release_same [OF h k, of be_freed "vr_not_ready s" sok] by auto
  have b: "ht_body ?t = (ht_body t)(i := be_freed (ht_body t i))" by (rule ht_set_body_body [OF i])
  have x: "br_index ?t = (br_index t)(k := None)" using htm.store_clear [OF h k, of be_freed] by simp
  have "be_nhs t' = (be_nhs t)[i := 0]" using be_nhs_cong [OF t'(5,4)] by (simp add: be_nhs_set)
  moreover have "nh_good L s (\<lambda>q. ext q + nhr.slots ((be_nhs t)[i := 0]) q) n"
    unfolding s_def be_nhs_nth [OF i, symmetric] by (rule nhr.clear_slots [OF g]) (simp add: i)
  ultimately have "tbl_inv L t' s ext n" using t(2) t' b by (simp add: tbl_inv_def)
  moreover have "tbl_map t' = (tbl_map t)(k := None)"
  proof
    fix k'
    have "j \<noteq> i" if "br_index t k' = Some j" "k' \<noteq> k" for j using htm.index_key [OF h k] htm.index_key [OF h that(1)] that(2) by auto
    then show "tbl_map t' k' = ((tbl_map t)(k := None)) k'"
      using t'(3,4) x b by (cases "k' = k"; cases "br_index t k'") (auto simp: tbl_map_def)
  qed
  moreover have "bridge_table_entry_free sok i st = Done \<lparr>vn_rtable = Some t', br_nh = s\<rparr>"
    using entry_free_eq [OF t(1) i] t'(1) by (simp add: s_def Let_def)
  moreover have "nh_static s = nh_static (br_nh st)" by (simp add: s_def nh_static_put)
  ultimately show ?thesis using that [of "\<lparr>vn_rtable = Some t', br_nh = s\<rparr>" t'] by simp
qed

section \<open>Adding an entry on request\<close>

lemma bridge_table_add_spec:
  assumes "br_inv L st ext (Suc (Suc n))" "k = key_bytes (rtr_mac rt) (ucast (rtr_vrf_id rt))" "s = br_nh st" "nid = rtr_nh_id rt"
  shows "\<exists>ret rt' st'. bridge_table_add rt st = Done (ret, rt', st') \<and> br_inv L st' ext n \<and> nh_tbl (br_nh st') = nh_tbl s \<and>
    (if vn_rtable st = None \<or> length (rtr_mac rt) \<noteq> VR_ETHER_ALEN \<or> IS_MAC_ZERO (rtr_mac rt) then ret = RetErr EINVAL \<and> st' = st
     else if nh_tbl s nid = 0 then ret = RetErr ENOENT \<and> br_map st' = br_map st
     else ret = RetErr ENOMEM \<and> br_map st k = None \<and> br_map st' = br_map st \<or>
       ret = RetOk \<and> (\<exists>e. br_map st' = (br_map st)(k \<mapsto> e) \<and>
         be_nh e = (case br_map st k of Some e0 \<Rightarrow> if be_nh_id e0 = nid then be_nh e0 else nh_tbl s nid | None \<Rightarrow> nh_tbl s nid) \<and>
         be_flags e = VR_BE_VALID_FLAG OR VR_BRIDGE_FLAG_MASK (rtr_label_flags rt) \<and>
         (rtr_label_flags rt AND VR_BE_LABEL_VALID_FLAG \<noteq> 0 \<longrightarrow> be_label e = rtr_label rt)))"
proof (cases "vn_rtable st = None \<or> length (rtr_mac rt) \<noteq> VR_ETHER_ALEN \<or> IS_MAC_ZERO (rtr_mac rt)")
  case True
  have "br_inv L st ext n"
    using assms(1) nh_good_mono [of L "br_nh st" _ "Suc (Suc n)" n] by (auto simp: br_inv_def tbl_inv_def split: option.splits)
  then show ?thesis using True assms(3) by (auto simp: bridge_table_add_def)
next
  case ok: False
  then obtain t where t: "vn_rtable st = Some t" "tbl_inv L t s ext (Suc (Suc n))" using assms(1,3) by (auto simp: br_inv_def)
  obtain nh s1 where g: "vrouter_get_nexthop nid s = (nh, s1)" by (cases "vrouter_get_nexthop nid s")
  have nh: "nh = nh_tbl s nid" "nh_static s1 = nh_static s" using fst_get_nexthop [of nid s] nh_static_get [of nid s] g by simp_all
  show ?thesis
  proof (cases "nh = 0")
    case True
    have "s1 = s" using nhr.get_null [of L s _ "Suc (Suc n)" nid s1] t(2) g True unfolding tbl_inv_def by blast
    moreover have "tbl_inv L t s ext n" using t(2) nh_good_mono [of L s _ "Suc (Suc n)" n] by (simp add: tbl_inv_def)
    ultimately show ?thesis using ok t(1) g True nh(1) assms(3,4)
      by (auto simp: bridge_table_add_def br_inv_def br_map_def)
  next
    case False
    let ?st = "st\<lparr>br_nh := s1\<rparr>" and ?rt = "rt\<lparr>rtr_nh := nh\<rparr>"
    have i1: "tbl_inv L t (br_nh ?st) (\<lambda>q. ext q + of_bool (q = nh)) (Suc n)" using tbl_inv_get [OF t(2) g False] by simp
    obtain ret rt' st' t' where a: "bridge_table_add_raw ?rt ?st = Done (ret, rt', st')" "vn_rtable st' = Some t'"
      "tbl_inv L t' (br_nh st') (\<lambda>q. ext q + of_bool (q = nh)) n" "nh_static (br_nh st') = nh_static s1" "rtr_nh rt' = nh"
      "ret = RetErr ENOMEM \<and> tbl_map t k = None \<and> tbl_map t' = tbl_map t \<or>
       ret = RetOk \<and> (\<exists>e. base_entry (tbl_map t) k (rtr_vrf_id rt) (rtr_mac rt) e \<and> tbl_map t' = (tbl_map t)(k \<mapsto> with_req ?rt (with_nh s1 nid e)))"
      by (rule bridge_table_add_raw_spec [of ?st t L "\<lambda>q. ext q + of_bool (q = nh)" n k ?rt]) (use t(1) i1 assms(2,4) in auto)
    let ?st' = "st'\<lparr>br_nh := vrouter_put_nexthop nh (br_nh st')\<rparr>"
    have run: "bridge_table_add rt st = Done (ret, rt', ?st')"
      using ok t(1) g False a(1,5) assms(3,4) by (simp add: bridge_table_add_def Let_def)
    have "tbl_inv L t' (br_nh ?st') ext n" using tbl_inv_put [OF a(3)] by simp
    then have inv: "br_inv L ?st' ext n" using a(2) by (simp add: br_inv_def)
    have m: "br_map st = tbl_map t" "br_map ?st' = tbl_map t'" using t(1) a(2) by (simp_all add: br_map_def)
    have tb: "nh_tbl (br_nh ?st') = nh_tbl s" using nh_static_tbl [of "vrouter_put_nexthop nh (br_nh st')" s] nh_static_put [of nh "br_nh st'"] a(4) nh(2) by simp
    have ws: "with_nh s1 = with_nh s" by (rule with_nh_static [OF nh(2)])
    have "nid \<noteq> -1" using nh(1) False no_nexthop_m1 [of s] by auto
    then have "be_nh (with_nh s nid e) = (case tbl_map t k of Some e0 \<Rightarrow> if be_nh_id e0 = nid then be_nh e0 else nh_tbl s nid | None \<Rightarrow> nh_tbl s nid)"
      if "base_entry (tbl_map t) k (rtr_vrf_id rt) (rtr_mac rt) e" for e
      using that by (auto simp: base_entry_def with_nh_def be_init_def split: option.splits)
    moreover have "VR_BRIDGE_FLAG_MASK f AND VR_BE_LABEL_VALID_FLAG = f AND VR_BE_LABEL_VALID_FLAG" for f
      by (rule bit_eqI) (auto simp: VR_BRIDGE_FLAG_MASK_def bit_and_iff bit_not_iff bit_or_iff be_flag_bits be_label_bit)
    ultimately show ?thesis using a(6) run inv m tb ok nh(1) False assms(3) unfolding ws
      by (auto simp: with_req_def Let_def)
  qed
qed

section \<open>Properties\<close>

text \<open>C4: Adding a MAC entry refines the update of the map of MAC addresses. A request without a table
  or with a bad address is refused and changes nothing, one with an unknown nexthop or without room
  changes no entry; any other sets the entry of its address to the nexthop, the label and the flags
  of the request, and no other entry. An entry that holds the number of the nexthop already keeps its
  nexthop. In all cases the reference counts are exactly one reference per entry with a nexthop beside those of
  the others: a nexthop that is replaced loses its reference.\<close>

theorem bridge_table_add_refines:
  assumes "br_inv L st ext (Suc (Suc n))" "k = key_bytes (rtr_mac rt) (ucast (rtr_vrf_id rt))" "s = br_nh st" "nid = rtr_nh_id rt"
  shows "\<exists>ret rt' st'. bridge_table_add rt st = Done (ret, rt', st') \<and> br_inv L st' ext n \<and> nh_tbl (br_nh st') = nh_tbl s \<and>
    (if vn_rtable st = None \<or> length (rtr_mac rt) \<noteq> VR_ETHER_ALEN \<or> IS_MAC_ZERO (rtr_mac rt) then ret = RetErr EINVAL \<and> st' = st
     else if nh_tbl s nid = 0 then ret = RetErr ENOENT \<and> br_map st' = br_map st
     else ret = RetErr ENOMEM \<and> br_map st k = None \<and> br_map st' = br_map st \<or>
       ret = RetOk \<and> (\<exists>e. br_map st' = (br_map st)(k \<mapsto> e) \<and>
         be_nh e = (case br_map st k of Some e0 \<Rightarrow> if be_nh_id e0 = nid then be_nh e0 else nh_tbl s nid | None \<Rightarrow> nh_tbl s nid) \<and>
         be_flags e = VR_BE_VALID_FLAG OR VR_BRIDGE_FLAG_MASK (rtr_label_flags rt) \<and>
         (rtr_label_flags rt AND VR_BE_LABEL_VALID_FLAG \<noteq> 0 \<longrightarrow> be_label e = rtr_label rt)))"
  by (rule bridge_table_add_spec [OF assms])

text \<open>A table of four main and two overflow entries, with the discard nexthop as the only one.\<close>

definition ex_be :: vr_bridge_entry where
  "ex_be = \<lparr>be_mac = [], be_vrf_id = 0, be_nh = 0, be_packets = 0, be_label = 0, be_nh_id = 0, be_flags = 0\<rparr>"

definition ex_br_table :: "vr_bridge_entry vr_htable" where
  "ex_br_table = the (vr_htable_create_raw True (\<lambda>_. Some ex_btable) (\<lambda>_. Some ex_btable) (\<lambda>_. Some ex_btable)
     (replicate 6 \<lparr>hentry_next = None, hentry_index = 0, hentry_bucket_index = 0, hentry_next_index = 0, hentry_flags = 0,
        hentry_body = ex_be\<rparr>) 3 2 64 8 0)"

definition ex_br :: br_state where
  "ex_br = \<lparr>vn_rtable = Some ex_br_table, br_nh = nh_ex\<rparr>"

definition ex_br_req :: vr_route_req where
  "ex_br_req = (stack_req (replicate 6 255) 7)\<lparr>rtr_label := 5, rtr_label_flags := 2\<rparr>"

lemma ex_br_reach: "ht_reach bridge_entry_key ex_br_table"
proof (rule ht_created)
  show "vr_htable_create_raw True (\<lambda>_. Some ex_btable) (\<lambda>_. Some ex_btable) (\<lambda>_. Some ex_btable)
     (replicate 6 \<lparr>hentry_next = None, hentry_index = 0, hentry_bucket_index = 0, hentry_next_index = 0, hentry_flags = 0,
        hentry_body = ex_be\<rparr>) 3 2 64 8 0 = Some ex_br_table"
    by (simp add: ex_br_table_def vr_htable_create_raw_def Let_def)
qed (simp_all add: ex_round nth_replicate ex_be_def bridge_entry_key_def)

lemma ex_br_body: "ht_N ex_br_table = 6" "i < 6 \<Longrightarrow> ht_body ex_br_table i = ex_be" "i < 6 \<Longrightarrow> \<not> hentry_valid (ht_ents ex_br_table ! i)"
proof -
  have e: "ht_ents ex_br_table = map (\<lambda>i. init_hentry 4 2 i \<lparr>hentry_next = None, hentry_index = 0, hentry_bucket_index = 0,
      hentry_next_index = 0, hentry_flags = 0, hentry_body = ex_be\<rparr>) [0..<6]"
    by (simp add: ex_br_table_def vr_htable_create_raw_def ex_round Let_def nth_replicate upt_rec)
  show "ht_N ex_br_table = 6" "i < 6 \<Longrightarrow> ht_body ex_br_table i = ex_be" "i < 6 \<Longrightarrow> \<not> hentry_valid (ht_ents ex_br_table ! i)"
    by (simp_all add: e ht_body_def hentry_valid_bit bit_or_iff)
qed

lemma ex_br_inv: "br_inv (2, True) ex_br (\<lambda>_. 0) 1000"
proof -
  have "be_nhs ex_br_table = replicate 6 0"
    by (rule nth_equalityI) (simp_all add: be_nhs_nth ex_br_body ex_be_def)
  then have "nhr.slots (be_nhs ex_br_table) q = 0" for q by (cases "q = 0") (simp_all add: nhr.slots_def count_list_0_iff)
  then show ?thesis using ht_reach_inv [OF ex_br_reach] nh_ex_good
    by (simp add: br_inv_def ex_br_def tbl_inv_def ex_br_body ex_be_def)
qed

lemma ex_br_empty: "br_map ex_br k = None"
proof -
  have "br_index ex_br_table k = None" by (auto simp: ht_index_None ex_br_body(1) ht_body_def [symmetric] ex_br_body(2) ex_be_def bridge_entry_key_def)
  then show ?thesis by (simp add: br_map_def ex_br_def tbl_map_def)
qed

lemma ex_br_free: "\<exists>t. vr_htable_find_free_hentry ex_br_table k = Done (Some (hd (bucket_entries ex_br_table k)), t)"
proof -
  have s: "ht_hentries ex_br_table = 4" "ht_bucket_size ex_br_table = 4"
    by (simp_all add: ex_br_table_def vr_htable_create_raw_def ex_round VR_HENTRIES_PER_BUCKET_def Let_def)
  have "bucket_tail ex_br_table k = 3" by (simp add: bucket_tail_def s)
  then have "bucket_entries ex_br_table k = [0, 1, 2, 3]" using bucket_entries_eq(1) [of ex_br_table k] s by (simp add: upt_rec)
  then show ?thesis using s ex_br_body(1) ex_br_body(3) [of 0]
    by (simp add: vr_htable_find_free_hentry_def)
qed

lemma ex_br_add_ok: "\<exists>rt' st'. bridge_table_add ex_br_req ex_br = Done (RetOk, rt', st')"
proof -
  have h: "ht_inv bridge_entry_key ex_br_table" using ht_reach_inv [OF ex_br_reach] .
  have "br_index ex_br_table k = None" for k using ex_br_empty [of k] by (simp add: br_map_def ex_br_def tbl_map_def)
  then have find: "vr_htable_find_hentry bridge_entry_key ex_br_table k = Done None" for k using htm.find_index [OF h] by simp
  obtain s1 where g: "vrouter_get_nexthop 0 nh_ex = (1, s1)"
    using fst_get_nexthop [of 0 nh_ex] nh_ex_inv(2) by (cases "vrouter_get_nexthop 0 nh_ex") (simp add: NH_DISCARD_ID_def)
  obtain t where t: "vr_htable_find_free_hentry ex_br_table (key_bytes (replicate 6 255) 7) =
    Done (Some (hd (bucket_entries ex_br_table (key_bytes (replicate 6 255) 7))), t)" using ex_br_free by blast
  show ?thesis
    using find t g by (simp add: bridge_table_add_def bridge_table_add_raw_def bridge_add_def vr_find_bridge_entry_def
        vr_find_free_bridge_entry_def ex_br_def ex_br_req_def stack_req_def VR_ETHER_ALEN_def IS_MAC_ZERO_def Let_def)
qed

theorem bridge_table_add_refines_witness:
  "\<exists>rt' st' e. bridge_table_add ex_br_req ex_br = Done (RetOk, rt', st') \<and> br_map st' = [key_bytes (replicate 6 255) 7 \<mapsto> e] \<and>
     be_nh e = 1 \<and> be_label e = 5"
proof -
  obtain rt' st' where r: "bridge_table_add ex_br_req ex_br = Done (RetOk, rt', st')" using ex_br_add_ok by blast
  have m: "br_map ex_br = Map.empty" using ex_br_empty by auto
  have "nh_tbl nh_ex 0 = 1" using nh_ex_inv(2) by (simp add: NH_DISCARD_ID_def)
  then show ?thesis
    using bridge_table_add_refines [of "(2, True)" ex_br "\<lambda>_. 0" 998 "key_bytes (replicate 6 255) 7" ex_br_req nh_ex 0] ex_br_inv r
    unfolding m
    by (auto simp: ex_br_req_def stack_req_def VR_ETHER_ALEN_def IS_MAC_ZERO_def ex_br_def VR_BE_LABEL_VALID_FLAG_def)
qed

end
