(* ===== verification/VR_Bridge_Learn.thy ===== *)
theory VR_Bridge_Learn
  imports VR_Bridge_Props
begin

text \<open>
  Deleting and looking up MAC entries, the lock of an interface and the learning of source addresses,
  on the map of the MAC table.
\<close>

section \<open>Deletion and lookup\<close>

lemma bridge_table_delete_run:
  assumes "br_inv L st ext n" "k = key_bytes (rtr_mac rt) (ucast (rtr_vrf_id rt))"
  shows "\<exists>ret st'. bridge_table_delete sok rt st = Done (ret, st') \<and> br_inv L st' ext n \<and> nh_tbl (br_nh st') = nh_tbl (br_nh st) \<and>
    (if vn_rtable st = None \<or> length (rtr_mac rt) \<noteq> VR_ETHER_ALEN then ret = RetErr EINVAL \<and> st' = st
     else if br_map st k = None then ret = RetErr ENOENT \<and> st' = st
     else ret = RetOk \<and> br_map st' = (br_map st)(k := None))"
proof (cases "vn_rtable st = None \<or> length (rtr_mac rt) \<noteq> VR_ETHER_ALEN")
  case True
  then show ?thesis using assms(1) by (auto simp: bridge_table_delete_def)
next
  case False
  then obtain t where t: "vn_rtable st = Some t" "tbl_inv L t (br_nh st) ext n" using assms(1) by (auto simp: br_inv_def)
  have h: "ht_inv bridge_entry_key t" using t(2) by (simp add: tbl_inv_def)
  have find: "vr_find_bridge_entry k st = Done (br_index t k)" using htm.find_index [OF h] t(1) by (simp add: vr_find_bridge_entry_def)
  have m: "br_map st = tbl_map t" using t(1) by (simp add: br_map_def)
  show ?thesis
  proof (cases "br_index t k")
    case None
    then show ?thesis using False find m assms by (auto simp: bridge_table_delete_def tbl_map_def)
  next
    case (Some i)
    obtain st' t' where s: "bridge_table_entry_free sok i st = Done st'" "vn_rtable st' = Some t'" "tbl_inv L t' (br_nh st') ext n"
      "nh_static (br_nh st') = nh_static (br_nh st)" "tbl_map t' = (tbl_map t)(k := None)" by (rule entry_free_spec [OF t Some])
    have "bridge_table_delete sok rt st = Done (RetOk, st')" using False find Some s(1) assms(2) by (simp add: bridge_table_delete_def)
    then show ?thesis using s False m Some nh_static_tbl [OF s(4)] by (auto simp: br_inv_def br_map_def tbl_map_def)
  qed
qed

text \<open>C5: Deleting a MAC entry refines the removal of its address from the map. A request without a table
  or with a bad address is refused, one for an unknown address fails, and neither changes anything; any
  other removes the entry of its address and drops its reference to the nexthop: the reference counts
  are exactly one reference per entry that is left beside those of the others.\<close>

theorem bridge_table_delete_refines:
  assumes "br_inv L st ext n" "k = key_bytes (rtr_mac rt) (ucast (rtr_vrf_id rt))"
  shows "\<exists>ret st'. bridge_table_delete sok rt st = Done (ret, st') \<and> br_inv L st' ext n \<and> nh_tbl (br_nh st') = nh_tbl (br_nh st) \<and>
    (if vn_rtable st = None \<or> length (rtr_mac rt) \<noteq> VR_ETHER_ALEN then ret = RetErr EINVAL \<and> st' = st
     else if br_map st k = None then ret = RetErr ENOENT \<and> st' = st
     else ret = RetOk \<and> br_map st' = (br_map st)(k := None))"
  by (rule bridge_table_delete_run [OF assms])

text \<open>The example table with one entry.\<close>

definition ex_br1 :: br_state where
  "ex_br1 = snd (snd (case bridge_table_add ex_br_req ex_br of Done r \<Rightarrow> r))"

lemma ex_br1_props: "br_inv (2, True) ex_br1 (\<lambda>_. 0) 998" "vn_rtable ex_br1 \<noteq> None"
  "\<exists>e. br_map ex_br1 = [key_bytes (replicate 6 255) 7 \<mapsto> e] \<and> be_nh e = 1"
proof -
  obtain rt' where r: "bridge_table_add ex_br_req ex_br = Done (RetOk, rt', ex_br1)" using ex_br_add_ok by (auto simp: ex_br1_def)
  have m: "br_map ex_br = Map.empty" using ex_br_empty by auto
  have n: "nh_tbl nh_ex 0 = 1" using nh_ex_inv(2) by (simp add: NH_DISCARD_ID_def)
  note s = bridge_table_add_spec [of "(2, True)" ex_br "\<lambda>_. 0" 998 "key_bytes (replicate 6 255) 7" ex_br_req nh_ex 0]
  show "br_inv (2, True) ex_br1 (\<lambda>_. 0) 998" using s ex_br_inv r by (auto simp: ex_br_req_def stack_req_def ex_br_def)
  show e: "\<exists>e. br_map ex_br1 = [key_bytes (replicate 6 255) 7 \<mapsto> e] \<and> be_nh e = 1"
    using s ex_br_inv r n unfolding m
    by (auto simp: ex_br_req_def stack_req_def VR_ETHER_ALEN_def IS_MAC_ZERO_def ex_br_def)
  then have "br_map ex_br1 (key_bytes (replicate 6 255) 7) \<noteq> None" by auto
  then show "vn_rtable ex_br1 \<noteq> None" by (auto simp: br_map_def split: option.splits)
qed

theorem bridge_table_delete_refines_witness:
  "\<exists>st'. bridge_table_delete True ex_br_req ex_br1 = Done (RetOk, st') \<and> br_map st' = Map.empty \<and> br_inv (2, True) st' (\<lambda>_. 0) 998"
  using bridge_table_delete_refines [OF ex_br1_props(1), of "key_bytes (replicate 6 255) 7" ex_br_req True] ex_br1_props(2,3)
  by (auto simp: ex_br_req_def stack_req_def VR_ETHER_ALEN_def)

text \<open>What a lookup by address finds in the map.\<close>

definition nh_of :: "vr_bridge_entry option \<Rightarrow> nh_ptr" where
  "nh_of r = (case r of None \<Rightarrow> 0 | Some e \<Rightarrow> be_nh e)"

lemma br_find:
  assumes "br_inv L st ext n"
  obtains r where "vr_find_bridge_entry k st = Done r" "br_map st k = map_option (be_at st) r"
    "\<And>i. r = Some i \<Longrightarrow> \<exists>t. vn_rtable st = Some t \<and> ht_inv bridge_entry_key t \<and> br_index t k = Some i"
proof (cases "vn_rtable st")
  case None
  then show ?thesis using that [of None] by (simp add: vr_find_bridge_entry_def br_map_def)
next
  case (Some t)
  then have h: "ht_inv bridge_entry_key t" using assms by (simp add: br_inv_def tbl_inv_def)
  then show ?thesis using that [of "br_index t k"] htm.find_index [OF h] Some
    by (simp add: vr_find_bridge_entry_def br_map_def tbl_map_def be_at_def [abs_def])
qed

text \<open>The index that a lookup returns names the entry.\<close>

lemma entry_by_index:
  assumes "ht_inv gk t" "ht_index gk t k = Some i"
  shows "vr_htable_get_hentry_by_index t (hentry_index (ht_ents t ! i)) = Some i"
    "hentry_index (ht_ents t ! i) \<noteq> VR_BE_INVALID_INDEX"
proof -
  obtain L where wf: "ht_wf gk t L" using assms(1) by (auto simp: ht_inv_def)
  note e = ht_index_entry [OF wf assms(2)]
  have s: "hentry_index (ht_ents t ! i) = of_nat i" "ht_N t < 2 ^ 32" "ht_N t = ht_H t + unat (ht_oentries t)"
    using ht_wfD(1) [OF wf] e(1) by (simp_all add: ht_sizes_def)
  have u: "unat (of_nat i :: u32) = i" using e(1) s(2) by simp
  moreover have "i \<noteq> unat VR_BE_INVALID_INDEX" using e(1) s(2) by (simp add: VR_BE_INVALID_INDEX_def)
  ultimately show "hentry_index (ht_ents t ! i) \<noteq> VR_BE_INVALID_INDEX" using s(1) by metis
  have "unat (ht_oentries t + ht_hentries t) = ht_N t" using s(2,3) by (simp add: unat_word_ariths)
  then have "get_hentry_by_index_raw t (of_nat i) = Some i"
    using e(1) u by (auto simp: get_hentry_by_index_raw_def word_less_nat_alt)
  then show "vr_htable_get_hentry_by_index t (hentry_index (ht_ents t ! i)) = Some i"
    using e(3) s(1) by (simp add: vr_htable_get_hentry_by_index_def hentry_valid_bit)
qed

text \<open>C26: A lookup of an address in the MAC table gives the nexthop, the label and the flags that the map
  has for it, or no nexthop if it has none. It also gives the index of the entry, and a lookup by that
  index gives the same nexthop. A group address takes the nexthop of the broadcast address.\<close>

theorem vr_bridge_lookup_spec:
  assumes "br_inv L st ext n" "rtr_index rt = VR_BE_INVALID_INDEX" "k = key_bytes (rtr_mac rt) (ucast (rtr_vrf_id rt))" "mac \<noteq> []"
  shows "(\<exists>rt'. vr_bridge_lookup rt st = Done (nh_of (br_map st k), rt') \<and>
      (\<forall>e. br_map st k = Some e \<longrightarrow> rtr_label rt' = be_label e \<and> rtr_label_flags rt' = be_flags e \<and>
         (\<exists>rt''. vr_bridge_lookup rt' st = Done (be_nh e, rt'')))) \<and>
    vrouter_bridge_lookup vrf mac st =
      Done (nh_of (br_map st (key_bytes (if IS_MAC_BMCAST mac then vr_bcast_mac else mac) (ucast vrf))))"
proof -
  have L: "\<exists>rt'. vr_bridge_lookup rt st = Done (nh_of (br_map st k), rt') \<and>
      (\<forall>e. br_map st k = Some e \<longrightarrow> rtr_label rt' = be_label e \<and> rtr_label_flags rt' = be_flags e \<and>
         (\<exists>rt''. vr_bridge_lookup rt' st = Done (be_nh e, rt'')))"
    if x: "rtr_index rt = VR_BE_INVALID_INDEX" "k = key_bytes (rtr_mac rt) (ucast (rtr_vrf_id rt))" for rt k
  proof -
    obtain r where r: "vr_find_bridge_entry k st = Done r" "br_map st k = map_option (be_at st) r"
      and i: "\<And>i. r = Some i \<Longrightarrow> \<exists>t. vn_rtable st = Some t \<and> ht_inv bridge_entry_key t \<and> br_index t k = Some i"
      by (rule br_find [OF assms(1), of k]) blast
    show ?thesis
    proof (cases r)
      case None
      then show ?thesis using r x
        by (simp add: vr_bridge_lookup_def bridge_table_lookup_def bridge_lookup_raw_def nh_of_def)
    next
      case (Some j)
      obtain t where t: "vn_rtable st = Some t" "ht_inv bridge_entry_key t" "br_index t k = Some j" using i [OF Some] by blast
      note e = entry_by_index [OF t(2,3)]
      show ?thesis using r x Some t(1) e
        by (simp add: vr_bridge_lookup_def bridge_table_lookup_def bridge_lookup_raw_def nh_of_def bridge_update_route_req_def Let_def)
    qed
  qed
  define m where "m = (if IS_MAC_BMCAST mac then vr_bcast_mac else mac)"
  obtain rt' where "vr_bridge_lookup (stack_req m vrf) st = Done (nh_of (br_map st (key_bytes m (ucast vrf))), rt')"
    using L [of "stack_req m vrf" "key_bytes m (ucast vrf)"] by (auto simp: stack_req_def)
  then have "vrouter_bridge_lookup vrf mac st = Done (nh_of (br_map st (key_bytes m (ucast vrf))))"
    using assms(4) by (simp add: vrouter_bridge_lookup_def m_def)
  then show ?thesis using L [OF assms(2,3)] by (simp add: m_def)
qed

theorem vr_bridge_lookup_spec_witness:
  "\<exists>rt'. vr_bridge_lookup (stack_req (replicate 6 255) 7) ex_br1 = Done (1, rt')"
proof -
  obtain e where e: "br_map ex_br1 = [key_bytes (replicate 6 255) 7 \<mapsto> e]" "be_nh e = 1" using ex_br1_props(3) by blast
  show ?thesis
    using vr_bridge_lookup_spec [OF ex_br1_props(1), of "stack_req (replicate 6 255) 7" "key_bytes (replicate 6 255) 7" "[1]" 0] e
    by (auto simp: stack_req_def nh_of_def)
qed

section \<open>The lock\<close>















section \<open>Learning\<close>


















end
