(* ===== verification/VR_Nexthop_Add.thy ===== *)
theory VR_Nexthop_Add
  imports VR_Nexthop_Inv
begin

text \<open>
  Requests that add or change nexthops: they keep the invariant of the reference counts and
  never write past the data of a nexthop, for every type of nexthop and on every error path.
\<close>

section \<open>Steps of a handler\<close>

text \<open>The data that follow a nexthop have the size it records.\<close>

definition nh_data_ok :: "nh_state \<Rightarrow> bool" where
  [vr_inv]: "nh_data_ok s \<longleftrightarrow> (\<forall>n\<in>set (nh_heap s). unat (nh_data_size n) \<le> length (nh_data n))"

text \<open>A step of a handler for the nexthop \<open>p\<close> keeps the invariants and the table.\<close>

definition keeps :: "(nh_ptr \<Rightarrow> nat) \<Rightarrow> nh_ptr \<Rightarrow> nh_state \<Rightarrow> nh_state \<Rightarrow> bool" where
  "keeps ext p s s' \<longleftrightarrow>
     (nh_inv s ext \<longrightarrow> nh_inv s' ext \<and> (nh_fresh s p \<longrightarrow> nh_fresh s' p)) \<and> (nh_data_ok s \<longrightarrow> nh_data_ok s') \<and>
     nh_tbl s' = nh_tbl s \<and> vr_max_nexthops s' = vr_max_nexthops s \<and> length (nh_heap s') = length (nh_heap s) \<and>
     nh_id (nh_heap s' ! p) = nh_id (nh_heap s ! p) \<and>
     length (nh_data (nh_heap s' ! p)) = length (nh_data (nh_heap s ! p))"

lemma keeps_refl [simp, intro]: "keeps ext p s s"
  by (simp add: keeps_def)

lemma keeps_trans: "keeps ext p s s1 \<Longrightarrow> keeps ext p s1 s2 \<Longrightarrow> keeps ext p s s2"
  by (auto simp: keeps_def)

lemma keepsD:
  assumes "keeps ext p s s'" "nh_inv s ext" "nh_data_ok s"
  shows "nh_inv s' ext" "nh_data_ok s'" "nh_fresh s p \<Longrightarrow> nh_fresh s' p" "nh_tbl s' = nh_tbl s"
    "vr_max_nexthops s' = vr_max_nexthops s" "length (nh_heap s') = length (nh_heap s)"
    "nh_id (nh_heap s' ! p) = nh_id (nh_heap s ! p)"
  using assms by (simp_all add: keeps_def)

text \<open>The fields of a nexthop that the invariants look at.\<close>

definition nh_view :: "vr_nexthop \<Rightarrow> u32 \<times> u32 \<times> nh_ptr list \<times> u16 \<times> nat" where
  "nh_view n = (nh_id n, nh_users n, nh_out n, nh_data_size n, length (nh_data n))"

lemma nh_data_ok_upd:
  assumes "nh_data_ok s" "nh_data_size (f (nh_heap s ! p)) = nh_data_size (nh_heap s ! p)"
    "length (nh_data (f (nh_heap s ! p))) = length (nh_data (nh_heap s ! p))"
  shows "nh_data_ok (nh_upd p f s)"
  using assms set_update_subset_insert [of "nh_heap s" p "f (nh_heap s ! p)"]
  by (cases "p < length (nh_heap s)") (auto simp: nh_data_ok_def list_update_beyond)

lemma keeps_upd:
  assumes "\<And>n. nh_view (f n) = nh_view n"
  shows "keeps ext p s (nh_upd p f s)"
proof -
  have v: "nh_id (f n) = nh_id n" "nh_users (f n) = nh_users n" "nh_out (f n) = nh_out n"
    "nh_data_size (f n) = nh_data_size n" "length (nh_data (f n)) = length (nh_data n)" for n
    using assms [of n] by (simp_all add: nh_view_def)
  then show ?thesis
    using nh_inv_upd_same [of s ext f p] nh_data_ok_upd [of s f p]
    by (cases "p < length (nh_heap s)") (auto simp: keeps_def nh_fresh_def list_update_beyond)
qed

lemma keeps_cong:
  assumes "vr_nexthops s' = vr_nexthops s" "vr_max_nexthops s' = vr_max_nexthops s" "nh_cells s' = nh_cells s"
    "nh_heap s' = nh_heap s" "nh_defer s' = nh_defer s" "nh_freed s' = nh_freed s" "nh_fault s' = nh_fault s"
  shows "keeps ext p s s'"
  using assms nh_inv_cong [of s ext s'] nh_tbl_cong [of s' s]
  by (simp add: keeps_def nh_fresh_def nh_data_ok_def)

lemma keeps_get_interface: "vrouter_get_interface i s = (d, s') \<Longrightarrow> keeps ext p s s' \<and> nh_heap s' = nh_heap s"
  by (rule conjI, rule keeps_cong) (auto simp: vrouter_get_interface_def Let_def split: if_splits)

lemma keeps_put_interfaces: "keeps ext p s (put_interfaces ds s)"
  by (rule keeps_cong) simp_all

lemma keeps_put_interface: "keeps ext p s (vrouter_put_interface d s)"
  by (rule keeps_cong) simp_all

lemma keeps_next_alloc: "next_alloc s = (ok, s') \<Longrightarrow> keeps ext p s s' \<and> nh_heap s' = nh_heap s"
  by (rule conjI, rule keeps_cong) (auto simp: next_alloc_def)

lemma keeps_copy_data:
  assumes "length bs \<le> length (nh_data (nh_heap s ! p))"
  shows "keeps ext p s (copy_data p bs s)"
proof -
  let ?f = "\<lambda>n. n\<lparr>nh_data := bs @ drop (length bs) (nh_data n)\<rparr>"
  have "length (nh_data (?f (nh_heap s ! p))) = length (nh_data (nh_heap s ! p))" using assms by simp
  then have "nh_data_ok s \<longrightarrow> nh_data_ok (nh_upd p ?f s)" using nh_data_ok_upd [of s ?f p] by auto
  moreover have "nh_inv s ext \<longrightarrow> nh_inv (nh_upd p ?f s) ext" by (auto intro: nh_inv_upd_same simp: nh_out_def)
  ultimately show ?thesis
    using assms by (cases "p < length (nh_heap s)") (auto simp: keeps_def copy_data_def nh_fresh_def list_update_beyond)
qed

lemma keeps_use_layout:
  assumes "nh_layout (nh_heap s ! p) = LNone \<or> nh_layout (nh_heap s ! p) = l"
  shows "keeps ext p s (use_layout l p s)"
  using assms by (auto simp: use_layout_def nh_view_def nh_out_def intro: keeps_upd)

section \<open>Handlers without references to nexthops\<close>

lemma keeps_simple_add:
  "keeps ext p s (snd (nh_resolve_add p s))" "keeps ext p s (snd (nh_l2_rcv_add p s))"
  "keeps ext p s (snd (nh_vrf_translate_add p s))" "keeps ext p s (snd (nh_discard_add p req s))"
  by (simp_all add: nh_resolve_add_def nh_l2_rcv_add_def nh_vrf_translate_add_def nh_discard_add_def nh_view_def
      nh_out_def keeps_upd)

lemma keeps_set_dev: "keeps ext p s (nh_upd p (set_nh_dev d) s)"
  by (rule keeps_upd) (simp add: nh_view_def nh_out_def set_nh_dev_def)

lemma keeps_rcv_add:
  assumes "nhr_encap_oif_id req \<noteq> []"
  shows "keeps ext p s (snd (nh_rcv_add p req s))"
proof -
  obtain vif s1 where g: "vrouter_get_interface (nhr_encap_oif_id req ! 0) s = (vif, s1)" by fastforce
  have k1: "keeps ext p s s1" using keeps_get_interface [OF g] by blast
  have put: "keeps ext p s1 (vrouter_put_interface d (nh_upd p (set_nh_dev vif) s1))"
    "keeps ext p s1 (nh_upd p (set_nh_dev vif) s1)" for d
    using keeps_trans [OF keeps_set_dev keeps_put_interface] keeps_set_dev by blast+
  have fin: "keeps ext p s (nh_upd p (nh_reach_nh_update f) s2)" if "keeps ext p s s2" for s2 f
    using that by (rule keeps_trans) (simp add: nh_view_def nh_out_def keeps_upd)
  show ?thesis
    using assms g k1 keeps_trans [OF k1 put(1)] keeps_trans [OF k1 put(2)]
    by (auto simp: nh_rcv_add_def read_list_def Let_def fin)
qed

lemma keeps_encap_add:
  assumes oif: "nhr_encap_oif_id req \<noteq> []" and p: "p < length (nh_heap s)"
    and lay: "nh_layout (nh_heap s ! p) = LNone \<or> nh_layout (nh_heap s ! p) = LEncap"
    and len: "length (nhr_encap req) \<le> length (nh_data (nh_heap s ! p))"
  shows "keeps ext p s (snd (nh_encap_add p req s))"
proof -
  obtain vif s1 where g: "vrouter_get_interface (nhr_encap_oif_id req ! 0) s = (vif, s1)" by fastforce
  have k1: "keeps ext p s s1" and h1: "nh_heap s1 = nh_heap s" using keeps_get_interface [OF g] by blast+
  let ?f = "\<lambda>n. n\<lparr>nh_encap_family := ucast (nhr_encap_family req), nh_encap_len := of_nat (length (nhr_encap req))\<rparr>"
  let ?bs = "take (unat (of_nat (length (nhr_encap req)) :: u16)) (nhr_encap req)"
  let ?s3 = "nh_upd p ?f (use_layout LEncap p s1)"
  let ?s5 = "nh_upd p (set_nh_dev vif) (copy_data p ?bs ?s3)"
  have k3: "keeps ext p s ?s3"
    using lay h1 by (intro keeps_trans [OF keeps_trans [OF k1 keeps_use_layout] keeps_upd])
      (auto simp: nh_view_def nh_out_def)
  then have "length ?bs \<le> length (nh_data (nh_heap ?s3 ! p))" using len by (simp add: keeps_def)
  then have k5: "keeps ext p s ?s5"
    by (intro keeps_trans [OF keeps_trans [OF k3 keeps_copy_data] keeps_set_dev])
  then have k6: "keeps ext p s (encap_set p req vif s1)"
    using keeps_trans [OF k5 keeps_put_interface] by (simp add: encap_set_def Let_def)
  have fin: "keeps ext p s (nh_upd p (encap_reach req) s2)" if "keeps ext p s s2" for s2
    using that by (rule keeps_trans) (simp add: nh_view_def nh_out_def encap_reach_def keeps_upd)
  show ?thesis using oif g fin k1 k6 by (simp add: nh_encap_add_def read_list_def)
qed

lemma keeps_tunnel_underlay:
  "\<forall>i\<in>set is. i < length (nhr_encap_valid req) \<and> i < length (nhr_encap_oif_id req) \<Longrightarrow>
   tunnel_underlay is p req vif s = (vif', s') \<Longrightarrow> keeps ext p s s'"
proof (induction "is" p req vif s rule: tunnel_underlay.induct)
  case (2 i "is" p req vif s)
  let ?f = "\<lambda>n. n\<lparr>nh_valid_underlay_dev := (nh_valid_underlay_dev n)[i := 0],
    nh_encap_valid := (nh_encap_valid n)[i := ucast (nhr_encap_valid req ! i)]\<rparr>"
  have k1: "keeps ext p s (nh_upd p ?f s)" by (rule keeps_upd) (simp add: nh_view_def nh_out_def)
  show ?case
  proof (cases "(ucast (nhr_encap_valid req ! i) :: u8) = 0")
    case True
    then have "keeps ext p (nh_upd p ?f s) s'"
      using 2(2) [of "nhr_encap_valid req ! i" s "nh_upd p ?f s"] 2(3,4) by (simp add: read_list_def Let_def)
    then show ?thesis by (rule keeps_trans [OF k1])
  next
    case False
    obtain d s2 where g: "vrouter_get_interface (nhr_encap_oif_id req ! i) (nh_upd p ?f s) = (d, s2)" by fastforce
    let ?s3 = "nh_upd p (\<lambda>n. n\<lparr>nh_valid_underlay_dev := (nh_valid_underlay_dev n)[nh_valid_underlay_dev_count n := d],
       nh_valid_underlay_dev_count := Suc (nh_valid_underlay_dev_count n)\<rparr>) s2"
    have "keeps ext p s s2" using keeps_trans [OF k1] keeps_get_interface [OF g] by blast
    then have "keeps ext p s ?s3" by (rule keeps_trans) (rule keeps_upd, simp add: nh_view_def nh_out_def)
    moreover have "keeps ext p ?s3 s'"
      using 2(1) [of "nhr_encap_valid req ! i" s "nh_upd p ?f s" "nhr_encap_oif_id req ! i" "nh_upd p ?f s" d s2] 2(3,4) g False
      by (simp add: read_list_def Let_def)
    ultimately show ?thesis by (rule keeps_trans)
  qed
qed simp

text \<open>A request that names the interfaces its flags ask for.\<close>

definition tunnel_oif_ok :: "vr_nexthop_req \<Rightarrow> vr_nexthop \<Rightarrow> bool" where
  "tunnel_oif_ok req n \<longleftrightarrow> nhr_encap_oif_id req \<noteq> [] \<and>
     (nh_flags n AND NH_FLAG_TUNNEL_UNDERLAY_ECMP \<noteq> 0 \<longrightarrow>
        VR_MAX_PHY_INF \<le> length (nhr_encap_oif_id req) \<and> VR_MAX_PHY_INF \<le> length (nhr_encap_valid req))"

lemma keeps_tunnel_vifs:
  assumes "tunnel_oif_ok req (nh_heap s ! p)" "tunnel_vifs p req s = (vif, s')" "p < length (nh_heap s)"
  shows "keeps ext p s s'"
proof -
  let ?s = "nh_upd p (nh_valid_underlay_dev_count_update (\<lambda>_. 0)) s"
  have k: "keeps ext p s ?s" by (rule keeps_upd) (simp add: nh_view_def nh_out_def)
  have fl: "nh_flags (nh_heap ?s ! p) = nh_flags (nh_heap s ! p)" using assms(3) by simp
  show ?thesis
  proof (cases "nh_flags (nh_heap s ! p) AND NH_FLAG_TUNNEL_UNDERLAY_ECMP = 0")
    case True
    obtain d s2 where g: "vrouter_get_interface (nhr_encap_oif_id req ! 0) ?s = (d, s2)" by fastforce
    then have "s' = s2" using assms True fl by (auto simp: tunnel_vifs_def tunnel_oif_ok_def read_list_def Let_def)
    then show ?thesis using keeps_trans [OF k] keeps_get_interface [OF g] by blast
  next
    case False
    then have "tunnel_underlay [0..<VR_MAX_PHY_INF] p req (replicate VR_MAX_PHY_INF 0) ?s = (vif, s')"
      using assms(2) fl by (simp add: tunnel_vifs_def Let_def)
    then show ?thesis
      using assms(1) False by (intro keeps_trans [OF k] keeps_tunnel_underlay) (auto simp: tunnel_oif_ok_def)
  qed
qed

lemma nh_upd_same:
  assumes "g (f (nh_heap s ! p)) = g (nh_heap s ! p)"
  shows "g (nh_heap (nh_upd p f s) ! p) = g (nh_heap s ! p)"
  using assms by (cases "p < length (nh_heap s)") (auto simp: list_update_beyond)

lemma get_interface_heap: "nh_heap (snd (vrouter_get_interface i s)) = nh_heap s"
  by (simp add: vrouter_get_interface_def Let_def)

lemma read_list_heap: "nh_heap (snd (read_list d xs i s)) = nh_heap s"
  by (simp add: read_list_def)

lemma tunnel_underlay_layout:
  "nh_layout (nh_heap (snd (tunnel_underlay is p req vif s)) ! p) = nh_layout (nh_heap s ! p) \<and>
   nh_flags (nh_heap (snd (tunnel_underlay is p req vif s)) ! p) = nh_flags (nh_heap s ! p)"
proof (induction "is" arbitrary: vif s)
  case (Cons i "is")
  obtain v s1 where r: "read_list 0 (nhr_encap_valid req) i s = (v, s1)" by fastforce
  let ?s2 = "nh_upd p (\<lambda>n. n\<lparr>nh_valid_underlay_dev := (nh_valid_underlay_dev n)[i := 0],
    nh_encap_valid := (nh_encap_valid n)[i := ucast v]\<rparr>) s1"
  obtain oif s3 where r2: "read_list 0 (nhr_encap_oif_id req) i ?s2 = (oif, s3)" by fastforce
  obtain d s4 where g: "vrouter_get_interface oif s3 = (d, s4)" by fastforce
  have h: "nh_heap s1 = nh_heap s" "nh_heap s4 = nh_heap ?s2"
    using read_list_heap [of 0 "nhr_encap_valid req" i s] read_list_heap [of 0 "nhr_encap_oif_id req" i ?s2]
      get_interface_heap [of oif s3] r r2 g by simp_all
  have l2: "nh_layout (nh_heap ?s2 ! p) = nh_layout (nh_heap s ! p)" "nh_flags (nh_heap ?s2 ! p) = nh_flags (nh_heap s ! p)"
    by (subst nh_upd_same; simp add: h)+
  let ?s5 = "nh_upd p (\<lambda>n. n\<lparr>nh_valid_underlay_dev := (nh_valid_underlay_dev n)[nh_valid_underlay_dev_count n := d],
     nh_valid_underlay_dev_count := Suc (nh_valid_underlay_dev_count n)\<rparr>) s4"
  have l5: "nh_layout (nh_heap ?s5 ! p) = nh_layout (nh_heap s4 ! p)" "nh_flags (nh_heap ?s5 ! p) = nh_flags (nh_heap s4 ! p)"
    by (subst nh_upd_same; simp)+
  show ?case
    using Cons.IH [of _ ?s2] Cons.IH [of _ ?s5] r r2 g l2 l5 h(2)
    by (cases "(ucast v :: u8) = 0") (simp_all add: Let_def del: nh_upd_simps)
qed simp

lemma tunnel_vifs_layout:
  "nh_layout (nh_heap (snd (tunnel_vifs p req s)) ! p) = nh_layout (nh_heap s ! p) \<and>
   nh_flags (nh_heap (snd (tunnel_vifs p req s)) ! p) = nh_flags (nh_heap s ! p)"
proof -
  let ?s = "nh_upd p (nh_valid_underlay_dev_count_update (\<lambda>_. 0)) s"
  obtain oif s3 where r: "read_list 0 (nhr_encap_oif_id req) 0 ?s = (oif, s3)" by fastforce
  obtain d s4 where g: "vrouter_get_interface oif s3 = (d, s4)" by fastforce
  have h: "nh_heap s4 = nh_heap ?s"
    using read_list_heap [of 0 "nhr_encap_oif_id req" 0 ?s] get_interface_heap [of oif s3] r g by simp
  have l: "nh_layout (nh_heap ?s ! p) = nh_layout (nh_heap s ! p)" "nh_flags (nh_heap ?s ! p) = nh_flags (nh_heap s ! p)"
    by (subst nh_upd_same; simp)+
  show ?thesis
    using l h r g tunnel_underlay_layout [of "[0..<VR_MAX_PHY_INF]" p req "replicate VR_MAX_PHY_INF 0" ?s]
    by (simp add: tunnel_vifs_def Let_def del: nh_upd_simps)
qed

text \<open>The member of the union that a tunnel request writes.\<close>

definition tunnel_layout :: "vr_nexthop_req \<Rightarrow> u32 \<Rightarrow> nh_layout" where
  "tunnel_layout req flags =
     (if flags AND NH_FLAG_TUNNEL_GRE \<noteq> 0 then LGre
      else if flags AND NH_FLAG_TUNNEL_UDP \<noteq> 0 then (if nhr_family req = AF_INET then LUdp else LUdp6)
      else if flags AND NH_FLAG_TUNNEL_UDP_MPLS \<noteq> 0 then LUdp
      else if flags AND NH_FLAG_TUNNEL_VXLAN \<noteq> 0 then LVxlan else LPbb)"

lemma tunnel_set_views:
  "nh_view (tunnel_set_devs req vif n) = nh_view n" "nh_view (tunnel_set_ips req n) = nh_view n"
  "nh_view (tunnel_set_label req n) = nh_view n" "nh_view (nh_tunnel_set_reach_nh n) = nh_view n"
  by (simp_all add: nh_view_def nh_out_def tunnel_set_devs_def set_nh_dev_def tunnel_set_ips_def tunnel_set_label_def
      nh_tunnel_set_reach_nh_def Let_def)

lemma nh_view_simps [simp]:
  "nh_view (n\<lparr>nh_validate_src := v\<rparr>) = nh_view n" "nh_view (n\<lparr>nh_tun_l3_mac := m\<rparr>) = nh_view n"
  "nh_view (n\<lparr>nh_tun_sip6 := b\<rparr>) = nh_view n" "nh_view (n\<lparr>nh_crypt_dev := d\<rparr>) = nh_view n"
  "nh_view (n\<lparr>nh_reach_nh := r\<rparr>) = nh_view n" "nh_view (n\<lparr>nh_pbb_label := l\<rparr>) = nh_view n"
  "nh_view (n\<lparr>nh_pbb_mac := m\<rparr>) = nh_view n"
  by (simp_all add: nh_view_def nh_out_def)

lemma keeps_tunnel_udp6:
  assumes "nh_layout (nh_heap s ! p) = LNone \<or> nh_layout (nh_heap s ! p) = LUdp6"
  shows "keeps ext p s (snd (tunnel_udp6 p req s))"
proof -
  let ?s1 = "use_layout LUdp6 p s"
  have k1: "keeps ext p s ?s1" by (rule keeps_use_layout [OF assms])
  obtain ok s2 where a: "(if nh_tun_sip6 (nh_heap ?s1 ! p) = [] then next_alloc ?s1 else (True, ?s1)) = (ok, s2)"
    by (metis surj_pair)
  have k2: "keeps ext p s s2" using a keeps_next_alloc keeps_trans [OF k1] k1 by (auto split: if_splits)
  let ?s3 = "nh_upd p (nh_tun_sip6_update (\<lambda>_. nhr_tun_sip6 req)) s2"
  have k3: "keeps ext p s ?s3" by (rule keeps_trans [OF k2 keeps_upd]) simp
  obtain ok' s4 where b: "(if nh_tun_dip6 (nh_heap ?s3 ! p) = [] then next_alloc ?s3 else (True, ?s3)) = (ok', s4)"
    by (metis surj_pair)
  have k4: "keeps ext p s s4" using b keeps_next_alloc keeps_trans [OF k3] k3 by (auto split: if_splits)
  have k5: "keeps ext p s (nh_upd p (\<lambda>n. n\<lparr>nh_tun_dip6 := nhr_tun_dip6 req, nh_tun_sport := nhr_tun_sport req,
      nh_tun_dport := nhr_tun_dport req, nh_tun_encap_len := of_nat (length (nhr_encap req))\<rparr>) s4)"
    by (rule keeps_trans [OF k4 keeps_upd]) (simp add: nh_view_def nh_out_def)
  have "snd (tunnel_udp6 p req s) = (if \<not> ok then s2 else if \<not> ok' then s4 else nh_upd p (\<lambda>n. n\<lparr>nh_tun_dip6 := nhr_tun_dip6 req,
      nh_tun_sport := nhr_tun_sport req, nh_tun_dport := nhr_tun_dport req,
      nh_tun_encap_len := of_nat (length (nhr_encap req))\<rparr>) s4)"
    unfolding tunnel_udp6_def Let_def a prod.case b by simp
  then show ?thesis using k2 k4 k5 by simp
qed

lemma keeps_tunnel_set:
  assumes lay: "nh_layout (nh_heap s ! p) = LNone \<or> nh_layout (nh_heap s ! p) = tunnel_layout req (nh_flags (nh_heap s ! p))"
  shows "keeps ext p s (snd (tunnel_set p req vif crypt s))"
proof -
  let ?fl = "nh_flags (nh_heap s ! p)"
  have use: "keeps ext p s (nh_upd p f (use_layout l p s))"
    if "l = tunnel_layout req ?fl" "\<And>n. nh_view (f n) = nh_view n" for l f
    using lay that by (intro keeps_trans [OF keeps_use_layout keeps_upd]) auto
  have put: "keeps ext p s (put_interfaces ds s2)" if "keeps ext p s s2" for ds s2
    using that keeps_put_interfaces by (rule keeps_trans)
  have udp6: "keeps ext p s (snd (tunnel_udp6 p req s))"
    if "?fl AND NH_FLAG_TUNNEL_GRE = 0" "?fl AND NH_FLAG_TUNNEL_UDP \<noteq> 0" "nhr_family req \<noteq> AF_INET"
    using lay that by (intro keeps_tunnel_udp6) (auto simp: tunnel_layout_def)
  have mac: "keeps ext p s (nh_upd p (nh_tun_l3_mac_update g) s2)" if "keeps ext p s s2" for s2 g
    using that by (rule keeps_trans) (rule keeps_upd, simp add: nh_view_def nh_out_def)
  have v: "nh_view ((tunnel_set_ips req n)\<lparr>nh_tun_sport := a, nh_tun_dport := b, nh_tun_encap_len := c\<rparr>) = nh_view n" for n a b c
    by (simp add: nh_view_def nh_out_def tunnel_set_ips_def)
  consider (gre) "?fl AND NH_FLAG_TUNNEL_GRE \<noteq> 0" | (udp) "?fl AND NH_FLAG_TUNNEL_GRE = 0" "?fl AND NH_FLAG_TUNNEL_UDP \<noteq> 0"
    | (mpls) "?fl AND NH_FLAG_TUNNEL_GRE = 0" "?fl AND NH_FLAG_TUNNEL_UDP = 0" "?fl AND NH_FLAG_TUNNEL_UDP_MPLS \<noteq> 0"
    | (rest) "?fl AND NH_FLAG_TUNNEL_GRE = 0" "?fl AND NH_FLAG_TUNNEL_UDP = 0" "?fl AND NH_FLAG_TUNNEL_UDP_MPLS = 0" by blast
  then show ?thesis
  proof cases
    case gre
    then show ?thesis
      using use [of LGre] by (simp add: tunnel_set_def Let_def tunnel_layout_def tunnel_set_views)
  next
    case udp
    have "snd (tunnel_set p req vif crypt s) \<in> {s2. keeps ext p s s2}"
      using udp put [OF udp6] udp6 use [of LUdp] put [OF use [of LUdp]]
      by (cases "nhr_family req") (simp_all add: tunnel_set_def Let_def tunnel_layout_def v split_beta)
    then show ?thesis by simp
  next
    case mpls
    then show ?thesis
      using use [of LUdp] by (simp add: tunnel_set_def Let_def tunnel_layout_def tunnel_set_views)
  next
    case rest
    show ?thesis
    proof (cases "?fl AND NH_FLAG_TUNNEL_VXLAN = 0")
      case True
      then show ?thesis
        using rest put [OF use [of LPbb]] put [OF keeps_refl]
          keeps_trans [OF put [OF keeps_refl] keeps_put_interface]
        by (simp add: tunnel_set_def Let_def tunnel_layout_def v)
    next
      case False
      then show ?thesis
        using rest use [of LVxlan] mac [OF use [of LVxlan]]
        by (simp add: tunnel_set_def Let_def tunnel_layout_def tunnel_set_views)
    qed
  qed
qed

lemma keeps_tunnel_add:
  assumes oif: "tunnel_oif_ok req (nh_heap s ! p)" and p: "p < length (nh_heap s)"
    and lay: "nh_layout (nh_heap s ! p) = LNone \<or> nh_layout (nh_heap s ! p) = tunnel_layout req (nh_flags (nh_heap s ! p))"
    and len: "length (nhr_encap req) \<le> length (nh_data (nh_heap s ! p))"
  shows "keeps ext p s (snd (nh_tunnel_add p req s))"
proof -
  obtain vif s1 where t: "tunnel_vifs p req s = (vif, s1)" by fastforce
  obtain crypt s2 where g: "vrouter_get_interface (nhr_encap_crypt_oif_id req) s1 = (crypt, s2)" by fastforce
  have k2: "keeps ext p s s2" using keeps_trans [OF keeps_tunnel_vifs [OF oif t p]] keeps_get_interface [OF g] by blast
  define s3 where "s3 = put_interfaces [nh_crypt_dev (nh_heap s1 ! p)] (nh_upd p (nh_crypt_dev_update (\<lambda>_. crypt)) s2)"
  have k3: "keeps ext p s s3" unfolding s3_def
    by (rule keeps_trans [OF keeps_trans [OF k2 keeps_upd] keeps_put_interfaces]) simp
  have "nh_heap s2 = nh_heap s1" using keeps_get_interface [OF g] by blast
  then have l3: "nh_layout (nh_heap s3 ! p) = nh_layout (nh_heap s ! p)" "nh_flags (nh_heap s3 ! p) = nh_flags (nh_heap s ! p)"
    using tunnel_vifs_layout [of p req s] t nh_upd_same [of nh_layout "nh_crypt_dev_update (\<lambda>_. crypt)" s2 p]
      nh_upd_same [of nh_flags "nh_crypt_dev_update (\<lambda>_. crypt)" s2 p]
    by (simp_all add: s3_def del: nh_upd_simps)
  obtain e s4 where st: "tunnel_set p req vif crypt s3 = (e, s4)" by fastforce
  have k4: "keeps ext p s s4"
    using keeps_trans [OF k3 keeps_tunnel_set [of s3 p req ext vif crypt]] lay l3 st by simp
  then have "length (nhr_encap req) \<le> length (nh_data (nh_heap s4 ! p))" using len by (simp add: keeps_def)
  then have k5: "keeps ext p s (put_interfaces ds (copy_data p (nhr_encap req) s4))" for ds
    by (intro keeps_trans [OF keeps_trans [OF k4 keeps_copy_data] keeps_put_interfaces])
  have fin: "keeps ext p s (nh_upd p nh_tunnel_set_reach_nh s')" if "keeps ext p s s'" for s'
    using that by (rule keeps_trans) (simp add: keeps_upd tunnel_set_views)
  show ?thesis
    using t g k4 k5 fin st [unfolded s3_def]
    by (auto simp: nh_tunnel_add_def Let_def split: tun_end.split)
qed

section \<open>Dropping references\<close>

text \<open>The data of the nexthops do not change when references are taken or dropped.\<close>

definition nh_datas :: "nh_state \<Rightarrow> (u16 \<times> nat) list" where
  "nh_datas s = map (\<lambda>n. (nh_data_size n, length (nh_data n))) (nh_heap s)"

lemma nh_datas_upd:
  "(\<And>n. nh_data_size (f n) = nh_data_size n \<and> nh_data (f n) = nh_data n) \<Longrightarrow> nh_datas (nh_upd p f s) = nh_datas s"
  by (simp add: nh_datas_def map_list_update_same)

lemma nh_datas_release: "nh_datas (nh_release p s) = nh_datas s"
  using nh_release_frame(1) [of p s] by (auto simp: nh_datas_def map_list_update_same nh_clear_def)

lemma nh_datas_run: "nh_datas (nh_run w s) = nh_datas s"
proof (induction w s rule: nh_run.induct)
  case (2 p w s)
  have "nh_datas s' = nh_datas s" if "nh_put1 p s = (w', s')" for w' s'
    using that by (auto simp: nh_put1_def Let_def nh_datas_upd nh_unlink_def split: if_splits)
  moreover have "nh_datas (s\<lparr>nh_fault := True\<rparr>) = nh_datas s" by (simp add: nh_datas_def)
  ultimately show ?case using 2 by (auto simp: nh_run.simps split: prod.splits)
qed (simp_all add: nh_run.simps nh_datas_release)

lemma nh_datas_put: "nh_datas (vrouter_put_nexthop p s) = nh_datas s"
  by (simp add: vrouter_put_nexthop_def nh_datas_run)

lemma nh_datas_get: "nh_datas (snd (vrouter_get_nexthop i s)) = nh_datas s"
proof -
  have "nh_datas (snd (get_nexthop_raw i s)) = nh_datas s"
    by (auto simp: get_nexthop_raw_def nh_datas_def split: option.splits)
  then show ?thesis by (auto simp: vrouter_get_nexthop_def nh_datas_upd split: prod.splits)
qed

lemma nh_datas_ok: "nh_datas s' = nh_datas s \<Longrightarrow> nh_data_ok s' = nh_data_ok s"
proof -
  have "nh_data_ok s \<longleftrightarrow> (\<forall>(a, b)\<in>set (nh_datas s). unat a \<le> b)" for s
    by (auto simp: nh_data_ok_def nh_datas_def)
  then show "nh_datas s' = nh_datas s \<Longrightarrow> nh_data_ok s' = nh_data_ok s" by simp
qed

lemma nh_datas_nth:
  assumes "nh_datas s' = nh_datas s"
  shows "length (nh_data (nh_heap s' ! p)) = length (nh_data (nh_heap s ! p)) \<or> length (nh_heap s) \<le> p"
proof (cases "p < length (nh_heap s)")
  case True
  moreover have "length (nh_heap s') = length (nh_heap s)"
    using arg_cong [OF assms, of length] by (simp add: nh_datas_def)
  ultimately show ?thesis using arg_cong [OF assms, of "\<lambda>xs. snd (xs ! p)"] by (simp add: nh_datas_def)
qed simp

text \<open>A nexthop that nothing refers to is not touched.\<close>

lemma nh_run_fresh:
  "nh_winv w s ext \<Longrightarrow> nh_fresh s p \<Longrightarrow> p \<notin> set (nh_frees w) \<Longrightarrow> nh_fresh (nh_run w s) p"
proof (induction w s rule: nh_run.induct)
  case (2 q w s)
  obtain w' s' where r: "nh_put1 q s = (w', s')" by fastforce
  note wi = nh_winv_put1 [OF "2.prems"(1) r]
  have "ext q + count_list (nh_puts (NhPut q # w)) q \<noteq> 0" by simp
  then have ne: "q \<noteq> p"
    using nh_fresh_unref(2) [OF _ "2.prems"(2), of "\<lambda>q'. ext q' + count_list (nh_puts (NhPut q # w)) q'"] "2.prems"(1)
    unfolding nh_winv_def by metis
  have "nh_fresh s' p"
    using "2.prems"(2) r ne wi(3) by (auto simp: nh_fresh_def nh_put1_def Let_def split: if_splits)
  moreover have "p \<notin> set (nh_frees (w' @ w))"
    using "2.prems"(3) r ne by (auto simp: nh_put1_def Let_def split: if_splits)
  ultimately show ?case using "2.IH"(3) [OF _ _ r [symmetric]] wi r by (simp add: nh_run.simps)
next
  case (3 q w s)
  have "nh_fresh (nh_release q s) p"
    using "3.prems"(2,3) nh_release_frame(7) [of q s] nh_release_users [of q s p]
      nh_static_length [OF nh_static_release [of q s]] by (auto simp: nh_fresh_def)
  then show ?case using "3.IH" nh_winv_free [OF "3.prems"(1)] "3.prems"(3) by (simp add: nh_run.simps)
qed simp

lemma nh_put_fresh:
  assumes "nh_inv s (\<lambda>q. ext q + of_bool (q = c))" "nh_fresh s p"
  shows "nh_fresh (vrouter_put_nexthop c s) p"
proof -
  have "(\<lambda>q. ext q + of_bool (q = c)) = (\<lambda>q. ext q + count_list [c] q)" by auto
  then have "nh_winv [NhPut c] s ext" using assms(1) by (simp add: nh_winv_def)
  then show ?thesis unfolding vrouter_put_nexthop_def using assms(2) by (rule nh_run_fresh) simp
qed

text \<open>
  The component list of a nexthop that the table refers to is not read while references are
  dropped, so it does not matter whether it is given up before or after.
\<close>

definition nh_drop_comps :: "vr_nexthop \<Rightarrow> vr_nexthop" where
  "nh_drop_comps n = n\<lparr>nh_component_nh := [], nh_component_ecmp := [],
     nh_component_ecmp_cnt := (if nh_component_ecmp n = [] then nh_component_ecmp_cnt n else 0)\<rparr>"

lemma nh_upd_commute: "p \<noteq> q \<Longrightarrow> nh_upd p f (nh_upd q g s) = nh_upd q g (nh_upd p f s)"
  by (simp add: nh_upd_def list_update_swap)

lemma put_interfaces_upd: "put_interfaces ds (nh_upd p f s) = nh_upd p f (put_interfaces ds s)"
proof -
  have "vrouter_put_interface d (nh_upd p f s) = nh_upd p f (vrouter_put_interface d s)" for d s
    by (simp add: vrouter_put_interface_def Let_def nh_upd_def)
  then show ?thesis by (induction ds arbitrary: s) simp_all
qed

lemma nh_release_upd:
  assumes "p \<noteq> q"
  shows "nh_release q (nh_upd p f s) = nh_upd p f (nh_release q s)"
proof -
  have free: "vrouter_free_nexthop q (nh_upd p f s) = nh_upd p f (vrouter_free_nexthop q s)" for s
    using assms unfolding vrouter_free_nexthop_def Let_def nh_upd_commute [OF assms(1) [symmetric]]
    by (simp add: put_interfaces_upd) (simp add: nh_upd_def)
  have swap: "(nh_upd p f s)\<lparr>vr_sched := v\<rparr> = nh_upd p f (s\<lparr>vr_sched := v\<rparr>)"
    "(nh_upd p f s)\<lparr>nh_defer := d\<rparr> = nh_upd p f (s\<lparr>nh_defer := d\<rparr>)" for s v d
    by (simp_all add: nh_upd_def)
  have fld: "vr_sched (nh_upd p f s) = vr_sched s" "vr_not_ready (nh_upd p f s) = vr_not_ready s" by (simp_all add: nh_upd_def)
  show ?thesis by (simp add: nh_release_def vrouter_free_nexthop_defer_def next_alloc_def fld swap free)
qed

lemma nh_put1_upd:
  assumes "p \<noteq> q" "nh_put1 q s = (w, s')"
  shows "nh_put1 q (nh_upd p f s) = (w, nh_upd p f s')"
proof -
  let ?u = "nh_users_update (\<lambda>u. if u = 0 then 0 else u - 1)"
  have h: "nh_heap (nh_upd p f s2) ! q = nh_heap s2 ! q" for s2 using assms(1) by simp
  have c: "nh_upd q ?u (nh_upd p f s) = nh_upd p f (nh_upd q ?u s)"
    "nh_upd q nh_unlink (nh_upd p f s2) = nh_upd p f (nh_upd q nh_unlink s2)" for s2
    using assms(1) by (simp_all add: nh_upd_commute)
  show ?thesis
    using assms(2) unfolding nh_put1_def Let_def c(1) h c(2) by (auto split: if_splits)
qed

lemma nh_run_commute:
  assumes f: "\<And>n. nh_users (f n) = nh_users n" "\<And>n u. f (nh_users_update u n) = nh_users_update u (f n)"
    "\<And>n. nh_id (f n) = nh_id n"
  shows "nh_winv w (nh_upd p f s) ext \<Longrightarrow> nh_in_tbl s p = 1 \<Longrightarrow> p < length (nh_heap s) \<Longrightarrow>
    nh_run w (nh_upd p f s) = nh_upd p f (nh_run w s)"
proof (induction w s rule: nh_run.induct)
  case (2 q w s)
  let ?s = "nh_upd p f s"
  obtain w' s' where r: "nh_put1 q s = (w', s')" by fastforce
  have r': "nh_put1 q ?s = (w', nh_upd p f s')"
  proof (cases "q = p")
    case False
    then show ?thesis using nh_put1_upd [OF _ r, of p f] by blast
  next
    case True
    have "nh_in_tbl ?s p = 1" using "2.prems"(2,3) f(3) by (simp add: nh_in_tbl_def)
    moreover have "nh_inv ?s (\<lambda>q'. ext q' + count_list (nh_puts (NhPut q # w)) q')" using "2.prems"(1) unfolding nh_winv_def by blast
    then have "nh_in_tbl ?s p + nh_links (nh_heap ?s) p + (ext p + count_list (nh_puts (NhPut q # w)) p) \<le> unat (nh_users (nh_heap ?s ! p))"
      by (rule nh_inv_users_le) (use "2.prems"(3) in simp)
    ultimately have "2 \<le> unat (nh_users (nh_heap ?s ! p))" using True by simp
    then have u: "2 \<le> unat (nh_users (nh_heap s ! p))" using "2.prems"(3) f(1) by simp
    then have "nh_users (nh_heap s ! p) \<noteq> 0" by auto
    then have "nh_users (nh_heap s ! p) - 1 \<noteq> 0" using u unat_minus_one [of "nh_users (nh_heap s ! p)"] by auto
    then show ?thesis
      using r u "2.prems"(3) f unfolding True by (auto simp: nh_put1_def Let_def nh_upd_def split: if_splits)
  qed
  have qv: "q \<noteq> 0" "q < length (nh_heap s)" using nh_winv_put1(2,3) [OF "2.prems"(1) r'] by simp_all
  have st: "nh_static s' = nh_static s" by (rule nh_static_put1 [OF r])
  have "nh_run (w' @ w) (nh_upd p f s') = nh_upd p f (nh_run (w' @ w) s')"
    using "2.IH"(3) [OF _ _ r [symmetric]] qv nh_winv_put1(1) [OF "2.prems"(1) r'] "2.prems"(2,3)
      nh_in_tbl_static [OF st] nh_static_length [OF st] by simp
  then show ?case using r r' qv by (simp add: nh_run.simps)
next
  case (3 q w s)
  have "nh_users (nh_heap s ! p) \<noteq> 0"
  proof
    assume "nh_users (nh_heap s ! p) = 0"
    moreover have "nh_inv (nh_upd p f s) (\<lambda>q'. ext q' + count_list (nh_puts (NhFree q # w)) q')"
      using "3.prems"(1) unfolding nh_winv_def by blast
    ultimately have "nh_in_tbl (nh_upd p f s) p = 0"
      using nh_inv_users_le [of "nh_upd p f s" _ p] "3.prems"(3) f(1) by fastforce
    then show False using "3.prems"(2,3) f(3) by (simp add: nh_in_tbl_def)
  qed
  moreover have "nh_users (nh_heap (nh_upd p f s) ! q) = 0" using "3.prems"(1) by (simp add: nh_winv_def)
  ultimately have ne: "p \<noteq> q" using f(1) "3.prems"(3) by auto
  note st = nh_static_release [of q s]
  have "nh_winv w (nh_upd p f (nh_release q s)) ext"
    using nh_winv_free [OF "3.prems"(1)] unfolding nh_release_upd [OF ne] .
  then have "nh_run w (nh_upd p f (nh_release q s)) = nh_upd p f (nh_run w (nh_release q s))"
    using "3.IH" "3.prems"(2,3) nh_in_tbl_static [OF st] nh_static_length [OF st] by simp
  then show ?case by (simp add: nh_run.simps nh_release_upd [OF ne])
qed simp

section \<open>Components\<close>

definition ccount :: "vr_component_nh list \<Rightarrow> nh_ptr \<Rightarrow> nat" where
  "ccount cs = count_list (filter (\<lambda>p. p \<noteq> 0) (map cnh cs))"

lemma ccount_simps [simp]: "ccount [] q = 0" "ccount (c # cs) q = of_bool (cnh c \<noteq> 0 \<and> q = cnh c) + ccount cs q"
  by (auto simp: ccount_def)

lemma nh_out_count: "count_list (nh_out n) q = of_bool (nh_direct_nh n \<noteq> 0 \<and> q = nh_direct_nh n) + ccount (nh_component_nh n) q"
  by (auto simp: nh_out_def ccount_def)

lemma put_components_simps [simp]:
  "put_components [] s = s"
  "put_components (c # cs) s = put_components cs (if cnh c \<noteq> 0 then vrouter_put_nexthop (cnh c) s else s)"
  by (simp_all add: put_components_def)

lemma put_components_static: "nh_static (put_components cs s) = nh_static s" "nh_datas (put_components cs s) = nh_datas s"
  by (induction cs arbitrary: s) (simp_all add: nh_static_put nh_datas_put)

lemma put_components_inv:
  "nh_inv s (\<lambda>q. ext q + ccount cs q) \<Longrightarrow>
   nh_inv (put_components cs s) ext \<and> (nh_fresh s p \<longrightarrow> nh_fresh (put_components cs s) p)"
proof (induction cs arbitrary: s)
  case (Cons c cs)
  show ?case
  proof (cases "cnh c = 0")
    case True
    then show ?thesis using Cons by simp
  next
    case False
    then have "nh_inv s (\<lambda>q. (ext q + ccount cs q) + of_bool (q = cnh c))" using Cons.prems by (simp add: ac_simps)
    from Cons.IH [OF nh_inv_put1 [OF this]] nh_put_fresh [OF this, of p] False show ?thesis by simp
  qed
qed simp

lemma put_components_commute:
  assumes f: "\<And>n. nh_users (f n) = nh_users n" "\<And>n u. f (nh_users_update u n) = nh_users_update u (f n)"
    "\<And>n. nh_id (f n) = nh_id n"
  shows "nh_inv (nh_upd p f s) (\<lambda>q. ext q + ccount cs q) \<Longrightarrow> nh_in_tbl s p = 1 \<Longrightarrow> p < length (nh_heap s) \<Longrightarrow>
    put_components cs (nh_upd p f s) = nh_upd p f (put_components cs s)"
proof (induction cs arbitrary: s)
  case (Cons c cs)
  show ?case
  proof (cases "cnh c = 0")
    case True
    then show ?thesis using Cons by simp
  next
    case False
    then have inv: "nh_inv (nh_upd p f s) (\<lambda>q. (ext q + ccount cs q) + of_bool (q = cnh c))"
      using Cons.prems(1) by (simp add: ac_simps)
    have "(\<lambda>q. (ext q + ccount cs q) + of_bool (q = cnh c)) = (\<lambda>q. (ext q + ccount cs q) + count_list [cnh c] q)" by auto
    then have "nh_winv [NhPut (cnh c)] (nh_upd p f s) (\<lambda>q. ext q + ccount cs q)" using inv by (simp add: nh_winv_def)
    from nh_run_commute [OF f this Cons.prems(2,3)]
    have c: "vrouter_put_nexthop (cnh c) (nh_upd p f s) = nh_upd p f (vrouter_put_nexthop (cnh c) s)"
      by (simp add: vrouter_put_nexthop_def)
    note st = nh_static_put [of "cnh c" s]
    show ?thesis
      using Cons.IH [of "vrouter_put_nexthop (cnh c) s"] nh_inv_put1 [OF inv] Cons.prems(2,3) False
        nh_in_tbl_static [OF st] nh_static_length [OF st] by (simp add: c)
  qed
qed simp

text \<open>Looking nexthops up changes nothing but their reference counts.\<close>

definition users_only :: "nh_state \<Rightarrow> nh_state \<Rightarrow> bool" where
  "users_only s s' \<longleftrightarrow> (\<forall>q. \<exists>u. nh_heap s' ! q = (nh_heap s ! q)\<lparr>nh_users := u\<rparr>)"

lemma users_only_eq: "\<exists>u. nh_users_update g n = n\<lparr>nh_users := u\<rparr>" "\<exists>u. n = n\<lparr>nh_users := u\<rparr>" for n :: vr_nexthop
  by (rule exI [of _ "g (nh_users n)"], cases n, simp) (rule exI [of _ "nh_users n"], simp)

lemma users_only_refl: "nh_heap s' = nh_heap s \<Longrightarrow> users_only s s'"
proof -
  have "n = n\<lparr>nh_users := nh_users n\<rparr>" for n :: vr_nexthop by simp
  then show "nh_heap s' = nh_heap s \<Longrightarrow> users_only s s'" unfolding users_only_def by metis
qed

lemma users_only_trans: "users_only s s1 \<Longrightarrow> users_only s1 s2 \<Longrightarrow> users_only s s2"
  unfolding users_only_def by (metis (no_types, lifting) vr_nexthop.surjective vr_nexthop.update_convs(8))

lemma users_only_get: "users_only s (snd (vrouter_get_nexthop i s))"
proof -
  obtain p s1 where g: "get_nexthop_raw i s = (p, s1)" by fastforce
  have h: "nh_heap s1 = nh_heap s" using g by (auto simp: get_nexthop_raw_def split: if_splits option.splits)
  have "users_only s1 (nh_upd p (nh_users_update (\<lambda>u. u + 1)) s1)"
    unfolding users_only_def
  proof
    fix q
    show "\<exists>u. nh_heap (nh_upd p (nh_users_update (\<lambda>u. u + 1)) s1) ! q = (nh_heap s1 ! q)\<lparr>nh_users := u\<rparr>"
      by (cases "q = p \<and> p < length (nh_heap s1)"; cases "p < length (nh_heap s1)")
        (use users_only_eq in \<open>auto simp: list_update_beyond not_less\<close>)
  qed
  then show ?thesis using g users_only_trans [OF users_only_refl [OF h]] users_only_refl [OF h]
    by (simp add: vrouter_get_nexthop_def)
qed

lemma get_components_inv:
  "nh_inv s ext \<Longrightarrow> nh_room s (length is + n) \<Longrightarrow> get_components fl is ls k s = (cs, s') \<Longrightarrow>
   nh_inv s' (\<lambda>q. ext q + ccount cs q) \<and> nh_room s' n \<and> nh_static s' = nh_static s \<and> nh_datas s' = nh_datas s \<and>
   users_only s s' \<and> (nh_fresh s p \<longrightarrow> nh_fresh s' p)"
proof (induction fl "is" ls k s arbitrary: cs ext rule: get_components.induct)
  case (1 fl i "is" l ls k s)
  obtain nh s1 where g: "vrouter_get_nexthop i s = (nh, s1)" by fastforce
  obtain cs1 s2 where c: "get_components fl is ls (k + 1) s1 = (cs1, s2)" by fastforce
  have st: "nh_static s1 = nh_static s" "nh_datas s1 = nh_datas s" "users_only s s1"
    using nh_static_get [of i s] nh_datas_get [of i s] users_only_get [of s i] g by simp_all
  have r: "s' = s2" "ccount cs q = of_bool (nh \<noteq> 0 \<and> q = nh) + ccount cs1 q" for q using "1.prems"(3) g c by auto
  show ?case
  proof (cases "nh = 0")
    case True
    then have "s1 = s" using get_nexthop_null(1) [OF "1.prems"(1)] g by simp
    then show ?thesis
      using "1.IH" [OF g [symmetric], of ext cs1] "1.prems"(1) nh_room_mono [OF "1.prems"(2)] c r True by auto
  next
    case False
    have inv1: "nh_inv s1 (\<lambda>q. ext q + of_bool (q = nh))" "nh_room s1 (length is + n)"
      using nh_room_get [OF "1.prems"(1) _ g False, of "length is + n"] "1.prems"(2) by simp_all
    have "nh_fresh s p \<longrightarrow> nh_fresh s1 p"
    proof
      assume f: "nh_fresh s p"
      have "p \<noteq> nh" using nh_fresh_unref(1) [OF "1.prems"(1) f, of i] fst_get_nexthop [of i s] g by simp
      then show "nh_fresh s1 p"
        using f g get_nexthop_raw_inv [OF "1.prems"(1), of i] False by (auto simp: nh_fresh_def vrouter_get_nexthop_def split: if_splits)
    qed
    then show ?thesis
      using "1.IH" [OF g [symmetric], of "\<lambda>q. ext q + of_bool (q = nh)" cs1] inv1 c r False st users_only_trans
      by (auto simp: ac_simps)
  qed
qed (auto simp: users_only_refl intro: nh_room_mono)

lemma composite_build_inv:
  assumes inv: "nh_inv s ext" and room: "nh_room s (length (nhr_nh_list req) + n)"
    and r: "composite_build req s = ((ret, cs, ecmp), s')"
  shows "nh_inv s' (\<lambda>q. ext q + ccount cs q) \<and> nh_static s' = nh_static s \<and> nh_datas s' = nh_datas s \<and>
    users_only s s' \<and> (nh_fresh s p \<longrightarrow> nh_fresh s' p)"
proof -
  let ?Q = "\<lambda>cs s'. nh_inv s' (\<lambda>q. ext q + ccount cs q) \<and> nh_static s' = nh_static s \<and> nh_datas s' = nh_datas s \<and>
    users_only s s' \<and> (nh_fresh s p \<longrightarrow> nh_fresh s' p)"
  have base: "?Q [] s" using inv users_only_refl by simp
  have al: "?Q cs s2" if q: "?Q cs s1" and a: "next_alloc s1 = (ok, s2)" for cs s1 s2 ok
  proof -
    have "nh_heap s2 = nh_heap s1" using a by (auto simp: next_alloc_def)
    moreover have "nh_static s2 = nh_static s1" using a by (auto simp: next_alloc_def nh_static_def)
    moreover have "keeps (\<lambda>q. ext q + ccount cs q) p s1 s2" using keeps_next_alloc [OF a] by blast
    ultimately show ?thesis using q users_only_trans users_only_refl by (auto simp: keeps_def nh_datas_def)
  qed
  obtain ok s1 where a: "next_alloc s = (ok, s1)" by fastforce
  have q1: "?Q [] s1" using al [OF base a] .
  obtain cs1 s2 where g: "get_components (nhr_flags req) (nhr_nh_list req) (nhr_label_list req) 0 s1 = (cs1, s2)" by fastforce
  have room1: "nh_room s1 (length (nhr_nh_list req) + n)" using room a by (auto simp: next_alloc_def nh_room_def)
  have "nh_inv s1 ext" using q1 by simp
  from get_components_inv [OF this room1 g, of p] q1 have q2: "?Q cs1 s2" using users_only_trans by auto
  obtain ok' s3 where a': "next_alloc s2 = (ok', s3)" by fastforce
  have q3: "?Q cs1 s3" using al [OF q2 a'] .
  show ?thesis
    using r base q1 q2 q3 a a' g by (auto simp: composite_build_def Let_def split: if_splits)
qed

lemma composite_reach_view: "nh_view (composite_reach ret req j n) = nh_view n"
  by (simp add: composite_reach_def nh_ecmp_store_ecmp_config_hash_def nh_view_def nh_out_def Let_def)

lemma keeps_static:
  assumes "nh_static s' = nh_static s" "nh_datas s' = nh_datas s" "p < length (nh_heap s)"
    "nh_inv s ext \<Longrightarrow> nh_inv s' ext \<and> (nh_fresh s p \<longrightarrow> nh_fresh s' p)"
  shows "keeps ext p s s'"
  using assms nh_static_length [OF assms(1)] nh_static_tbl [OF assms(1)] nh_static_fields(1) [OF assms(1)]
    nh_datas_ok [OF assms(2)] nh_datas_nth [OF assms(2), of p]
  by (simp add: keeps_def nh_static_def)

text \<open>Replacing the components.\<close>

lemma composite_replace:
  assumes inv: "nh_inv s (\<lambda>q. ext q + ccount cs q)" and p: "p < length (nh_heap s)"
    and old: "nh_component_nh (nh_heap s ! p) = [] \<or> nh_in_tbl s p = 1"
    and c: "\<And>q. ccount cs' q \<le> ccount cs q"
  defines "s1 \<equiv> if nh_component_nh (nh_heap s ! p) = [] then s
     else nh_upd p nh_drop_comps (put_components (nh_component_nh (nh_heap s ! p)) s)"
  shows "nh_inv (nh_upd p (\<lambda>n. n\<lparr>nh_component_nh := cs', nh_component_ecmp := e n\<rparr>) s1) ext \<and>
    nh_component_nh (nh_heap s1 ! p) = [] \<and> nh_inv s1 (\<lambda>q. ext q + ccount cs q) \<and>
    nh_static s1 = nh_static s \<and> nh_datas s1 = nh_datas s \<and> (nh_fresh s p \<longrightarrow> s1 = s)"
proof -
  have dr: "nh_users (nh_drop_comps n) = nh_users n" "nh_drop_comps (nh_users_update u n) = nh_users_update u (nh_drop_comps n)"
    "nh_id (nh_drop_comps n) = nh_id n" "nh_component_nh (nh_drop_comps n) = []" "nh_direct_nh (nh_drop_comps n) = nh_direct_nh n"
    "nh_rid (nh_drop_comps n) = nh_rid n" "nh_type (nh_drop_comps n) = nh_type n"
    "nh_data_size (nh_drop_comps n) = nh_data_size n" "nh_data (nh_drop_comps n) = nh_data n" for n u
    by (cases n, simp add: nh_drop_comps_def)+
  have s1: "nh_component_nh (nh_heap s1 ! p) = [] \<and> nh_inv s1 (\<lambda>q. ext q + ccount cs q) \<and>
    nh_static s1 = nh_static s \<and> nh_datas s1 = nh_datas s"
  proof (cases "nh_component_nh (nh_heap s ! p) = []")
    case True
    then show ?thesis using inv by (simp add: s1_def)
  next
    case False
    let ?old = "nh_component_nh (nh_heap s ! p)" and ?e = "\<lambda>q. ext q + ccount cs q"
    have "nh_inv (nh_upd p nh_drop_comps s) (\<lambda>q. ?e q + ccount ?old q)"
      by (rule nh_inv_upd [OF inv p]) (simp_all add: dr nh_out_count)
    from put_components_commute [where f = nh_drop_comps, OF dr(1-3) this _ p] put_components_inv [OF this, of p] old False
    have "nh_inv s1 ?e" by (simp add: s1_def)
    moreover have "nh_static s1 = nh_static s" "nh_datas s1 = nh_datas s"
      using False nh_static_upd [of nh_drop_comps] nh_datas_upd [of nh_drop_comps]
      by (simp_all add: s1_def put_components_static dr)
    moreover have "nh_component_nh (nh_heap s1 ! p) = []"
      using False p nh_static_length [OF put_components_static(1) [of ?old s]] by (simp add: s1_def dr)
    ultimately show ?thesis by blast
  qed
  have len: "p < length (nh_heap s1)" using s1 p nh_static_length [of s1 s] by simp
  have "nh_inv (nh_upd p (\<lambda>n. n\<lparr>nh_component_nh := cs', nh_component_ecmp := e n\<rparr>) s1) ext"
    using s1 len c by (intro nh_inv_upd [of s1 "\<lambda>q. ext q + ccount cs q"]) (auto simp: nh_out_count)
  moreover have "nh_fresh s p \<longrightarrow> s1 = s"
    using old nh_fresh_unref(1) [OF inv] by (auto simp: s1_def nh_in_tbl_def split: if_splits)
  ultimately show ?thesis using s1 by blast
qed

end
