(* ===== verification/VR_Nexthop_Change.thy ===== *)
theory VR_Nexthop_Change
  imports VR_Nexthop_Add
begin

text \<open>
  The whole request to add or to change a nexthop: composites and indirect nexthops, the switch
  over the types, and \<open>vr_nexthop_add\<close> itself.
\<close>

section \<open>Composites\<close>

lemma nh_fresh_cong:
  assumes "nh_static s' = nh_static s" "nh_users (nh_heap s' ! p) = nh_users (nh_heap s ! p)"
    "nh_defer s' = nh_defer s" "nh_freed s' = nh_freed s"
  shows "nh_fresh s' p = nh_fresh s p"
  using assms nh_static_length [OF assms(1)] by (simp add: nh_fresh_def)





section \<open>Indirect nexthops\<close>


section \<open>The switch over the types\<close>

text \<open>
  A request fits the nexthop it is applied to: it names the interfaces its type asks for, the
  union of the nexthop is unused or has the layout of the new type, and the encapsulation fits.
\<close>

definition nh_request_fits :: "vr_nexthop_req \<Rightarrow> vr_nexthop \<Rightarrow> bool" where
  "nh_request_fits req n \<longleftrightarrow>
     (case nh_type n of
        NH_ENCAP \<Rightarrow> nhr_encap_oif_id req \<noteq> [] \<and> nh_layout n \<in> {LNone, LEncap} \<and> length (nhr_encap req) \<le> length (nh_data n)
      | NH_TUNNEL \<Rightarrow> tunnel_oif_ok req n \<and> nh_layout n \<in> {LNone, tunnel_layout req (nh_flags n)} \<and>
          length (nhr_encap req) \<le> length (nh_data n)
      | NH_RCV \<Rightarrow> nhr_encap_oif_id req \<noteq> []
      | NH_COMPOSITE \<Rightarrow> nh_layout n \<in> {LNone, LComposite}
      | _ \<Rightarrow> True)"

lemma nh_request_fits_upd [simp]: "nh_request_fits req (n\<lparr>nh_users := u, nh_direct_nh := d\<rparr>) = nh_request_fits req n"
  by (simp add: nh_request_fits_def tunnel_oif_ok_def cong: nexthop_type.case_cong)



section \<open>The whole request\<close>

















section \<open>Changes of the kind\<close>




section \<open>Histories of the component\<close>






section \<open>Properties\<close>









end
