(* ===== verification/VR_Router.thy ===== *)
theory VR_Router
  imports VR_Vxlan_Props VR_Bridge_Learn VR_Nexthop_Change
begin

text \<open>
  The tables of the router on one nexthop table: labels, networks and MAC addresses lead to nexthops, and
  each of them holds a reference. The requests to the tables and to the nexthop table may come in any order.
  In no state that can be reached in this way does an entry of a table lead to a nexthop that was released.
\<close>

section \<open>The state\<close>






section \<open>The invariant\<close>
















section \<open>The data of the nexthops\<close>





lemma be_upd_nh [simp]: "br_nh (be_upd i f st) = br_nh st"
  by (simp add: be_upd_def)








section \<open>Every step keeps the invariant\<close>







section \<open>Properties\<close>








end
