(* ===== verification/Spec2Isabelle.thy ===== *)
theory Spec2Isabelle
  imports VR_Bitmap VR_Mtrie_Props VR_Checksum VR_Router
begin

text \<open>
  A verification of the core of the vrouter, the forwarding plane of a virtual network. A table per kind
  of address (routes, MAC addresses, MPLS labels, VXLAN networks) leads to nexthops, which say
  where a packet goes; the agent fills the tables by requests, and packets are looked up in them. The
  development models the tables in \<^verbatim>\<open>dp-core\<close>, the containers they are built from, the nexthops
  with their reference counts, and the first steps of a packet. It shows that the tables do what their
  requests say, on error paths too, that nexthops live as long as something leads to them, and
  that packets are not read outside of their buffer.

  \<^bold>\<open>Conventions.\<close> Structures are records with the names of the C fields, machine integers are words of
  their width, and an operation takes and returns the state it works on. Code that may follow an
  invalid pointer or read outside of a buffer returns an \<open>exec\<close>: \<open>Done\<close> with the result or
  \<open>Fault\<close>. Error numbers are values of \<open>vr_ret\<close>. Pointers to nexthops are indices of a heap that
  is a list, and zero is NULL. Functions of the host, the offload driver and the outcomes of
  allocations are arguments; an allocation schedule tells which of the coming allocations
  succeed. \<open>vrouter_get\<close> always finds the one router, so that the checks for a missing one are left out.
  Names that begin with two underscores in C end in \<open>_raw\<close> or lose the underscores.

  \<^bold>\<open>Containers.\<close>
  \<^item> \<open>VR_Bitmap\<close> (\<^verbatim>\<open>vr_bitmap.c\<close>) is the allocator of bit numbers.
  \<^item> \<open>VR_Btable\<close> (\<^verbatim>\<open>vr_btable.c\<close>) is an array in chunks. Entries lie in their chunk and do not
    overlap, and the two ways to find an entry agree.
  \<^item> \<open>VR_Itable\<close> (\<^verbatim>\<open>vr_index_table.c\<close>) is a table in strides of index bits. The locale \<open>index_map\<close> is its
    contract: stores and deletions change exactly the lookups of their index. \<open>VR_Itable_Walk\<close> counts what the
    walk at the end of a table meets.
  \<^item> \<open>VR_Hash\<close> (\<^verbatim>\<open>vr_hash.h\<close>) is the Jenkins hash; \<open>VR_Htable\<close>, \<open>_Inv\<close>, \<open>_Del\<close> and \<open>_Map\<close> (\<^verbatim>\<open>vr_htable.c\<close>) are the hash
    table with buckets, overflow lists, and entries that are freed later. The locale \<open>entry_table\<close> is
    the contract of a map from keys to entries, and \<open>ht_reach\<close> the states that its operations reach.
  \<^item> \<open>VR_Mtrie\<close>, \<open>_LPM\<close>, \<open>_Del\<close>, \<open>_Lookup\<close>, \<open>_Refs\<close> and \<open>_Props\<close> (\<^verbatim>\<open>vr_ip_mtrie.c\<close>) are the multibit trie of the routes. It refines
    a set of routes under longest prefix match, and its leaves hold references to nexthops. \<open>VR_Route_Req\<close>
    is the request.

  \<^bold>\<open>Nexthops.\<close> \<open>VR_Nexthop\<close> and \<open>VR_Nexthop_Ops\<close> (\<^verbatim>\<open>vr_nexthop.c\<close>) are the nexthop table with the requests to add, change
  and delete nexthops of every type. Dropping the last reference releases a nexthop and drops the
  references it holds itself; the recursion over these is a work list. \<open>VR_Nexthop_Inv\<close>, \<open>_Add\<close> and \<open>_Change\<close> prove the
  invariant: the count of a nexthop covers the references from the table, from other nexthops and from outside. The
  locale \<open>ref_store\<close> in \<open>VR_Nh_Refs\<close> is what the other tables rely on; \<open>VR_Nh_Maps\<close> derives the laws of
  a table that holds one reference per key.

  \<^bold>\<open>Tables.\<close>
  \<^item> \<open>VR_Bridge\<close>, \<open>_Props\<close> and \<open>_Learn\<close> (\<^verbatim>\<open>vr_bridge.c\<close>) are the MAC table on the hash table. Requests refine updates of a map from
    addresses; addresses are learned under a lock, and the wait for it ends.
  \<^item> \<open>VR_Mpls\<close> and \<open>_Props\<close> (\<^verbatim>\<open>vr_mpls.c\<close>) are the labels on a big table, and the input of labelled packets.
  \<^item> \<open>VR_Vxlan\<close> and \<open>_Props\<close> (\<^verbatim>\<open>vr_vxlan.c\<close>) are the networks on an index table of 24 bits, and the input of VXLAN packets.
  \<^item> \<open>VR_Router\<close> puts the nexthops, the labels, the networks and the MAC table together, on one nexthop table. \<open>router_reach\<close> are the
    states that any sequence of requests leads to; in none of them does a table lead to a released nexthop.

  \<^bold>\<open>Packets.\<close> \<open>VR_Packet\<close> (\<^verbatim>\<open>vr_packet.h\<close>) has the offsets of a buffer, the forwarding metadata and the
  drop counters, \<open>VR_Frame\<close> the reads of the buffer and the parsing of the ethernet header (\<^verbatim>\<open>vr_datapath.c\<close>), and \<open>VR_Checksum\<close> the
  checksums of \<^verbatim>\<open>vr_packet.h\<close>, \<^verbatim>\<open>vr_proto_ip.c\<close> and \<^verbatim>\<open>vr_proto_ip6.c\<close>, as sums modulo 65535.

  \<^bold>\<open>Bounds.\<close> Loops are structural recursions or have a termination proof. The wait for the lock of an
  interface is a \<open>partial_function\<close>, and it is proved when it returns. Reference counts have 32 bits and the
  code does not check them: statements about taking references ask for room in the counts (\<open>nh_room\<close>). The
  multiplications that size a table wrap at 32 bits as in the code; the number of nexthops and labels is
  below 2 to the 29 where that matters.

  \<^bold>\<open>Assumptions.\<close> Requests are served one at a time; lookups
  that run beside a request on another processor are not modelled, except that what is freed is
  freed later. The machine is little endian. \<open>VR_Router\<close> leaves the nexthop alone that the router
  makes for itself, and does not contain the routes: a route keeps the number of its nexthop, and the
  theorems on the trie ask that the number still leads to it.

  \<^bold>\<open>Not modelled.\<close> The dispatch of route requests to families and VRFs (\<^verbatim>\<open>vr_route.c\<close>, \<^verbatim>\<open>vr_vrf_table.c\<close>); flows and fragments
  (\<^verbatim>\<open>vr_flow.c\<close>, \<^verbatim>\<open>vr_fragment.c\<close>), whose entries packets and requests change side by side; interfaces
  (\<^verbatim>\<open>vr_interface.c\<close>), beyond the references to them; what a nexthop does with a packet, which ends
  in functions of the host; QoS, mirroring and statistics; the messages, whose encoding is generated
  and done by a library; and the hosts (\<^verbatim>\<open>linux\<close>, \<^verbatim>\<open>dpdk\<close>, \<^verbatim>\<open>host\<close>, \<^verbatim>\<open>uvrouter\<close>) and tools (\<^verbatim>\<open>utils\<close>), which are input
  and output.
\<close>

end
